(* ===== verification/Prelude.thy ===== *)
theory Prelude
  imports Main "HOL-Library.Word"
begin

text \<open>
  Shared vocabulary of the development.

  \<^item> \<open>fault\<close> names the ways a piece of the C++ can go wrong: a dereference of a
    null or of a freed pointer, a read of an indeterminate value, a non-void function
    that falls off its end, an index past the end of an array, a failed \<open>assert\<close>, an
    exception. A fallible operation returns \<open>fault + 'a\<close>; \<open>bindE\<close> sequences such
    operations and \<open>foldE\<close> is a \<open>for\<close> loop whose body can fail.
  \<^item> \<open>reach\<close> is the set of states of a transition system that can be reached from an
    initial state; the locale \<open>inductive_invariant\<close> turns a one-step preservation proof
    into a fact about every reachable state.
\<close>

section \<open>Machine types\<close>

type_synonym u64 = "64 word"
type_synonym i64 = "64 word"
type_synonym i32 = "32 word"
type_synonym u32 = "32 word"

section \<open>Faults and the error monad\<close>

datatype fault =
    Null_deref
  | Dangling
  | Uninit_read
  | Missing_return
  | Out_of_bounds
  | Bad_alloc
  | Assert_fail
  | Diverges
  | Thrown string

definition bindE :: "'e + 'a \<Rightarrow> ('a \<Rightarrow> 'e + 'b) \<Rightarrow> 'e + 'b" where
  "bindE m f = (case m of Inl e \<Rightarrow> Inl e | Inr x \<Rightarrow> f x)"

lemma bindE_Inl [simp]: "bindE (Inl e) f = Inl e"
  by (simp add: bindE_def)

lemma bindE_Inr [simp]: "bindE (Inr x) f = f x"
  by (simp add: bindE_def)

lemma bindE_eq_Inr: "bindE m f = Inr y \<longleftrightarrow> (\<exists>x. m = Inr x \<and> f x = Inr y)"
  by (cases m) auto

lemma bindE_assoc: "bindE (bindE m f) g = bindE m (\<lambda>x. bindE (f x) g)"
  by (cases m) auto

text \<open>\<open>check e b\<close> is the guard whose failure is the fault \<open>e\<close>.\<close>

definition check :: "'e \<Rightarrow> bool \<Rightarrow> 'e + unit" where
  "check e b = (if b then Inr () else Inl e)"

lemma check_True [simp]: "check e True = Inr ()"
  by (simp add: check_def)

lemma check_False [simp]: "check e False = Inl e"
  by (simp add: check_def)

fun foldE :: "('b \<Rightarrow> 's \<Rightarrow> 'e + 's) \<Rightarrow> 'b list \<Rightarrow> 's \<Rightarrow> 'e + 's" where
  "foldE f [] s = Inr s"
| "foldE f (x # xs) s = bindE (f x s) (foldE f xs)"

lemma foldE_append: "foldE f (xs @ ys) s = bindE (foldE f xs s) (foldE f ys)"
  by (induction xs arbitrary: s) (auto simp: bindE_assoc, metis)

section \<open>Transition systems\<close>

inductive reach :: "('s \<Rightarrow> bool) \<Rightarrow> ('s \<Rightarrow> 's \<Rightarrow> bool) \<Rightarrow> 's \<Rightarrow> bool"
  for init step where
  reach_init: "init s \<Longrightarrow> reach init step s"
| reach_step: "reach init step s \<Longrightarrow> step s t \<Longrightarrow> reach init step t"

lemma reach_steps: "step\<^sup>*\<^sup>* s t \<Longrightarrow> init s \<Longrightarrow> reach init step t"
  by (induction rule: rtranclp_induct) (auto intro: reach.intros)

lemma reach_trans: "step\<^sup>*\<^sup>* s t \<Longrightarrow> reach init step s \<Longrightarrow> reach init step t"
  by (induction rule: rtranclp_induct) (auto intro: reach_step)

locale inductive_invariant =
  fixes init :: "'s \<Rightarrow> bool"
    and step :: "'s \<Rightarrow> 's \<Rightarrow> bool"
    and inv :: "'s \<Rightarrow> bool"
  assumes inv_init: "init s \<Longrightarrow> inv s"
    and inv_step: "inv s \<Longrightarrow> step s t \<Longrightarrow> inv t"
begin

lemma inv_reach: "reach init step s \<Longrightarrow> inv s"
  by (induction rule: reach.induct) (auto intro: inv_init inv_step)

lemma inv_steps: "step\<^sup>*\<^sup>* s t \<Longrightarrow> inv s \<Longrightarrow> inv t"
  by (induction rule: rtranclp_induct) (auto intro: inv_step)

end

section \<open>Words\<close>

lemma sint_i32: "- (2 ^ 31) \<le> k \<Longrightarrow> k < 2 ^ 31 \<Longrightarrow> sint (word_of_int k :: i32) = k"
  by (simp add: sint_sbintrunc' signed_take_bit_int_eq_self)

lemma sint_of_nat_i32: "n < 2 ^ 31 \<Longrightarrow> sint (of_nat n :: i32) = int n"
  using sint_i32 [of "int n"] by simp

lemma unat_of_nat_u64: "n < 2 ^ 64 \<Longrightarrow> unat (of_nat n :: u64) = n"
  by (simp add: unat_of_nat)

section \<open>Lists and association lists\<close>

named_theorems heap_simps

lemma map_of_filter_ne [heap_simps]:
  "map_of (filter (\<lambda>p. fst p \<noteq> a) h) = (map_of h)(a := None)"
  by (induction h) (auto simp: fun_eq_iff)

text \<open>Pigeonhole: a list of \<open>n\<close> keys misses one of the first \<open>n + 1\<close> positive numbers.\<close>

lemma fresh_index:
  assumes "length ks = n"
  shows "\<exists>i \<in> {1..<n + 2}. i \<notin> set (ks :: nat list)"
proof (rule ccontr)
  assume "\<not> ?thesis"
  then have "{1..<n + 2} \<subseteq> set ks" by auto
  then have "card {1..<n + 2} \<le> card (set ks)" by (rule card_mono [rotated]) simp
  also have "\<dots> \<le> n" using assms card_length by metis
  finally show False by simp
qed

end
