(* ===== verification/Uring_Cat.thy ===== *)
theory Uring_Cat
  imports Prelude "HOL-Library.Signed_Division"
begin

unbundle bit_operations_syntax

text \<open>
  The program \<open>iouring_cat.c\<close>: it writes the files named on its command line to the standard
  output, reading each with one vectored read of an io_uring it drives by hand.

  Memory is typed: \<open>words\<close> holds the 32-bit cells of the mapped rings, \<open>sq_mem\<close> and \<open>cq_mem\<close>
  their entries, \<open>infos\<close> the \<open>file_info\<close> blocks and \<open>bufs\<close> the data buffers, all by address; a
  pointer is an address, pointer arithmetic is arithmetic on addresses, and an access outside a
  block is a fault. The kernel and the C library are the record \<open>cat_os\<close>: what
  \<open>io_uring_setup\<close>, \<open>mmap\<close>, \<open>open\<close>, \<open>fstat\<close>, \<open>ioctl\<close>, \<open>malloc\<close> and
  \<open>posix_memalign\<close> answer, and what \<open>io_uring_enter\<close> does to the memory it shares.
\<close>

section \<open>Data\<close>

type_synonym byte = "8 word"

record app_io_sq_ring =
  sq_head :: u64
  sq_tail :: u64
  sq_ring_mask :: u64
  sq_ring_entries :: u64
  sq_flags :: u64
  sq_array :: u64

record app_io_cq_ring =
  cq_head :: u64
  cq_tail :: u64
  cq_ring_mask :: u64
  cq_ring_entries :: u64
  cq_cqes :: u64

record submitter =
  ring_fd :: i32
  sq_ring :: app_io_sq_ring
  sqes_at :: u64
  cq_ring :: app_io_cq_ring

text \<open>A block of \<open>malloc\<close> is uninitialised: an \<open>iovec\<close> that was never written is \<open>None\<close>.\<close>

record iovec =
  iov_base :: u64
  iov_len :: u64

record file_info =
  file_sz :: i64
  iovecs :: "iovec option list"

record cat_sqe =
  sqe_opcode :: "8 word"
  sqe_flags :: "8 word"
  sqe_fd :: i32
  sqe_off :: u64
  sqe_addr :: u64
  sqe_len :: u32
  sqe_user_data :: u64

record cat_cqe =
  cqe_user_data :: u64
  cqe_res :: i32

record cat_mem =
  words :: "u64 \<Rightarrow> u32"
  sq_mem :: "u64 \<Rightarrow> cat_sqe"
  cq_mem :: "u64 \<Rightarrow> cat_cqe"
  infos :: "u64 \<rightharpoonup> file_info"
  bufs :: "u64 \<rightharpoonup> byte list"

text \<open>What the program writes to the standard error: \<open>perror\<close> with its prefix, a fixed message, \<open>strerror\<close> of a result.\<close>

datatype message = Perror string | Message string | Strerror i32

record cat =
  sub :: submitter
  mem :: cat_mem
  stdout :: "byte list"
  stderr :: "message list"
  opened :: "i32 list"

record uring_params =
  sq_entries :: u32
  cq_entries :: u32
  features :: u32
  sq_off :: "u32 \<times> u32 \<times> u32 \<times> u32 \<times> u32 \<times> u32"
  cq_off :: "u32 \<times> u32 \<times> u32 \<times> u32 \<times> u32"

record cat_os =
  sys_setup :: "u32 \<Rightarrow> i64 \<times> uring_params"
  os_mmap :: "u64 \<Rightarrow> u64 \<Rightarrow> u64 option"
  os_open :: "string \<Rightarrow> i32"
  os_fstat :: "i32 \<Rightarrow> (u32 \<times> i64) option"
  os_blkgetsize :: "i32 \<Rightarrow> u64 option"
  os_malloc :: "cat_mem \<Rightarrow> u64 \<Rightarrow> u64 option"
  os_memalign :: "cat_mem \<Rightarrow> u64 option"
  os_junk :: "u64 \<Rightarrow> nat \<Rightarrow> byte"
  sys_enter :: "submitter \<Rightarrow> u32 \<Rightarrow> u32 \<Rightarrow> u32 \<Rightarrow> cat_mem \<Rightarrow> i64 \<times> cat_mem"

definition QUEUE_DEPTH :: u32 where "QUEUE_DEPTH = 1"
definition BLOCK_SZ :: i64 where "BLOCK_SZ = 1024"
definition IORING_FEAT_SINGLE_MMAP :: u32 where "IORING_FEAT_SINGLE_MMAP = 1"
definition IORING_FEAT_FAST_POLL :: u32 where "IORING_FEAT_FAST_POLL = 32"
definition IORING_ENTER_GETEVENTS :: u32 where "IORING_ENTER_GETEVENTS = 1"
definition IORING_OFF_SQ_RING :: u64 where "IORING_OFF_SQ_RING = 0"
definition IORING_OFF_CQ_RING :: u64 where "IORING_OFF_CQ_RING = 0x8000000"
definition IORING_OFF_SQES :: u64 where "IORING_OFF_SQES = 0x10000000"
definition IORING_OP_READV :: "8 word" where "IORING_OP_READV = 1"

definition complain :: "message \<Rightarrow> cat \<Rightarrow> cat" where
  "complain m s = s\<lparr>stderr := stderr s @ [m]\<rparr>"

text \<open>The wrappers of the two system calls cut the \<open>long\<close> that \<open>syscall\<close> answers to an \<open>int\<close>.\<close>

definition io_uring_setup :: "cat_os \<Rightarrow> u32 \<Rightarrow> i32 \<times> uring_params" where
  "io_uring_setup os entries = (let (r, p) = sys_setup os entries in (ucast r, p))"

definition io_uring_enter :: "cat_os \<Rightarrow> submitter \<Rightarrow> u32 \<Rightarrow> u32 \<Rightarrow> u32 \<Rightarrow> cat_mem \<Rightarrow> i32 \<times> cat_mem" where
  "io_uring_enter os s to_submit min_complete flags m =
     (let (r, m') = sys_enter os s to_submit min_complete flags m in (ucast r, m'))"

section \<open>Sizes\<close>

definition S_ISBLK :: "u32 \<Rightarrow> bool" where
  "S_ISBLK m \<longleftrightarrow> m AND 0xF000 = 0x6000"

definition S_ISREG :: "u32 \<Rightarrow> bool" where
  "S_ISREG m \<longleftrightarrow> m AND 0xF000 = 0x8000"

definition get_file_size :: "cat_os \<Rightarrow> i32 \<Rightarrow> cat \<Rightarrow> i64 \<times> cat" where
  "get_file_size os fd s = (case os_fstat os fd of
       None \<Rightarrow> (- 1, complain (Perror ''fstat'') s)
     | Some (st_mode, st_size) \<Rightarrow>
         if S_ISBLK st_mode
         then (case os_blkgetsize os fd of
                 None \<Rightarrow> (- 1, complain (Perror ''ioctl'') s)
               | Some bytes \<Rightarrow> (bytes, s))
         else if S_ISREG st_mode then (st_size, s)
         else (- 1, s))"

text \<open>
  \<open>(int) file_sz / BLOCK_SZ\<close>: the cast binds tighter than the division. The rest is taken of
  the 64-bit size.
\<close>

definition blocks_of :: "i64 \<Rightarrow> i32" where
  "blocks_of sz =
     (let blocks = word_of_int (sint (ucast sz :: i32) sdiv 1024)
      in if sint sz smod sint BLOCK_SZ \<noteq> 0 then blocks + 1 else blocks)"

text \<open>\<open>sizeof(*fi) + sizeof(struct iovec) * blocks\<close>, in 64 bits, and the iovecs it has room for.\<close>

definition info_size :: "i32 \<Rightarrow> u64" where
  "info_size blocks = 8 + 16 * scast blocks"

definition info_slots :: "u64 \<Rightarrow> nat" where
  "info_slots bytes = (unat bytes - 8) div 16"

section \<open>Setting up the ring\<close>

definition map_sq_ring :: "u64 \<Rightarrow> uring_params \<Rightarrow> app_io_sq_ring" where
  "map_sq_ring sq_ptr p = (case sq_off p of (h, t, m, e, f, a) \<Rightarrow>
     \<lparr>sq_head = sq_ptr + ucast h, sq_tail = sq_ptr + ucast t, sq_ring_mask = sq_ptr + ucast m,
      sq_ring_entries = sq_ptr + ucast e, sq_flags = sq_ptr + ucast f, sq_array = sq_ptr + ucast a\<rparr>)"

definition map_cq_ring :: "u64 \<Rightarrow> uring_params \<Rightarrow> app_io_cq_ring" where
  "map_cq_ring cq_ptr p = (case cq_off p of (h, t, m, e, c) \<Rightarrow>
     \<lparr>cq_head = cq_ptr + ucast h, cq_tail = cq_ptr + ucast t, cq_ring_mask = cq_ptr + ucast m,
      cq_ring_entries = cq_ptr + ucast e, cq_cqes = cq_ptr + ucast c\<rparr>)"

definition sring_sz :: "uring_params \<Rightarrow> i32" where
  "sring_sz p = (case sq_off p of (_, _, _, _, _, a) \<Rightarrow> ucast (ucast a + ucast (sq_entries p) * 4 :: u64))"

definition cring_sz :: "uring_params \<Rightarrow> i32" where
  "cring_sz p = (case cq_off p of (_, _, _, _, c) \<Rightarrow> ucast (ucast c + ucast (cq_entries p) * 16 :: u64))"

definition single_mmap :: "uring_params \<Rightarrow> bool" where
  "single_mmap p \<longleftrightarrow> features p AND IORING_FEAT_SINGLE_MMAP \<noteq> 0"

text \<open>The sizes of the two ring mappings after the adjustment for a kernel that maps both at once.\<close>

definition ring_sizes :: "uring_params \<Rightarrow> i32 \<times> i32" where
  "ring_sizes p =
     (if single_mmap p
      then let sz = if sring_sz p <s cring_sz p then cring_sz p else sring_sz p in (sz, sz)
      else (sring_sz p, cring_sz p))"

text \<open>\<open>printf\<close> and \<open>fputc\<close> write to the same stream, so the banner is part of the standard output.\<close>

definition fast_poll_banner :: "uring_params \<Rightarrow> byte list" where
  "fast_poll_banner p = (if features p AND IORING_FEAT_FAST_POLL \<noteq> 0
     then map of_char ''<<<<<fast poll>>>>>'' @ [10] else [])"

definition app_setup_uring :: "cat_os \<Rightarrow> cat \<Rightarrow> i32 \<times> cat" where
  "app_setup_uring os s =
     (let (fd, p) = io_uring_setup os QUEUE_DEPTH; s = s\<lparr>sub := (sub s)\<lparr>ring_fd := fd\<rparr>\<rparr>
      in if fd <s 0 then (1, complain (Perror ''io_uring_setup'') s)
      else
        let s = s\<lparr>stdout := stdout s @ fast_poll_banner p\<rparr>;
            (ssz, csz) = ring_sizes p
        in case os_mmap os (scast ssz) IORING_OFF_SQ_RING of
             None \<Rightarrow> (1, complain (Perror ''mmap'') s)
           | Some sq_ptr \<Rightarrow>
               (case (if single_mmap p then Some sq_ptr
                      else os_mmap os (scast csz) IORING_OFF_CQ_RING) of
                  None \<Rightarrow> (1, complain (Perror ''mmap'') s)
                | Some cq_ptr \<Rightarrow>
                    let s = s\<lparr>sub := (sub s)\<lparr>sq_ring := map_sq_ring sq_ptr p\<rparr>\<rparr>
                    in case os_mmap os (ucast (sq_entries p) * 64) IORING_OFF_SQES of
                         None \<Rightarrow> (1, complain (Perror ''mmap'') s)
                       | Some sqes \<Rightarrow>
                           (0, s\<lparr>sub := (sub s)\<lparr>sqes_at := sqes, cq_ring := map_cq_ring cq_ptr p\<rparr>\<rparr>)))"

section \<open>Submitting a file\<close>

definition bytes_to_read :: "i64 \<Rightarrow> i64" where
  "bytes_to_read r = (if BLOCK_SZ <s r then BLOCK_SZ else r)"

text \<open>
  The loop that gives each block of the file its \<open>iovec\<close>: \<open>Inr None\<close> is the early return after a
  failed \<open>posix_memalign\<close>. Nobody reads an iovec before its two fields are stored.
\<close>

lemma unat_sint_i64: "0 \<le> sint r \<Longrightarrow> int (unat (r :: i64)) = sint r"
proof -
  assume "0 \<le> sint r"
  moreover have "sint r < 2 ^ 64" using sint_range_size [of r] by (simp add: word_size)
  ultimately have "uint r = sint r" by (simp add: uint_sint take_bit_int_eq_self)
  then show ?thesis by (simp only: uint_nat)
qed

lemma bytes_to_read_unat:
  assumes "0 \<le> sint r"
  shows "unat (bytes_to_read r) = min 1024 (unat r)"
    and "unat (r - bytes_to_read r) = unat r - 1024"
proof -
  have less: "BLOCK_SZ <s r \<longleftrightarrow> 1024 < unat r"
  proof -
    have "BLOCK_SZ <s r \<longleftrightarrow> 1024 < sint r" by (simp add: word_sless_alt BLOCK_SZ_def)
    with unat_sint_i64 [OF assms] show ?thesis by linarith
  qed
  show u: "unat (bytes_to_read r) = min 1024 (unat r)"
    by (simp add: bytes_to_read_def less) (simp add: BLOCK_SZ_def)
  then have "bytes_to_read r \<le> r" by (simp add: word_le_nat_alt)
  with u show "unat (r - bytes_to_read r) = unat r - 1024" by (simp add: unat_sub)
qed

lemma bytes_to_read_less:
  assumes "r \<noteq> 0"
  shows "unat (r - bytes_to_read r) < unat r"
proof (cases "0 \<le> sint r")
  case True
  with assms show ?thesis by (simp add: bytes_to_read_unat unat_gt_0)
next
  case False
  then have "bytes_to_read r = r" by (simp add: bytes_to_read_def word_sless_alt BLOCK_SZ_def)
  with assms show ?thesis by (simp add: unat_gt_0)
qed

function fill_iovecs ::
  "cat_os \<Rightarrow> u32 \<Rightarrow> i64 \<Rightarrow> file_info \<Rightarrow> cat_mem \<Rightarrow> fault + (file_info option \<times> cat_mem)" where
  "fill_iovecs os current_block bytes_remaining fi m =
     (if bytes_remaining = 0 then Inr (Some fi, m)
      else if length (iovecs fi) \<le> unat current_block then Inl Out_of_bounds
      else case os_memalign os m of
          None \<Rightarrow> Inr (None, m)
        | Some buf \<Rightarrow>
            fill_iovecs os (current_block + 1) (bytes_remaining - bytes_to_read bytes_remaining)
              (fi\<lparr>iovecs := (iovecs fi)[unat current_block :=
                 Some \<lparr>iov_base = buf, iov_len = bytes_to_read bytes_remaining\<rparr>]\<rparr>)
              (m\<lparr>bufs := (bufs m)(buf \<mapsto> map (os_junk os buf) [0..<1024])\<rparr>))"
  by pat_completeness auto
termination
  by (relation "measure (\<lambda>(os, c, r, fi, m). unat r)") (auto simp: bytes_to_read_less)

definition put_sqe :: "submitter \<Rightarrow> i32 \<Rightarrow> u64 \<Rightarrow> i32 \<Rightarrow> cat_mem \<Rightarrow> cat_mem" where
  "put_sqe s file_fd fi blocks m =
     (let sring = sq_ring s; tail = words m (sq_tail sring); next_tail = tail + 1;
          index = tail AND words m (sq_ring_mask sring);
          sqe = \<lparr>sqe_opcode = IORING_OP_READV, sqe_flags = 0, sqe_fd = file_fd, sqe_off = 0,
                 sqe_addr = fi + 8, sqe_len = blocks, sqe_user_data = fi\<rparr>;
          m = m\<lparr>sq_mem := (sq_mem m)(sqes_at s + 64 * ucast index := sqe),
                words := (words m)(sq_array sring + 4 * ucast index := index)\<rparr>
      in if words m (sq_tail sring) \<noteq> next_tail
         then m\<lparr>words := (words m)(sq_tail sring := next_tail)\<rparr> else m)"

definition submit_to_sq :: "cat_os \<Rightarrow> string \<Rightarrow> cat \<Rightarrow> fault + (i32 \<times> cat)" where
  "submit_to_sq os file_path s =
     (let file_fd = os_open os file_path
      in if file_fd <s 0 then Inr (1, complain (Perror ''open'') s)
      else
        let (sz, s) = get_file_size os file_fd (s\<lparr>opened := opened s @ [file_fd]\<rparr>);
            blocks = blocks_of sz
        in if sz <s 0 then Inr (1, s)
        else case os_malloc os (mem s) (info_size blocks) of
          None \<Rightarrow> Inr (1, complain (Message ''Unable to allocate memory'') s)
        | Some fi \<Rightarrow>
            bindE (fill_iovecs os 0 sz
                \<lparr>file_sz = sz, iovecs = replicate (info_slots (info_size blocks)) None\<rparr> (mem s)) (\<lambda>(r, m).
              case r of
                None \<Rightarrow> Inr (1, complain (Perror ''posix_memalign'') (s\<lparr>mem := m\<rparr>))
              | Some info \<Rightarrow>
                  let m = put_sqe (sub s) file_fd fi blocks (m\<lparr>infos := (infos m)(fi \<mapsto> info)\<rparr>);
                      (ret, m) = io_uring_enter os (sub s) 1 1 IORING_ENTER_GETEVENTS m; s = s\<lparr>mem := m\<rparr>
                  in if ret <s 0 then Inr (1, complain (Perror ''io_uring_enter'') s)
                     else Inr (0, s)))"

section \<open>Reading completions\<close>

text \<open>\<open>while (len--)\<close>: the loop stops at zero only.\<close>

lemma unat_minus_one_less: "l \<noteq> 0 \<Longrightarrow> unat (l - 1) < unat (l :: u32)"
  by (simp add: unat_minus_one unat_gt_0)

function output_to_console :: "byte list \<Rightarrow> nat \<Rightarrow> i32 \<Rightarrow> byte list \<Rightarrow> fault + byte list" where
  "output_to_console b i l acc =
     (if l = 0 then Inr acc
      else if i < length b then output_to_console b (i + 1) (l - 1) (acc @ [b ! i])
      else Inl Out_of_bounds)"
  by pat_completeness auto
termination
  by (relation "measure (\<lambda>(b, i, l, acc). unat l)") (auto intro: unat_minus_one_less)

definition print_iovec :: "cat_mem \<Rightarrow> file_info \<Rightarrow> nat \<Rightarrow> byte list \<Rightarrow> fault + byte list" where
  "print_iovec m fi i acc =
     (if i < length (iovecs fi)
      then case iovecs fi ! i of
             None \<Rightarrow> Inl Uninit_read
           | Some v \<Rightarrow> (case bufs m (iov_base v) of
                 None \<Rightarrow> Inl Dangling
               | Some b \<Rightarrow> output_to_console b 0 (ucast (iov_len v)) acc)
      else Inl Out_of_bounds)"

definition read_cqe :: "cat_cqe \<Rightarrow> cat \<Rightarrow> fault + cat" where
  "read_cqe cqe s = (case infos (mem s) (cqe_user_data cqe) of
       None \<Rightarrow> Inl Dangling
     | Some fi \<Rightarrow>
         let s = (if cqe_res cqe <s 0 then complain (Strerror (cqe_res cqe)) s else s)
         in bindE (foldE (print_iovec (mem s) fi) [0..<nat (sint (blocks_of (file_sz fi)))] (stdout s))
              (\<lambda>out. Inr (s\<lparr>stdout := out\<rparr>)))"

lemma reap_less:
  assumes "head \<noteq> tail"
  shows "unat (tail - (head + 1)) < unat (tail - head :: u32)"
proof -
  have "tail - (head + 1) = tail - head - 1" by simp
  moreover have "tail - head \<noteq> 0" using assms by simp
  ultimately show ?thesis using unat_minus_one_less by metis
qed

definition cqe_at :: "cat \<Rightarrow> u32 \<Rightarrow> cat_cqe" where
  "cqe_at s head = (let cring = cq_ring (sub s) in
     cq_mem (mem s) (cq_cqes cring + 16 * ucast (head AND words (mem s) (cq_ring_mask cring))))"

function reap :: "u32 \<Rightarrow> u32 \<Rightarrow> cat \<Rightarrow> fault + (u32 \<times> cat)" where
  "reap head tail s =
     (if head = tail then Inr (head, s)
      else bindE (read_cqe (cqe_at s head) s) (reap (head + 1) tail))"
  by pat_completeness auto
termination
  by (relation "measure (\<lambda>(head, tail, s). unat (tail - head))") (auto intro: reap_less)

definition read_from_cq :: "cat \<Rightarrow> fault + cat" where
  "read_from_cq s =
     (let cring = cq_ring (sub s)
      in bindE (reap (words (mem s) (cq_head cring)) (words (mem s) (cq_tail cring)) s) (\<lambda>(head, s).
           Inr (s\<lparr>mem := (mem s)\<lparr>words := (words (mem s))(cq_head cring := head)\<rparr>\<rparr>)))"

section \<open>The program\<close>

fun cat_files :: "cat_os \<Rightarrow> string list \<Rightarrow> cat \<Rightarrow> fault + (i32 \<times> cat)" where
  "cat_files os [] s = Inr (0, s)"
| "cat_files os (path # paths) s =
     bindE (submit_to_sq os path s) (\<lambda>(r, s).
       if r \<noteq> 0 then Inr (1, complain (Message ''Error reading file'') s)
       else bindE (read_from_cq s) (cat_files os paths))"

definition submitter_zero :: submitter where
  "submitter_zero = \<lparr>ring_fd = 0,
     sq_ring = \<lparr>sq_head = 0, sq_tail = 0, sq_ring_mask = 0, sq_ring_entries = 0, sq_flags = 0,
       sq_array = 0\<rparr>,
     sqes_at = 0,
     cq_ring = \<lparr>cq_head = 0, cq_tail = 0, cq_ring_mask = 0, cq_ring_entries = 0, cq_cqes = 0\<rparr>\<rparr>"

definition cat_main :: "cat_os \<Rightarrow> string list \<Rightarrow> cat \<Rightarrow> fault + (i32 \<times> cat)" where
  "cat_main os argv s =
     (if length argv < 2 then Inr (1, complain (Message (''Usage: '' @ (case argv of [] \<Rightarrow> [] | a # _ \<Rightarrow> a) @ '' <filename>'')) s)
      else case os_malloc os (mem s) 104 of
        None \<Rightarrow> Inr (1, complain (Perror ''malloc'') s)
      | Some _ \<Rightarrow>
          let (r, s) = app_setup_uring os (s\<lparr>sub := submitter_zero\<rparr>)
          in if r \<noteq> 0 then Inr (1, complain (Message ''Unable to setup uring!'') s)
             else cat_files os (tl argv) s)"

end
