(* ===== verification/Uring_Cat_Correct.thy ===== *)
theory Uring_Cat_Correct
  imports Uring_Cat
begin

text \<open>
  What \<open>iouring_cat\<close> prints. \<open>chunks\<close> is the reference for the division of a file into
  blocks, \<open>kernel_reads\<close> states the documented behaviour of a vectored read (each buffer is
  filled in order, the completion carries the user data and the number of bytes), and the lemmas
  follow one file from its submission to its output: the iovecs cover the file, the kernel
  spreads the contents over them, and the completion is found and printed. Two properties say
  where that breaks down: most files of 4 GiB and more, and reads that fail.
\<close>

section \<open>The chunks of a file\<close>

fun chunks :: "nat \<Rightarrow> nat list" where
  "chunks n = (if n = 0 then [] else min 1024 n # chunks (n - 1024))"

declare chunks.simps [simp del]

lemma chunks_0 [simp]: "chunks 0 = []"
  by (simp add: chunks.simps)

lemma chunks_pos: "0 < n \<Longrightarrow> chunks n = min 1024 n # chunks (n - 1024)"
  by (subst chunks.simps) simp

lemma sum_chunks: "sum_list (chunks n) = n"
proof (induction n rule: chunks.induct)
  case (1 n)
  then show ?case by (cases "n = 0") (auto simp: chunks_pos)
qed

lemma round_up: "(n + 1023) div 1024 = n div 1024 + (if n mod 1024 = 0 then 0 else (1 :: nat))"
proof -
  have n: "n + 1023 = (n mod 1024 + 1023) + n div 1024 * 1024" by simp
  have "(n mod 1024 + 1023 + n div 1024 * 1024) div 1024 = n div 1024 + (n mod 1024 + 1023) div 1024"
    by (rule div_mult_self1) simp
  with n have "(n + 1023) div 1024 = n div 1024 + (n mod 1024 + 1023) div 1024" by metis
  moreover have "(n mod 1024 + 1023) div 1024 = (if n mod 1024 = 0 then 0 else 1)"
  proof (cases "n mod 1024 = 0")
    case False
    have "n mod 1024 < 1024" by simp
    with False show ?thesis by (simp add: div_nat_eqI)
  qed simp
  ultimately show ?thesis by simp
qed

lemma length_chunks: "length (chunks n) = (n + 1023) div 1024"
proof (induction n rule: chunks.induct)
  case (1 n)
  consider "n = 0" | "0 < n" "n \<le> 1024" | "1024 < n" by linarith
  then show ?case
  proof cases
    case 2
    then show ?thesis by (simp add: chunks_pos div_nat_eqI)
  next
    case 3
    then have "n + 1023 = (n - 1024 + 1023) + 1024" by simp
    then have "(n + 1023) div 1024 = Suc ((n - 1024 + 1023) div 1024)"
      by (metis add_Suc_right add_0_right div_add_self2 zero_neq_numeral Suc_eq_plus1)
    with 1 3 show ?thesis by (simp add: chunks_pos)
  qed simp
qed

lemma chunks_le: "k \<in> set (chunks n) \<Longrightarrow> 0 < k \<and> k \<le> 1024"
proof (induction n rule: chunks.induct)
  case (1 n)
  then show ?case by (cases "n = 0") (auto simp: chunks_pos)
qed

text \<open>The number of blocks is right for a size that fits an \<open>int\<close>.\<close>

lemma int_less_two_power: "int k < 2 ^ n \<longleftrightarrow> k < 2 ^ n"
  by (metis of_nat_less_iff of_nat_numeral of_nat_power)

lemma sint_small:
  assumes "unat (r :: i64) < 2 ^ 63"
  shows "sint r = int (unat r)"
proof -
  have u: "uint r = int (unat r)" by simp
  have "int (unat r) < 2 ^ 63" using assms unfolding int_less_two_power .
  moreover have "- (2 ^ 63) \<le> int (unat r)" by (rule order_trans [of _ 0]) simp_all
  ultimately have "signed_take_bit 63 (int (unat r)) = int (unat r)"
    by (simp only: signed_take_bit_int_eq_self)
  then show ?thesis unfolding sint_uint u by simp
qed

lemma sint_ucast_small:
  assumes "unat (r :: i64) < 2 ^ 31"
  shows "sint (ucast r :: i32) = int (unat r)"
proof -
  have "(ucast r :: i32) = of_nat (unat r)" by simp
  then show ?thesis using sint_of_nat_i32 [OF assms] by metis
qed

lemma sdiv_1024: "int n sdiv 1024 = int (n div 1024)"
  and smod_1024: "int n smod 1024 = int (n mod 1024)"
  by (simp_all add: signed_divide_int_def signed_modulo_int_def sgn_if zdiv_int zmod_int
      minus_div_mult_eq_mod)

lemma blocks_of_small:
  assumes "unat sz < 2 ^ 31"
  shows "sint (blocks_of sz) = int (length (chunks (unat sz)))"
proof -
  define n where "n = unat sz"
  have n: "sint sz = int n" "sint (ucast sz :: i32) = int n" "n < 2 ^ 31"
    using assms sint_small [of sz] sint_ucast_small [of sz] unfolding n_def by simp_all
  have b: "blocks_of sz = word_of_int (int (n div 1024 + (if n mod 1024 = 0 then 0 else 1)))"
    by (simp add: blocks_of_def n sdiv_1024 smod_1024 BLOCK_SZ_def Let_def)
  have "n div 1024 < 2 ^ 21" using n(3) by (intro less_mult_imp_div_less) simp
  then have "n div 1024 + (if n mod 1024 = 0 then 0 else 1) < 2 ^ 31" by auto
  then have "sint (blocks_of sz) = int (n div 1024 + (if n mod 1024 = 0 then 0 else 1))"
    unfolding b using sint_of_nat_i32 by (metis of_int_of_nat_eq)
  then show ?thesis unfolding length_chunks n_def [symmetric] round_up .
qed

section \<open>Each step of the program\<close>

lemma output_to_console_ok:
  "i + unat l \<le> length b \<Longrightarrow> output_to_console b i l acc = Inr (acc @ take (unat l) (drop i b))"
proof (induction b i l acc rule: output_to_console.induct)
  case (1 b i l acc)
  show ?case
  proof (cases "l = 0")
    case False
    then have u: "unat l = Suc (unat (l - 1))"
      using unat_gt_0 [of l] by (simp add: unat_minus_one)
    with 1 False have "output_to_console b (i + 1) (l - 1) (acc @ [b ! i]) =
        Inr (acc @ [b ! i] @ take (unat (l - 1)) (drop (i + 1) b))" by simp
    moreover have "drop i b = b ! i # drop (i + 1) b" using "1.prems" u by (simp add: Cons_nth_drop_Suc)
    ultimately show ?thesis using "1.prems" u False by (subst output_to_console.simps) simp
  qed (subst output_to_console.simps, simp)
qed

declare output_to_console.simps [simp del] fill_iovecs.simps [simp del] reap.simps [simp del]

text \<open>The buffers of the blocks, one more entry of the page cache each.\<close>

definition memalign_ok :: "cat_os \<Rightarrow> nat \<Rightarrow> bool" where
  "memalign_ok os room \<longleftrightarrow>
     (\<forall>m. card (dom (bufs m)) < room \<longrightarrow> (\<exists>b. os_memalign os m = Some b \<and> bufs m b = None))"

definition junk :: "cat_os \<Rightarrow> u64 \<Rightarrow> byte list" where
  "junk os b = map (os_junk os b) [0..<1024]"

definition fresh_bufs :: "cat_os \<Rightarrow> iovec list \<Rightarrow> cat_mem \<Rightarrow> cat_mem" where
  "fresh_bufs os vs m =
     m\<lparr>bufs := (\<lambda>a. if a \<in> iov_base ` set vs then Some (junk os a) else bufs m a)\<rparr>"

lemma dom_fresh: "bufs m b = None \<Longrightarrow> card (dom ((bufs m)(b \<mapsto> x))) = Suc (card (dom (bufs m)))"
  by (simp add: card_insert_if domIff)

lemma sint_rest:
  assumes "0 \<le> sint r"
  shows "0 \<le> sint (r - bytes_to_read r)"
proof -
  have "int (unat r) < 2 ^ 63"
    unfolding unat_sint_i64 [OF assms] using sint_range_size [of r] by (simp add: word_size)
  then have "unat r < 2 ^ 63" unfolding int_less_two_power .
  then show ?thesis
    using sint_small [of "r - bytes_to_read r"] bytes_to_read_unat(2) [OF assms] by simp
qed

lemma fill_iovecs_ok:
  assumes "memalign_ok os room" "card (dom (bufs m)) + length (chunks (unat r)) \<le> room"
    and "0 \<le> sint r" "unat c + length (chunks (unat r)) \<le> length (iovecs fi)"
    and "unat c + length (chunks (unat r)) < 2 ^ 32"
  shows "\<exists>vs. fill_iovecs os c r fi m = Inr (Some (fi\<lparr>iovecs :=
      take (unat c) (iovecs fi) @ map Some vs @ drop (unat c + length vs) (iovecs fi)\<rparr>),
      fresh_bufs os vs m) \<and>
    map (\<lambda>v. unat (iov_len v)) vs = chunks (unat r) \<and> distinct (map iov_base vs) \<and>
    (\<forall>v \<in> set vs. bufs m (iov_base v) = None)"
  using assms
proof (induction os c r fi m rule: fill_iovecs.induct)
  case (1 os c r fi m)
  show ?case
  proof (cases "r = 0")
    case True
    then show ?thesis
      by (intro exI [of _ "[]"]) (simp add: fill_iovecs.simps fresh_bufs_def)
  next
    case False
    let ?r = "r - bytes_to_read r"
    note rr = bytes_to_read_unat [OF "1.prems"(3)]
    have ch: "chunks (unat r) = min 1024 (unat r) # chunks (unat ?r)"
      using False rr by (simp add: chunks_pos unat_gt_0)
    have c: "unat c < length (iovecs fi)" "unat (c + 1) = Suc (unat c)"
      using "1.prems"(4,5) ch by (simp_all add: unat_word_ariths)
    have "card (dom (bufs m)) < room" using "1.prems"(2) ch by simp
    then obtain b where b: "os_memalign os m = Some b" "bufs m b = None"
      using "1.prems"(1) unfolding memalign_ok_def by blast
    let ?v = "\<lparr>iov_base = b, iov_len = bytes_to_read r\<rparr>"
    let ?fi = "fi\<lparr>iovecs := (iovecs fi)[unat c := Some ?v]\<rparr>"
    let ?m = "m\<lparr>bufs := (bufs m)(b \<mapsto> map (os_junk os b) [0..<1024])\<rparr>"
    have r0: "0 \<le> sint ?r" by (rule sint_rest [OF "1.prems"(3)])
    have "\<not> length (iovecs fi) \<le> unat c"
      "card (dom (bufs ?m)) + length (chunks (unat ?r)) \<le> room"
      "unat (c + 1) + length (chunks (unat ?r)) \<le> length (iovecs ?fi)"
      "unat (c + 1) + length (chunks (unat ?r)) < 2 ^ 32"
      using "1.prems"(2,4,5) ch c dom_fresh [OF b(2)] by simp_all
    note IH = "1.IH" [OF False this(1) b(1) "1.prems"(1) this(2) r0 this(3,4)]
    then obtain vs where vs: "fill_iovecs os (c + 1) ?r ?fi ?m = Inr (Some (?fi\<lparr>iovecs :=
        take (unat (c + 1)) (iovecs ?fi) @ map Some vs @ drop (unat (c + 1) + length vs) (iovecs ?fi)\<rparr>),
        fresh_bufs os vs ?m)"
      "map (\<lambda>v. unat (iov_len v)) vs = chunks (unat ?r)" "distinct (map iov_base vs)"
      "\<forall>v \<in> set vs. bufs ?m (iov_base v) = None"
      by blast
    have nb: "b \<notin> iov_base ` set vs" using vs(4) by auto
    show ?thesis
    proof (intro exI [of _ "?v # vs"] conjI)
      show "fill_iovecs os c r fi m = Inr (Some (fi\<lparr>iovecs := take (unat c) (iovecs fi) @
          map Some (?v # vs) @ drop (unat c + length (?v # vs)) (iovecs fi)\<rparr>), fresh_bufs os (?v # vs) m)"
        using False b c vs(1) nb
        by (subst fill_iovecs.simps)
          (auto simp: fresh_bufs_def junk_def fun_eq_iff take_Suc_conv_app_nth drop_update_cancel)
    qed (use vs nb ch rr b in \<open>auto split: if_splits\<close>)
  qed
qed


text \<open>What printing the blocks of a file writes: of each buffer, as much as its iovec says.\<close>

definition printed_blocks :: "(u64 \<rightharpoonup> byte list) \<Rightarrow> iovec list \<Rightarrow> byte list" where
  "printed_blocks bm vs = concat (map (\<lambda>v. take (unat (iov_len v)) (the (bm (iov_base v)))) vs)"

definition blocks_mapped :: "(u64 \<rightharpoonup> byte list) \<Rightarrow> iovec list \<Rightarrow> bool" where
  "blocks_mapped bm vs \<longleftrightarrow> (\<forall>v \<in> set vs. \<exists>b. bm (iov_base v) = Some b \<and>
     unat (iov_len v) \<le> length b \<and> length b \<le> 1024)"

lemma unat_ucast_small: "unat (w :: u64) < 2 ^ 32 \<Longrightarrow> unat (ucast w :: u32) = unat w"
  by (simp add: unsigned_ucast_eq take_bit_nat_eq_self)

lemma print_iovecs_ok:
  assumes "iovecs fi = map Some vs" "blocks_mapped (bufs m) vs" "k \<le> length vs"
  shows "foldE (print_iovec m fi) [0..<k] acc = Inr (acc @ printed_blocks (bufs m) (take k vs))"
  using assms(3)
proof (induction k)
  case 0
  then show ?case by (simp add: printed_blocks_def)
next
  case (Suc k)
  then have k: "k < length vs" by simp
  then obtain b where b: "bufs m (iov_base (vs ! k)) = Some b" "unat (iov_len (vs ! k)) \<le> length b"
    "length b \<le> 1024"
    using assms(2) nth_mem [OF k] unfolding blocks_mapped_def by blast
  then have "unat (ucast (iov_len (vs ! k)) :: u32) = unat (iov_len (vs ! k))"
    by (intro unat_ucast_small) simp
  with b have "output_to_console b 0 (ucast (iov_len (vs ! k))) out =
      Inr (out @ take (unat (iov_len (vs ! k))) b)" for out
    using output_to_console_ok [of 0 "ucast (iov_len (vs ! k))" b out] by simp
  with Suc k b show ?case
    by (simp add: foldE_append print_iovec_def assms(1) printed_blocks_def take_Suc_conv_app_nth)
qed

section \<open>The kernel\<close>

text \<open>The entry the kernel takes next from the submission queue, and the post of its completion.\<close>

definition submitted :: "submitter \<Rightarrow> cat_mem \<Rightarrow> cat_sqe" where
  "submitted s m = (let sring = sq_ring s in
     sq_mem m (sqes_at s + 64 * ucast (words m
       (sq_array sring + 4 * ucast (words m (sq_head sring) AND words m (sq_ring_mask sring))))))"

definition posts :: "submitter \<Rightarrow> i32 \<Rightarrow> (u64 \<rightharpoonup> byte list) \<Rightarrow> cat_mem \<Rightarrow> cat_mem" where
  "posts s res bm m = (let sring = sq_ring s; cring = cq_ring s; tail = words m (cq_tail cring) in
     m\<lparr>words := (words m)(sq_head sring := words m (sq_head sring) + 1, cq_tail cring := tail + 1),
       cq_mem := (cq_mem m)(cq_cqes cring + 16 * ucast (tail AND words m (cq_ring_mask cring)) :=
         \<lparr>cqe_user_data = sqe_user_data (submitted s m), cqe_res = res\<rparr>),
       bufs := bm\<rparr>)"

text \<open>A vectored read spreads the file over the buffers, in order.\<close>

fun scatter :: "byte list \<Rightarrow> iovec list \<Rightarrow> (u64 \<rightharpoonup> byte list) \<Rightarrow> (u64 \<rightharpoonup> byte list)" where
  "scatter bs [] bm = bm"
| "scatter bs (v # vs) bm = scatter (drop (unat (iov_len v)) bs) vs
     (case bm (iov_base v) of
        None \<Rightarrow> bm
      | Some b \<Rightarrow> let got = take (unat (iov_len v)) bs
                  in bm(iov_base v \<mapsto> got @ drop (length got) b))"

text \<open>
  A submission of one vectored read of at most 1024 iovecs, which is what the kernel accepts
  (IOV_MAX): \<open>readv_of\<close> gives its buffers. \<open>kernel_reads os file\<close> says that the kernel
  completes such a submission with the number of bytes read from the file behind the descriptor;
  \<open>kernel_fails os r\<close> that it completes every submission with the error \<open>r\<close> and leaves the
  buffers alone.
\<close>

definition readv_of :: "submitter \<Rightarrow> cat_mem \<Rightarrow> iovec list \<Rightarrow> bool" where
  "readv_of s m vs \<longleftrightarrow> (let e = submitted s m in
     words m (sq_tail (sq_ring s)) = words m (sq_head (sq_ring s)) + 1 \<and>
     sqe_opcode e = IORING_OP_READV \<and> sqe_off e = 0 \<and> unat (sqe_len e) = length vs \<and>
     map_option iovecs (infos m (sqe_addr e - 8)) = Some (map Some vs))"

definition kernel_reads :: "cat_os \<Rightarrow> (i32 \<Rightarrow> byte list) \<Rightarrow> bool" where
  "kernel_reads os file \<longleftrightarrow> (\<forall>s m vs. readv_of s m vs \<and> length vs \<le> 1024 \<longrightarrow>
     sys_enter os s 1 1 IORING_ENTER_GETEVENTS m =
       (1, posts s (of_nat (min (length (file (sqe_fd (submitted s m))))
               (sum_list (map (\<lambda>v. unat (iov_len v)) vs))))
             (scatter (file (sqe_fd (submitted s m))) vs (bufs m)) m))"

definition kernel_fails :: "cat_os \<Rightarrow> i32 \<Rightarrow> bool" where
  "kernel_fails os r \<longleftrightarrow> (\<forall>s m. sys_enter os s 1 1 IORING_ENTER_GETEVENTS m = (1, posts s r (bufs m) m))"

lemma scatter_other: "a \<notin> iov_base ` set vs \<Longrightarrow> scatter bs vs bm a = bm a"
  by (induction bs vs bm rule: scatter.induct) (auto simp: Let_def split: option.splits)

lemma scatter_blocks:
  assumes "distinct (map iov_base vs)" "blocks_mapped bm vs"
    and "length bs = sum_list (map (\<lambda>v. unat (iov_len v)) vs)"
  shows "blocks_mapped (scatter bs vs bm) vs \<and> printed_blocks (scatter bs vs bm) vs = bs"
  using assms
proof (induction bs vs bm rule: scatter.induct)
  case (1 bs bm)
  then show ?case by (simp add: blocks_mapped_def printed_blocks_def)
next
  case (2 bs v vs bm)
  obtain b where b: "bm (iov_base v) = Some b" "unat (iov_len v) \<le> length b" "length b \<le> 1024"
    using "2.prems"(2) by (auto simp: blocks_mapped_def)
  let ?got = "take (unat (iov_len v)) bs"
  let ?bm = "bm(iov_base v \<mapsto> ?got @ drop (length ?got) b)"
  have got: "length ?got = unat (iov_len v)" using "2.prems"(3) by simp
  have ne: "iov_base w \<noteq> iov_base v" if "w \<in> set vs" for w using "2.prems"(1) imageI [OF that, of iov_base] by auto
  have s: "scatter bs (v # vs) bm = scatter (drop (unat (iov_len v)) bs) vs ?bm"
    using b(1) by (simp add: Let_def)
  have m: "blocks_mapped ?bm vs" using "2.prems"(2) ne by (auto simp: blocks_mapped_def)
  have bm: "(case bm (iov_base v) of None \<Rightarrow> bm
      | Some b \<Rightarrow> let got = take (unat (iov_len v)) bs in bm(iov_base v \<mapsto> got @ drop (length got) b)) = ?bm"
    using b(1) by (simp add: Let_def)
  have IH: "blocks_mapped (scatter (drop (unat (iov_len v)) bs) vs ?bm) vs \<and>
      printed_blocks (scatter (drop (unat (iov_len v)) bs) vs ?bm) vs = drop (unat (iov_len v)) bs"
    by (rule "2.IH" [unfolded bm, OF _ m]) (use "2.prems"(1,3) in simp_all)
  have v: "scatter (drop (unat (iov_len v)) bs) vs ?bm (iov_base v) = Some (?got @ drop (length ?got) b)"
    using "2.prems"(1) by (subst scatter_other) auto
  from IH v got b(2,3) show ?case
    unfolding s by (auto simp: blocks_mapped_def printed_blocks_def)
qed

section \<open>One file\<close>

text \<open>The layout \<open>app_setup_uring\<close> finds, with every entry of both queues consumed.\<close>

definition ring_idle :: "submitter \<Rightarrow> cat_mem \<Rightarrow> bool" where
  "ring_idle s m \<longleftrightarrow> (let sring = sq_ring s; cring = cq_ring s in
     distinct [sq_head sring, sq_tail sring, sq_ring_mask sring, sq_array sring, cq_head cring,
       cq_tail cring, cq_ring_mask cring] \<and>
     words m (sq_ring_mask sring) = 0 \<and>
     words m (sq_head sring) = words m (sq_tail sring) \<and>
     words m (cq_head cring) = words m (cq_tail cring))"

text \<open>What a submission leaves: the queues with one entry each.\<close>

lemma put_sqe_submitted:
  assumes "ring_idle s m"
  shows "submitted s (put_sqe s fd fi n m) = \<lparr>sqe_opcode = IORING_OP_READV, sqe_flags = 0,
      sqe_fd = fd, sqe_off = 0, sqe_addr = fi + 8, sqe_len = n, sqe_user_data = fi\<rparr>"
    and "words (put_sqe s fd fi n m) (sq_tail (sq_ring s)) =
      words (put_sqe s fd fi n m) (sq_head (sq_ring s)) + 1"
    and "infos (put_sqe s fd fi n m) = infos m" "bufs (put_sqe s fd fi n m) = bufs m"
  using assms by (auto simp: put_sqe_def submitted_def ring_idle_def Let_def)

lemma put_sqe_words:
  assumes "ring_idle s m"
  shows "words (put_sqe s fd fi n m) = (words m)(sq_array (sq_ring s) := 0,
    sq_tail (sq_ring s) := words m (sq_tail (sq_ring s)) + 1)"
  using assms by (auto simp: put_sqe_def ring_idle_def Let_def)

lemma posts_ring:
  assumes idle: "ring_idle s m" and m1: "m1 = posts s res bm (put_sqe s fd fi n m)"
  shows "words m1 (cq_tail (cq_ring s)) = words m1 (cq_head (cq_ring s)) + 1"
    and "cq_mem m1 (cq_cqes (cq_ring s) + 16 * ucast (words m1 (cq_head (cq_ring s)) AND
      words m1 (cq_ring_mask (cq_ring s)))) = \<lparr>cqe_user_data = fi, cqe_res = res\<rparr>"
    and "infos m1 = infos m" "bufs m1 = bm"
    and "ring_idle s (m1\<lparr>words := (words m1)(cq_head (cq_ring s) := words m1 (cq_tail (cq_ring s)))\<rparr>)"
proof -
  let ?sq = "sq_ring s" and ?cq = "cq_ring s"
  have d: "distinct [sq_head ?sq, sq_tail ?sq, sq_ring_mask ?sq, sq_array ?sq, cq_head ?cq,
       cq_tail ?cq, cq_ring_mask ?cq]"
    and i: "words m (sq_ring_mask ?sq) = 0" "words m (sq_head ?sq) = words m (sq_tail ?sq)"
      "words m (cq_head ?cq) = words m (cq_tail ?cq)"
    using idle by (simp_all add: ring_idle_def Let_def)
  note d = d iffD2 [OF distinct_rev d]
  have w: "words m1 = (words m)(sq_array ?sq := 0, sq_tail ?sq := words m (sq_tail ?sq) + 1,
      sq_head ?sq := words m (sq_head ?sq) + 1, cq_tail ?cq := words m (cq_tail ?cq) + 1)"
    unfolding m1 using d
    by (simp add: posts_def Let_def put_sqe_words [OF idle])
  show "words m1 (cq_tail ?cq) = words m1 (cq_head ?cq) + 1"
    unfolding w using d i(3) by simp
  show "cq_mem m1 (cq_cqes ?cq + 16 * ucast (words m1 (cq_head ?cq) AND
      words m1 (cq_ring_mask ?cq))) = \<lparr>cqe_user_data = fi, cqe_res = res\<rparr>"
    unfolding w unfolding m1 using d i(3)
    by (simp add: posts_def Let_def put_sqe_words [OF idle] put_sqe_submitted(1) [OF idle])
  show "infos m1 = infos m" "bufs m1 = bm"
    unfolding m1 by (simp_all add: posts_def Let_def put_sqe_submitted(3) [OF idle])
  show "ring_idle s (m1\<lparr>words := (words m1)(cq_head ?cq := words m1 (cq_tail ?cq))\<rparr>)"
    unfolding ring_idle_def Let_def w using d i by simp
qed

lemma read_cqe_mem: "read_cqe e c = Inr c' \<Longrightarrow> mem c' = mem c \<and> sub c' = sub c"
  by (auto simp: read_cqe_def Let_def bindE_eq_Inr complain_def split: option.splits if_splits)

lemma read_one:
  assumes idle: "ring_idle s m" and m1: "m1 = posts s res bm (put_sqe s fd fi n m)"
    and c: "sub c = s" "mem c = m1"
    and ok: "read_cqe \<lparr>cqe_user_data = fi, cqe_res = res\<rparr> c = Inr c'"
  shows "read_from_cq c = Inr (c'\<lparr>mem := m1\<lparr>words := (words m1)
      (cq_head (cq_ring s) := words m1 (cq_tail (cq_ring s)))\<rparr>\<rparr>)"
proof -
  note r = posts_ring [OF idle m1]
  have "reap (words m1 (cq_head (cq_ring s))) (words m1 (cq_tail (cq_ring s))) c =
      Inr (words m1 (cq_tail (cq_ring s)), c')"
    using r(2) ok c unfolding r(1) by (subst reap.simps) (simp add: reap.simps cqe_at_def Let_def)
  then show ?thesis using c read_cqe_mem [OF ok] by (simp add: read_from_cq_def Let_def)
qed

text \<open>Submission up to the call of the kernel: every block of the file has its own fresh buffer.\<close>

definition cat_room :: "cat_os \<Rightarrow> nat \<Rightarrow> bool" where
  "cat_room os room \<longleftrightarrow> memalign_ok os room \<and> (\<forall>m n. unat n < 2 ^ 40 \<longrightarrow> os_malloc os m n \<noteq> None)"

lemma info_room:
  assumes "unat sz < 2 ^ 31"
  shows "info_slots (info_size (blocks_of sz)) = length (chunks (unat sz))"
    "unat (info_size (blocks_of sz)) < 2 ^ 40" "unat (blocks_of sz) = length (chunks (unat sz))"
proof -
  let ?k = "length (chunks (unat sz))"
  have "(unat sz + 1023) div 1024 < 2 ^ 21 + 1"
    by (rule less_mult_imp_div_less) (use assms in simp)
  then have k: "?k \<le> 2 ^ 21" unfolding length_chunks by simp
  have b: "sint (blocks_of sz) = int ?k" by (rule blocks_of_small [OF assms])
  have "blocks_of sz = word_of_int (sint (blocks_of sz))" by simp
  then have bw: "blocks_of sz = of_nat ?k" unfolding b by simp
  show "unat (blocks_of sz) = ?k" unfolding bw using k by (simp add: unat_of_nat)
  have "(scast (blocks_of sz) :: u64) = word_of_int (sint (blocks_of sz))" by simp
  then have "(scast (blocks_of sz) :: u64) = of_nat ?k" unfolding b by simp
  then have "info_size (blocks_of sz) = of_nat (8 + 16 * ?k)" unfolding info_size_def by simp
  moreover have "8 + 16 * ?k < 2 ^ 40" using k by simp
  ultimately have "unat (info_size (blocks_of sz)) = 8 + 16 * ?k"
    by (simp add: unat_of_nat_u64 del: of_nat_add of_nat_mult)
  then show "info_slots (info_size (blocks_of sz)) = ?k" "unat (info_size (blocks_of sz)) < 2 ^ 40"
    using k by (simp_all add: info_slots_def)
qed


lemma ring_idle_words: "words m' = words m \<Longrightarrow> ring_idle s m' = ring_idle s m"
  by (simp add: ring_idle_def)

text \<open>A regular file that can be opened, and its size.\<close>

definition regular :: "cat_os \<Rightarrow> string \<Rightarrow> i64 \<Rightarrow> bool" where
  "regular os path sz \<longleftrightarrow> \<not> os_open os path <s 0 \<and>
     (\<exists>mode. os_fstat os (os_open os path) = Some (mode, sz) \<and> S_ISREG mode)"

lemma regular_size: "regular os path sz \<Longrightarrow> get_file_size os (os_open os path) c = (sz, c)"
  by (auto simp: regular_def get_file_size_def S_ISREG_def S_ISBLK_def)

definition cat_mem_at :: "cat_os \<Rightarrow> u64 \<Rightarrow> i64 \<Rightarrow> iovec list \<Rightarrow> cat_mem \<Rightarrow> cat_mem" where
  "cat_mem_at os fi sz vs m =
     (fresh_bufs os vs m)\<lparr>infos := (infos m)(fi \<mapsto> \<lparr>file_sz = sz, iovecs = map Some vs\<rparr>)\<rparr>"

lemma cat_mem_at_sel [simp]:
  "words (cat_mem_at os fi sz vs m) = words m"
  "infos (cat_mem_at os fi sz vs m) fi = Some \<lparr>file_sz = sz, iovecs = map Some vs\<rparr>"
  "bufs (cat_mem_at os fi sz vs m) = bufs (fresh_bufs os vs m)"
  by (simp_all add: cat_mem_at_def fresh_bufs_def)

definition file_iovecs :: "i64 \<Rightarrow> iovec list \<Rightarrow> bool" where
  "file_iovecs sz vs \<longleftrightarrow> map (\<lambda>v. unat (iov_len v)) vs = chunks (unat sz) \<and>
     distinct (map iov_base vs)"

lemma submit_ok:
  assumes idle: "ring_idle (sub c) (mem c)" and room: "cat_room os room"
    and fits: "card (dom (bufs (mem c))) + length (chunks (unat sz)) \<le> room"
    and reg: "regular os path sz" and small: "unat sz < 2 ^ 31"
  shows "\<exists>fi vs. file_iovecs sz vs \<and>
    submit_to_sq os path c =
      (let fd = os_open os path;
           (ret, m) = io_uring_enter os (sub c) 1 1 IORING_ENTER_GETEVENTS
             (put_sqe (sub c) fd fi (blocks_of sz) (cat_mem_at os fi sz vs (mem c)));
           c = c\<lparr>opened := opened c @ [fd], mem := m\<rparr>
       in if ret <s 0 then Inr (1, complain (Perror ''io_uring_enter'') c) else Inr (0, c))"
proof -
  note i = info_room [OF small]
  obtain fi where fi: "os_malloc os (mem c) (info_size (blocks_of sz)) = Some fi"
    using room i(2) unfolding cat_room_def by blast
  let ?fi = "\<lparr>file_sz = sz, iovecs = replicate (info_slots (info_size (blocks_of sz))) None\<rparr>"
  have s: "sint sz = int (unat sz)" by (rule sint_small) (use small in simp)
  have "length (chunks (unat sz)) < 2 ^ 32"
    using less_mult_imp_div_less [of "unat sz + 1023" "2 ^ 32" 1024] small
    unfolding length_chunks by simp
  then obtain vs where vs: "fill_iovecs os 0 sz ?fi (mem c) =
      Inr (Some (?fi\<lparr>iovecs := take (unat (0 :: u32)) (iovecs ?fi) @ map Some vs @
        drop (unat (0 :: u32) + length vs) (iovecs ?fi)\<rparr>), fresh_bufs os vs (mem c))"
    "map (\<lambda>v. unat (iov_len v)) vs = chunks (unat sz)" "distinct (map iov_base vs)"
    using fill_iovecs_ok [of os room "mem c" sz 0 ?fi] room fits s i(1)
    by (auto simp: cat_room_def)
  have "length vs = length (chunks (unat sz))" using arg_cong [OF vs(2), of length] by simp
  then have fill: "fill_iovecs os 0 sz ?fi (mem c) =
      Inr (Some \<lparr>file_sz = sz, iovecs = map Some vs\<rparr>, fresh_bufs os vs (mem c))"
    using vs(1) i(1) by simp
  have "\<not> sz <s 0" using s by (simp add: word_sless_alt)
  with fill fi reg regular_size [OF reg] show ?thesis
    using vs(2,3) by (intro exI [of _ fi] exI [of _ vs])
      (auto simp: submit_to_sq_def Let_def regular_def file_iovecs_def cat_mem_at_def fresh_bufs_def
        split: prod.splits)
qed

lemma file_iovecs_mapped:
  assumes "file_iovecs sz vs"
  shows "blocks_mapped (bufs (fresh_bufs os vs m)) vs" "length vs = length (chunks (unat sz))"
    "sum_list (map (\<lambda>v. unat (iov_len v)) vs) = unat sz"
proof -
  have m: "map (\<lambda>v. unat (iov_len v)) vs = chunks (unat sz)"
    using assms by (simp add: file_iovecs_def)
  show "length vs = length (chunks (unat sz))" using arg_cong [OF m, of length] by simp
  show "sum_list (map (\<lambda>v. unat (iov_len v)) vs) = unat sz" unfolding m by (rule sum_chunks)
  have "unat (iov_len v) \<le> 1024" if "v \<in> set vs" for v
  proof -
    have "unat (iov_len v) \<in> set (chunks (unat sz))" unfolding m [symmetric] using that by simp
    then show ?thesis using chunks_le by blast
  qed
  then show "blocks_mapped (bufs (fresh_bufs os vs m)) vs"
    by (auto simp: blocks_mapped_def fresh_bufs_def junk_def)
qed

text \<open>A file is submitted, completed with \<open>res\<close> and the buffers \<open>bm\<close>, and printed.\<close>

lemma file_done:
  assumes idle: "ring_idle (sub c) (mem c)" and small: "unat sz < 2 ^ 31"
    and vs: "file_iovecs sz vs" and bm: "blocks_mapped bm vs"
    and m1: "m1 = posts (sub c) res bm
      (put_sqe (sub c) fd fi (blocks_of sz) (cat_mem_at os fi sz vs (mem c)))"
    and c1: "c1 = c\<lparr>opened := ops, mem := m1\<rparr>"
  shows "\<exists>c2. read_from_cq c1 = Inr c2 \<and> stdout c2 = stdout c @ printed_blocks bm vs \<and>
    stderr c2 = stderr c @ (if res <s 0 then [Strerror res] else []) \<and>
    sub c2 = sub c \<and> ring_idle (sub c2) (mem c2) \<and> bufs (mem c2) = bm \<and> opened c2 = ops"
proof -
  have idle': "ring_idle (sub c) (cat_mem_at os fi sz vs (mem c))"
    using idle ring_idle_words [of "cat_mem_at os fi sz vs (mem c)" "mem c"] by simp
  note r = posts_ring [OF idle' m1]
  let ?c = "if res <s 0 then complain (Strerror res) c1 else c1"
  let ?c' = "?c\<lparr>stdout := stdout c @ printed_blocks bm vs\<rparr>"
  have "nat (sint (blocks_of sz)) = length vs"
    using blocks_of_small [OF small] file_iovecs_mapped(2) [OF vs] by simp
  then have "read_cqe \<lparr>cqe_user_data = fi, cqe_res = res\<rparr> c1 = Inr ?c'"
    using print_iovecs_ok [of "\<lparr>file_sz = sz, iovecs = map Some vs\<rparr>" vs m1 "length vs" "stdout c"]
      bm r(3,4) c1
    by (simp add: read_cqe_def Let_def complain_def)
  from read_one [OF idle' m1 _ _ this] c1 r(5) show ?thesis
    by (auto simp: complain_def r(4))
qed


lemma fill_overflow:
  assumes "memalign_ok os room" "card (dom (bufs m)) + length (iovecs fi) \<le> room + unat c"
    and "0 \<le> sint r" "unat c \<le> length (iovecs fi)"
    and "length (iovecs fi) < unat c + length (chunks (unat r))" "length (iovecs fi) < 2 ^ 32 - 1"
  shows "fill_iovecs os c r fi m = Inl Out_of_bounds"
  using assms
proof (induction os c r fi m rule: fill_iovecs.induct)
  case (1 os c r fi m)
  have r: "r \<noteq> 0" using "1.prems"(4,5) by auto
  show ?case
  proof (cases "length (iovecs fi) \<le> unat c")
    case True
    with r show ?thesis by (subst fill_iovecs.simps) simp
  next
    case False
    let ?r = "r - bytes_to_read r"
    note rr = bytes_to_read_unat [OF "1.prems"(3)]
    have ch: "chunks (unat r) = min 1024 (unat r) # chunks (unat ?r)"
      using r rr by (simp add: chunks_pos unat_gt_0)
    have c: "unat (c + 1) = Suc (unat c)" using "1.prems"(6) False by (simp add: unat_word_ariths)
    have "card (dom (bufs m)) < room" using "1.prems"(2) False by simp
    then obtain b where b: "os_memalign os m = Some b" "bufs m b = None"
      using "1.prems"(1) unfolding memalign_ok_def by blast
    let ?fi = "fi\<lparr>iovecs := (iovecs fi)[unat c := Some \<lparr>iov_base = b, iov_len = bytes_to_read r\<rparr>]\<rparr>"
    let ?m = "m\<lparr>bufs := (bufs m)(b \<mapsto> map (os_junk os b) [0..<1024])\<rparr>"
    have r0: "0 \<le> sint ?r" by (rule sint_rest [OF "1.prems"(3)])
    have "card (dom (bufs ?m)) + length (iovecs ?fi) \<le> room + unat (c + 1)"
      "unat (c + 1) \<le> length (iovecs ?fi)"
      "length (iovecs ?fi) < unat (c + 1) + length (chunks (unat ?r))"
      "length (iovecs ?fi) < 2 ^ 32 - 1"
      using "1.prems" ch c False dom_fresh [OF b(2)] by simp_all
    note IH = "1.IH" [OF r False b(1) "1.prems"(1) this(1) r0 this(2-4)]
    with r False b show ?thesis by (subst fill_iovecs.simps) simp
  qed
qed

section \<open>Many files\<close>

lemma dom_scatter: "dom (scatter bs vs bm) = dom bm"
  by (induction bs vs bm rule: scatter.induct) (auto simp: Let_def split: option.splits)

lemma card_fresh: "card (dom (bufs (fresh_bufs os vs m))) \<le> card (dom (bufs m)) + length vs"
proof -
  have "dom (bufs (fresh_bufs os vs m)) \<subseteq> dom (bufs m) \<union> iov_base ` set vs"
    by (auto simp: fresh_bufs_def split: if_splits)
  then have "card (dom (bufs (fresh_bufs os vs m))) \<le> card (dom (bufs m) \<union> iov_base ` set vs)"
    by (rule card_mono [rotated]) simp
  also have "\<dots> \<le> card (dom (bufs m)) + card (iov_base ` set vs)" by (rule card_Un_le)
  also have "card (iov_base ` set vs) \<le> length vs"
    by (metis card_image_le card_length finite_set order_trans)
  finally show ?thesis by simp
qed

text \<open>A file of at most 1 MiB, whose contents are what the kernel reads from its descriptor.\<close>

definition plain_file :: "cat_os \<Rightarrow> (i32 \<Rightarrow> byte list) \<Rightarrow> string \<Rightarrow> bool" where
  "plain_file os file path \<longleftrightarrow> length (file (os_open os path)) \<le> 2 ^ 20 \<and>
     regular os path (of_nat (length (file (os_open os path))))"

definition blocks_needed :: "cat_os \<Rightarrow> (i32 \<Rightarrow> byte list) \<Rightarrow> string \<Rightarrow> nat" where
  "blocks_needed os file path = length (chunks (length (file (os_open os path))))"

lemma one_file:
  assumes idle: "ring_idle (sub c) (mem c)" and room: "cat_room os room"
    and fits: "card (dom (bufs (mem c))) + blocks_needed os file path \<le> room"
    and k: "kernel_reads os file" and p: "plain_file os file path"
  shows "\<exists>c1 c2. submit_to_sq os path c = Inr (0, c1) \<and> read_from_cq c1 = Inr c2 \<and>
    stdout c2 = stdout c @ file (os_open os path) \<and> stderr c2 = stderr c \<and> sub c2 = sub c \<and>
    ring_idle (sub c2) (mem c2) \<and>
    card (dom (bufs (mem c2))) \<le> card (dom (bufs (mem c))) + blocks_needed os file path"
proof -
  define fd where "fd = os_open os path"
  define sz where "sz = (of_nat (length (file fd)) :: i64)"
  have len: "length (file fd) \<le> 2 ^ 20" and reg: "regular os path sz"
    using p by (simp_all add: plain_file_def fd_def sz_def)
  then have sz: "unat sz = length (file fd)" by (simp add: sz_def unat_of_nat_u64)
  have small: "unat sz < 2 ^ 31" using sz len by simp
  have bn: "blocks_needed os file path = length (chunks (unat sz))"
    by (simp add: blocks_needed_def sz fd_def)
  obtain fi vs where vs: "file_iovecs sz vs"
    and sub1: "submit_to_sq os path c =
      (let fd = os_open os path;
           (ret, m) = io_uring_enter os (sub c) 1 1 IORING_ENTER_GETEVENTS
             (put_sqe (sub c) fd fi (blocks_of sz) (cat_mem_at os fi sz vs (mem c)));
           c = c\<lparr>opened := opened c @ [fd], mem := m\<rparr>
       in if ret <s 0 then Inr (1, complain (Perror ''io_uring_enter'') c) else Inr (0, c))"
    using submit_ok [OF idle room _ reg small] fits bn by auto
  let ?start = "cat_mem_at os fi sz vs (mem c)"
  let ?m = "put_sqe (sub c) fd fi (blocks_of sz) ?start"
  have idle0: "ring_idle (sub c) ?start" using idle ring_idle_words [of ?start "mem c"] by simp
  note s = put_sqe_submitted [OF idle0, of fd fi "blocks_of sz"]
  note f = file_iovecs_mapped [OF vs]
  have "length vs \<le> 1024" using f(2) len sz by (simp add: length_chunks)
  moreover have "readv_of (sub c) ?m vs"
    using s info_room(3) [OF small] f(2) by (simp add: readv_of_def Let_def)
  ultimately have enter: "io_uring_enter os (sub c) 1 1 IORING_ENTER_GETEVENTS ?m =
      (1, posts (sub c) (of_nat (length (file fd))) (scatter (file fd) vs (bufs ?start)) ?m)"
    using k s(1,4) f(3) sz by (simp add: kernel_reads_def io_uring_enter_def)
  have sc: "blocks_mapped (scatter (file fd) vs (bufs ?start)) vs \<and>
      printed_blocks (scatter (file fd) vs (bufs ?start)) vs = file fd"
    using scatter_blocks [of vs "bufs ?start" "file fd"] vs f(1,3) sz by (simp add: file_iovecs_def)
  let ?posted = "posts (sub c) (of_nat (length (file fd))) (scatter (file fd) vs (bufs ?start)) ?m"
  let ?c1 = "c\<lparr>opened := opened c @ [fd], mem := ?posted\<rparr>"
  have "submit_to_sq os path c = Inr (0, ?c1)" using sub1 enter unfolding fd_def
    by (simp add: Let_def word_sless_alt)
  moreover have "\<not> (of_nat (length (file fd)) :: i32) <s 0"
    using sint_of_nat_i32 [of "length (file fd)"] len by (simp add: word_sless_alt)
  moreover have "card (dom (scatter (file fd) vs (bufs ?start))) \<le>
      card (dom (bufs (mem c))) + blocks_needed os file path"
    using card_fresh [of os vs "mem c"] f(2) by (simp add: dom_scatter bn)
  moreover note file_done [OF idle small vs conjunct1 [OF sc] refl refl,
    where fd = fd and fi = fi and os = os and ops = "opened c @ [fd]" and
      res = "of_nat (length (file fd))"]
  ultimately show ?thesis using sc unfolding fd_def by fastforce
qed

lemma all_files:
  assumes "ring_idle (sub c) (mem c)" "cat_room os room" "kernel_reads os file"
    and "card (dom (bufs (mem c))) + sum_list (map (blocks_needed os file) paths) \<le> room"
    and "\<forall>p \<in> set paths. plain_file os file p"
  shows "\<exists>c'. cat_files os paths c = Inr (0, c') \<and>
    stdout c' = stdout c @ concat (map (\<lambda>p. file (os_open os p)) paths) \<and> stderr c' = stderr c"
  using assms
proof (induction paths arbitrary: c)
  case (Cons p ps)
  then have "card (dom (bufs (mem c))) + blocks_needed os file p \<le> room" "plain_file os file p"
    by simp_all
  from one_file [OF Cons.prems(1,2) this(1) Cons.prems(3) this(2)]
  obtain c1 c2 where c: "submit_to_sq os p c = Inr (0, c1)" "read_from_cq c1 = Inr c2"
    "stdout c2 = stdout c @ file (os_open os p)" "stderr c2 = stderr c" "sub c2 = sub c"
    "ring_idle (sub c2) (mem c2)"
    "card (dom (bufs (mem c2))) \<le> card (dom (bufs (mem c))) + blocks_needed os file p"
    by blast
  with Cons.prems have "\<exists>c'. cat_files os ps c2 = Inr (0, c') \<and>
    stdout c' = stdout c2 @ concat (map (\<lambda>p. file (os_open os p)) ps) \<and> stderr c' = stderr c2"
    by (intro Cons.IH) auto
  with c show ?case by auto
qed simp


lemma setup_frame:
  assumes "app_setup_uring os c = (r, c')"
  shows "mem c' = mem c \<and> (r = 0 \<longrightarrow> stderr c' = stderr c \<and>
    stdout c' = stdout c @ fast_poll_banner (snd (io_uring_setup os QUEUE_DEPTH)))"
  using assms
  by (auto simp: app_setup_uring_def Let_def complain_def split: prod.splits option.splits if_splits)

section \<open>An environment\<close>

text \<open>Two files, a kernel with fast poll that reads them, and an allocator with room for 100 buffers.\<close>

definition sample_file :: "i32 \<Rightarrow> byte list" where
  "sample_file fd = (if fd = 3 then [104, 105] else if fd = 4 then replicate 1500 7 else [])"

definition sample_enter :: "submitter \<Rightarrow> u32 \<Rightarrow> u32 \<Rightarrow> u32 \<Rightarrow> cat_mem \<Rightarrow> i64 \<times> cat_mem" where
  "sample_enter s n k fl m =
     (let e = submitted s m;
          vs = (case infos m (sqe_addr e - 8) of None \<Rightarrow> [] | Some fi \<Rightarrow> map the (iovecs fi))
      in (1, posts s (of_nat (min (length (sample_file (sqe_fd e)))
             (sum_list (map (\<lambda>v. unat (iov_len v)) vs))))
           (scatter (sample_file (sqe_fd e)) vs (bufs m)) m))"

definition sample_cat_os :: cat_os where
  "sample_cat_os = \<lparr>
     sys_setup = \<lambda>n. (5, \<lparr>sq_entries = 1, cq_entries = 2, features = 33,
       sq_off = (0, 4, 8, 12, 16, 24), cq_off = (32, 36, 40, 44, 48)\<rparr>),
     os_mmap = \<lambda>len off. Some (0x10000 + off),
     os_open = \<lambda>path. if path = ''a'' then 3 else if path = ''b'' then 4 else - 1,
     os_fstat = \<lambda>fd. Some (0x8000, of_nat (length (sample_file fd))),
     os_blkgetsize = \<lambda>fd. None,
     os_malloc = \<lambda>m n. Some 4096,
     os_memalign = \<lambda>m. find (\<lambda>a. bufs m a = None) (map of_nat [0..<101]),
     os_junk = \<lambda>a i. 0,
     sys_enter = sample_enter\<rparr>"

definition sample_cat :: cat where
  "sample_cat = \<lparr>sub = submitter_zero,
     mem = \<lparr>words = \<lambda>_. 0, sq_mem = \<lambda>_. \<lparr>sqe_opcode = 0, sqe_flags = 0, sqe_fd = 0, sqe_off = 0,
         sqe_addr = 0, sqe_len = 0, sqe_user_data = 0\<rparr>,
       cq_mem = \<lambda>_. \<lparr>cqe_user_data = 0, cqe_res = 0\<rparr>, infos = Map.empty, bufs = Map.empty\<rparr>,
     stdout = [], stderr = [], opened = []\<rparr>"

lemma sample_room: "cat_room sample_cat_os 100"
proof -
  have "\<exists>b. find (\<lambda>a. bufs m a = None) (map of_nat [0..<101]) = Some (b :: u64) \<and> bufs m b = None"
    if "card (dom (bufs m)) < 100" for m :: cat_mem
  proof (cases "find (\<lambda>a. bufs m a = None) (map of_nat [0..<101] :: u64 list)")
    case None
    then have "of_nat ` {0..<101} \<subseteq> dom (bufs m)" by (auto simp: find_None_iff)
    then have "card ((of_nat :: nat \<Rightarrow> u64) ` {0..<101}) \<le> card (dom (bufs m))"
      by (rule card_mono [rotated]) simp
    moreover have "inj_on (of_nat :: nat \<Rightarrow> u64) {0..<101}"
      by (rule inj_on_inverseI [where g = unat]) (simp add: unat_of_nat_u64)
    ultimately show ?thesis using that by (simp add: card_image)
  next
    case (Some b)
    then show ?thesis by (auto simp: find_Some_iff)
  qed
  then show "cat_room sample_cat_os 100"
    by (auto simp: cat_room_def memalign_ok_def sample_cat_os_def)
qed

lemma sample_kernel: "kernel_reads sample_cat_os sample_file"
proof -
  have "(case infos m (sqe_addr (submitted s m) - 8) of None \<Rightarrow> [] | Some fi \<Rightarrow> map the (iovecs fi)) = vs"
    if "readv_of s m vs" for s m vs
    using that by (auto simp: readv_of_def Let_def)
  then show ?thesis
    unfolding kernel_reads_def sample_cat_os_def sample_enter_def Let_def by (auto simp only: cat_os.simps)
qed

lemma sample_setup:
  "\<exists>c. app_setup_uring sample_cat_os (sample_cat\<lparr>sub := submitter_zero\<rparr>) = (0, c) \<and>
     ring_idle (sub c) (mem c) \<and> mem c = mem sample_cat \<and> stderr c = []"
  by (simp add: app_setup_uring_def io_uring_setup_def sample_cat_os_def Let_def word_sless_alt single_mmap_def
      IORING_FEAT_SINGLE_MMAP_def ring_sizes_def map_sq_ring_def map_cq_ring_def sample_cat_def
      submitter_zero_def ring_idle_def IORING_FEAT_FAST_POLL_def)

lemma sample_plain: "p \<in> {''a'', ''b''} \<Longrightarrow> plain_file sample_cat_os sample_file p"
  by (auto simp: plain_file_def regular_def sample_cat_os_def sample_file_def word_sless_alt S_ISREG_def)

section \<open>Properties\<close>

text \<open>C8: iouring_cat prints its files. When the ring is set up with empty queues, every argument is a
  regular file of at most 1 MiB that opens, memory does not run out, and the kernel completes each
  vectored read with the contents of the file, the program returns 0, having written to the
  standard output exactly the concatenation of the files - preceded, on a kernel with
  \<open>IORING_FEAT_FAST_POLL\<close>, by the line the program prints about that - and nothing to the standard
  error.\<close>

theorem cat_prints_files:
  assumes "app_setup_uring os (c\<lparr>sub := submitter_zero\<rparr>) = (0, c0)" "ring_idle (sub c0) (mem c0)"
    and "cat_room os room" "kernel_reads os file"
    and "card (dom (bufs (mem c))) + sum_list (map (blocks_needed os file) paths) \<le> room"
    and "\<And>p. p \<in> set paths \<Longrightarrow> plain_file os file p" "paths \<noteq> []"
  shows "\<exists>c'. cat_main os (name # paths) c = Inr (0, c') \<and>
    stdout c' = stdout c @ fast_poll_banner (snd (io_uring_setup os QUEUE_DEPTH)) @
      concat (map (\<lambda>p. file (os_open os p)) paths) \<and> stderr c' = stderr c"
proof -
  have f: "mem c0 = mem c" "stdout c0 = stdout c @ fast_poll_banner (snd (io_uring_setup os QUEUE_DEPTH))"
    "stderr c0 = stderr c"
    using setup_frame [OF assms(1)] by simp_all
  obtain a where a: "os_malloc os (mem c) 104 = Some a"
    using assms(3) unfolding cat_room_def by fastforce
  have "\<exists>c'. cat_files os paths c0 = Inr (0, c') \<and>
    stdout c' = stdout c0 @ concat (map (\<lambda>p. file (os_open os p)) paths) \<and> stderr c' = stderr c0"
    by (rule all_files) (use assms f in auto)
  with a f assms(1,7) show ?thesis by (cases paths) (auto simp: cat_main_def)
qed

theorem cat_prints_files_witness:
  "\<exists>c'. cat_main sample_cat_os [''cat'', ''a'', ''b''] sample_cat = Inr (0, c') \<and>
     stdout c' = map of_char ''<<<<<fast poll>>>>>'' @ [10] @ [104, 105] @ replicate 1500 7"
proof -
  obtain c0 where c0: "app_setup_uring sample_cat_os (sample_cat\<lparr>sub := submitter_zero\<rparr>) = (0, c0)"
    "ring_idle (sub c0) (mem c0)" using sample_setup by blast
  have "card (dom (bufs (mem sample_cat))) +
      sum_list (map (blocks_needed sample_cat_os sample_file) [''a'', ''b'']) \<le> 100"
    by (simp add: blocks_needed_def length_chunks sample_cat_os_def sample_file_def sample_cat_def)
  then have "\<exists>c'. cat_main sample_cat_os (''cat'' # [''a'', ''b'']) sample_cat = Inr (0, c') \<and>
      stdout c' = stdout sample_cat @ fast_poll_banner (snd (io_uring_setup sample_cat_os QUEUE_DEPTH)) @
        concat (map (\<lambda>p. sample_file (os_open sample_cat_os p)) [''a'', ''b'']) \<and>
      stderr c' = stderr sample_cat"
    by (intro cat_prints_files [OF c0 sample_room sample_kernel] sample_plain) simp_all
  moreover have "sample_file (os_open sample_cat_os ''a'') = [104, 105]"
    "sample_file (os_open sample_cat_os ''b'') = replicate 1500 7" "stdout sample_cat = []"
    "fast_poll_banner (snd (io_uring_setup sample_cat_os QUEUE_DEPTH)) = map of_char ''<<<<<fast poll>>>>>'' @ [10]"
    by (simp_all add: sample_cat_os_def sample_file_def sample_cat_def fast_poll_banner_def
        io_uring_setup_def IORING_FEAT_FAST_POLL_def)
  ultimately show ?thesis by auto
qed

lemma read_cqe_ring: "read_cqe e s = Inr s' \<Longrightarrow> cqe_at s' = cqe_at s"
  using read_cqe_mem [of e s s'] by (simp add: cqe_at_def fun_eq_iff)

lemma foldE_map: "foldE f (map g xs) s = foldE (\<lambda>x. f (g x)) xs s"
  by (induction xs arbitrary: s) (simp_all, metis)

text \<open>C24: the loop of \<open>read_from_cq\<close> ends. Whatever the head and the tail of the completion ring,
  wrapped around 2^32 or not, it reads each of the tail - head entries once, in order, and leaves
  the head equal to the tail.\<close>

theorem reap_is_bounded_for:
  "reap head tail s =
     bindE (foldE (\<lambda>i. read_cqe (cqe_at s (head + of_nat i))) [0..<unat (tail - head)] s)
       (\<lambda>s'. Inr (tail, s'))"
proof (induction head tail s rule: reap.induct)
  case (1 head tail s)
  show ?case
  proof (cases "head = tail")
    case True
    then show ?thesis by (simp add: reap.simps)
  next
    case False
    have e: "tail - (head + 1) = tail - head - 1" by simp
    have u: "unat (tail - head) = Suc (unat (tail - (head + 1)))"
      unfolding e using False unat_minus_one [of "tail - head"] unat_gt_0 [of "tail - head"] by simp
    have l: "[0..<unat (tail - head)] = 0 # map Suc [0..<unat (tail - (head + 1))]"
      unfolding u by (simp add: map_Suc_upt upt_conv_Cons del: upt_Suc)
    show ?thesis
    proof (cases "read_cqe (cqe_at s head) s")
      case (Inl e)
      with False l show ?thesis by (simp add: reap.simps [of head])
    next
      case (Inr s1)
      with 1 False l read_cqe_ring [OF Inr] show ?thesis
        by (simp add: reap.simps [of head] foldE_map ac_simps)
    qed
  qed
qed

lemma mod_mod_1024: "(n mod 2 ^ 32) mod 1024 = n mod (1024 :: nat)"
  by (rule mod_mod_cancel) simp

lemma blocks_of_big:
  assumes "unat sz < 2 ^ 63" "unat sz mod 2 ^ 32 < 2 ^ 31"
  shows "blocks_of sz = blocks_of (of_nat (unat sz mod 2 ^ 32))"
proof -
  define n where "n = unat sz"
  let ?k = "n mod 2 ^ 32"
  have k: "?k < 2 ^ 31" using assms(2) by (simp add: n_def)
  have uk: "unat (of_nat ?k :: i64) = ?k" by (rule unat_of_nat_u64) (use k in simp)
  have "(ucast sz :: i32) = of_nat n" by (simp add: n_def)
  also have "\<dots> = (of_nat ?k :: i32)" by (simp add: word_unat_eq_iff unat_of_nat take_bit_eq_mod)
  also have "\<dots> = ucast (of_nat ?k :: i64)"
    unfolding word_unat_eq_iff using k uk by (simp add: unat_of_nat unsigned_ucast_eq take_bit_eq_mod)
  finally have low: "(ucast sz :: i32) = ucast (of_nat ?k :: i64)" .
  have s: "sint sz = int n" using sint_small [OF assms(1)] unfolding n_def .
  have sk: "sint (of_nat ?k :: i64) = int ?k"
    by (rule sint_small [of "of_nat ?k", unfolded uk]) (use k in simp)
  have "int n smod 1024 = int ?k smod 1024" by (simp only: smod_1024 mod_mod_1024)
  then show ?thesis
    unfolding blocks_of_def low n_def [symmetric] s sk by (simp add: BLOCK_SZ_def Let_def)
qed

lemma length_chunks_mono: "m + 1024 \<le> n \<Longrightarrow> length (chunks m) < length (chunks n)"
  unfolding length_chunks by (simp add: div_le_mono less_eq_div_iff_mult_less_eq flip: Suc_le_eq)

text \<open>C37: a file of 4 GiB or more whose size modulo 4 GiB is below 2 GiB overruns the heap. The size is
  cut to an int before it is divided into blocks, so that the array of iovecs is allocated for the
  remainder modulo 4 GiB, and the loop that fills it goes on for the whole file: with the
  allocations it asks for granted, it writes past the end of the block. (A size whose remainder is
  2 GiB or more is cut to a negative int, and most of those ask \<open>malloc\<close> for a size it refuses.)\<close>

theorem large_file_overflows:
  assumes "regular os path sz" "2 ^ 32 \<le> unat sz" "unat sz < 2 ^ 63"
    and "unat sz mod 2 ^ 32 < 2 ^ 31" "cat_room os room"
    and "card (dom (bufs (mem c))) + length (chunks (unat sz mod 2 ^ 32)) \<le> room"
  shows "submit_to_sq os path c = Inl Out_of_bounds"
proof -
  let ?k = "unat sz mod 2 ^ 32"
  let ?b = "info_size (blocks_of sz)"
  have uk: "unat (of_nat ?k :: i64) = ?k" by (rule unat_of_nat_u64) (use assms(4) in simp)
  have i: "info_slots ?b = length (chunks ?k)" "unat ?b < 2 ^ 40"
    using info_room(1,2) [of "of_nat ?k"] assms(4) uk unfolding blocks_of_big [OF assms(3,4)]
    by simp_all
  obtain fi where fi: "os_malloc os (mem c) ?b = Some fi"
    using assms(5) i(2) unfolding cat_room_def by blast
  have s: "sint sz = int (unat sz)" by (rule sint_small [OF assms(3)])
  have "?k + 1024 \<le> unat sz" using assms(2,4) by (simp add: mod_if not_less) 
  then have more: "length (chunks ?k) < length (chunks (unat sz))" by (rule length_chunks_mono)
  have "(?k + 1023) div 1024 < 2 ^ 22"
    by (rule less_mult_imp_div_less) (use assms(4) in simp)
  then have few: "length (chunks ?k) < 2 ^ 32 - 1" unfolding length_chunks by simp
  have "fill_iovecs os 0 sz \<lparr>file_sz = sz, iovecs = replicate (info_slots ?b) None\<rparr> (mem c) =
      Inl Out_of_bounds"
    by (rule fill_overflow [where room = room])
      (use assms(5,6) s more few i in \<open>simp_all add: cat_room_def\<close>)
  moreover have "\<not> sz <s 0" using s by (simp add: word_sless_alt)
  ultimately show ?thesis
    using fi assms(1) regular_size [OF assms(1)]
    by (simp add: submit_to_sq_def Let_def regular_def)
qed

lemma sample_cat_room:
  "os_memalign os = os_memalign sample_cat_os \<Longrightarrow> os_malloc os = os_malloc sample_cat_os \<Longrightarrow>
    cat_room os 100"
  using sample_room by (simp add: cat_room_def memalign_ok_def)

theorem large_file_overflows_witness:
  "submit_to_sq (sample_cat_os\<lparr>os_fstat := \<lambda>fd. Some (0x8000, 0x100000400)\<rparr>) ''a'' sample_cat =
    Inl Out_of_bounds"
  by (rule large_file_overflows [where sz = "0x100000400" and room = 100])
    (simp_all add: sample_cat_room regular_def word_sless_alt S_ISREG_def length_chunks
      sample_cat_def, simp_all add: sample_cat_os_def)

text \<open>A failed read is printed all the same. When the kernel completes the read with an error, the
  error is reported, and then as many bytes as the file has are written to the standard output from
  buffers nobody has written: what \<open>posix_memalign\<close> left in them.\<close>

theorem failed_read_prints_junk:
  assumes "ring_idle (sub c) (mem c)" "cat_room os room"
    and "card (dom (bufs (mem c))) + length (chunks (unat sz)) \<le> room"
    and "regular os path sz" "unat sz < 2 ^ 31" "kernel_fails os r" "r <s 0"
  shows "\<exists>c1 c2 (vs :: iovec list). submit_to_sq os path c = Inr (0, c1) \<and> read_from_cq c1 = Inr c2 \<and>
    stderr c2 = stderr c @ [Strerror r] \<and>
    stdout c2 = stdout c @
      concat (map (\<lambda>v. take (unat (iov_len v)) (junk os (iov_base v))) vs) \<and>
    sum_list (map (\<lambda>v. unat (iov_len v)) vs) = unat sz"
proof -
  define fd where "fd = os_open os path"
  obtain fi vs where vs: "file_iovecs sz vs"
    and sub1: "submit_to_sq os path c =
      (let fd = os_open os path;
           (ret, m) = io_uring_enter os (sub c) 1 1 IORING_ENTER_GETEVENTS
             (put_sqe (sub c) fd fi (blocks_of sz) (cat_mem_at os fi sz vs (mem c)));
           c = c\<lparr>opened := opened c @ [fd], mem := m\<rparr>
       in if ret <s 0 then Inr (1, complain (Perror ''io_uring_enter'') c) else Inr (0, c))"
    using submit_ok [OF assms(1-5)] by auto
  let ?start = "cat_mem_at os fi sz vs (mem c)"
  let ?m = "put_sqe (sub c) fd fi (blocks_of sz) ?start"
  let ?posted = "posts (sub c) r (bufs ?start) ?m"
  let ?c1 = "c\<lparr>opened := opened c @ [fd], mem := ?posted\<rparr>"
  have idle: "ring_idle (sub c) ?start"
    using assms(1) ring_idle_words [of ?start "mem c"] by simp
  have "io_uring_enter os (sub c) 1 1 IORING_ENTER_GETEVENTS ?m = (1, ?posted)"
    using assms(6) put_sqe_submitted(4) [OF idle] by (simp add: kernel_fails_def io_uring_enter_def)
  then have c1: "submit_to_sq os path c = Inr (0, ?c1)"
    using sub1 unfolding fd_def by (simp add: Let_def word_sless_alt)
  note f = file_iovecs_mapped [OF vs]
  have pr: "printed_blocks (bufs ?start) vs =
      concat (map (\<lambda>v. take (unat (iov_len v)) (junk os (iov_base v))) vs)"
    unfolding printed_blocks_def
    by (rule arg_cong [of _ _ concat]) (auto simp: fresh_bufs_def)
  note file_done [OF assms(1,5) vs f(1) refl refl, where fd = fd and fi = fi and os = os and
      ops = "opened c @ [fd]" and res = r, folded cat_mem_at_sel(3)]
  then obtain c2 where c2: "read_from_cq ?c1 = Inr c2" "stderr c2 = stderr c @ [Strerror r]"
    "stdout c2 = stdout c @ printed_blocks (bufs ?start) vs"
    using assms(7) by auto
  from c2(3) have "stdout c2 =
      stdout c @ concat (map (\<lambda>v. take (unat (iov_len v)) (junk os (iov_base v))) vs)"
    unfolding pr .
  with c1 c2(1,2) f(3) show ?thesis by blast
qed

theorem failed_read_prints_junk_witness:
  "\<exists>c0 c1 c2. submit_to_sq (sample_cat_os\<lparr>sys_enter := \<lambda>s n k fl m. (1, posts s (- 5) (bufs m) m)\<rparr>)
       ''b'' c0 = Inr (0, c1) \<and>
     read_from_cq c1 = Inr c2 \<and> stderr c2 = [Strerror (- 5)]"
proof -
  let ?os = "sample_cat_os\<lparr>sys_enter := \<lambda>s n k fl m. (1, posts s (- 5) (bufs m) m)\<rparr>"
  obtain c :: cat where c: "ring_idle (sub c) (mem c)" "mem c = mem sample_cat" "stderr c = []"
    using sample_setup by auto
  have "regular ?os ''b'' 1500"
    by (simp add: regular_def word_sless_alt S_ISREG_def sample_cat_os_def sample_file_def)
  moreover have "kernel_fails ?os (- 5)" by (simp add: kernel_fails_def)
  moreover have "card (dom (bufs (mem c))) + length (chunks (unat (1500 :: i64))) \<le> 100"
    by (simp add: c(2) sample_cat_def length_chunks)
  ultimately show ?thesis
    using failed_read_prints_junk [where os = ?os and room = 100 and sz = 1500 and path = "''b''" and r = "- 5", OF c(1)]
      sample_cat_room [of ?os] c(3)
    by (auto simp: word_sless_alt)
qed

end
