(* ===== verification/Counted_Ptr.thy ===== *)
theory Counted_Ptr
  imports Prelude
begin

unbundle bit_operations_syntax

text \<open>
  The packed pointer of \<open>thread_safe/lockfree_queue.hpp\<close>: a \<open>counted_node_ptr\<close> is a
  \<open>uint64_t\<close> whose low 48 bits are an address and whose high 16 bits are an external
  reference count. The four macros SET_PTR, GET_PTR, SET_COUNT and GET_COUNT are
  transcribed bit for bit; \<open>cnp c a\<close> is the canonical packed value of count \<open>c\<close>
  and address \<open>a\<close>, and the lemmas say how the macros act on it, wrap-around of the
  16-bit count included.
\<close>

definition HIGH16 :: u64 where
  "HIGH16 = push_bit 48 (- 1)"

definition SET_PTR :: "u64 \<Rightarrow> u64 \<Rightarrow> u64" where
  "SET_PTR x p = (x AND HIGH16) OR p"

definition GET_PTR :: "u64 \<Rightarrow> u64" where
  "GET_PTR x = x AND NOT HIGH16"

definition SET_COUNT :: "u64 \<Rightarrow> u64 \<Rightarrow> u64" where
  "SET_COUNT x c = (x AND NOT HIGH16) OR push_bit 48 c"

definition GET_COUNT :: "u64 \<Rightarrow> u64" where
  "GET_COUNT x = drop_bit 48 x"

text \<open>The packed value with count \<open>c\<close> and address \<open>p\<close>.\<close>

definition cnp :: "u64 \<Rightarrow> u64 \<Rightarrow> u64" where
  "cnp c p = push_bit 48 c OR take_bit 48 p"

text \<open>An address the packing can hold.\<close>

definition addr48 :: "u64 \<Rightarrow> bool" where
  "addr48 p \<longleftrightarrow> take_bit 48 p = p"

lemma addr48_0 [simp]: "addr48 0"
  by (simp add: addr48_def)

lemma addr48_iff: "addr48 p \<longleftrightarrow> uint p < 2 ^ 48"
  by (simp add: addr48_def take_bit_eq_mask mask_eq_iff)

lemma addr48_of_nat: "n < 2 ^ 48 \<Longrightarrow> addr48 (of_nat n)"
proof -
  assume "n < 2 ^ 48"
  then have n: "int n < 2 ^ 48" by simp
  then have "uint (of_nat n :: u64) = int n" by (simp add: uint_nat unat_of_nat)
  with n show ?thesis by (simp add: addr48_iff)
qed

lemma not_HIGH16: "NOT HIGH16 = mask 48"
  by (rule bit_word_eqI) (auto simp: HIGH16_def bit_simps)

lemma GET_PTR_take_bit: "GET_PTR x = take_bit 48 x"
  by (simp add: GET_PTR_def not_HIGH16 take_bit_eq_mask)

lemma addr48_GET_PTR [simp]: "addr48 (GET_PTR x)"
  by (simp add: GET_PTR_take_bit addr48_def)

lemma GET_PTR_cnp [simp]: "addr48 p \<Longrightarrow> GET_PTR (cnp c p) = p"
  by (simp add: GET_PTR_take_bit cnp_def addr48_def take_bit_push_bit)

lemma GET_COUNT_cnp [simp]: "GET_COUNT (cnp c p) = take_bit 16 c"
  by (rule bit_word_eqI) (auto simp: GET_COUNT_def cnp_def bit_simps)

lemma SET_COUNT_cnp [simp]: "addr48 p \<Longrightarrow> SET_COUNT (cnp c p) d = cnp d p"
  by (metis GET_PTR_cnp GET_PTR_def SET_COUNT_def addr48_def cnp_def or.commute)

lemma SET_PTR_cnp [simp]: "addr48 p \<Longrightarrow> SET_PTR (cnp c q) p = cnp c p"
  by (rule bit_word_eqI) (auto simp: SET_PTR_def HIGH16_def cnp_def addr48_def bit_simps)

lemma cnp_take_bit: "cnp (take_bit 16 c) p = cnp c p"
  by (rule bit_word_eqI) (auto simp: cnp_def bit_simps)

lemma cnp_GET [simp]: "cnp (GET_COUNT x) (GET_PTR x) = x"
  by (rule bit_word_eqI) (auto simp: cnp_def GET_COUNT_def GET_PTR_take_bit bit_simps)

lemma cnp_eq_iff:
  "addr48 p \<Longrightarrow> addr48 q \<Longrightarrow>
    cnp c p = cnp d q \<longleftrightarrow> take_bit 16 c = take_bit 16 d \<and> p = q"
  by (metis GET_COUNT_cnp GET_PTR_cnp cnp_take_bit)

lemma cnp_0 [simp]: "cnp 0 0 = 0"
  by (simp add: cnp_def)

text \<open>
  A fresh packed pointer is built on an uninitialised variable: SET_PTR keeps the high 16
  bits of the junk and SET_COUNT then overwrites them, so the junk is gone.
\<close>

definition new_cnp :: "u64 \<Rightarrow> u64 \<Rightarrow> u64" where
  "new_cnp junk p = SET_COUNT (SET_PTR junk p) 1"

lemma new_cnp_eq [simp]: "addr48 p \<Longrightarrow> new_cnp junk p = cnp 1 p"
  by (metis SET_COUNT_cnp SET_PTR_cnp cnp_GET new_cnp_def)

text \<open>One round of increase_external_count: the count goes up by one, modulo 65536.\<close>

definition inc_count :: "u64 \<Rightarrow> u64" where
  "inc_count x = SET_COUNT x (GET_COUNT x + 1)"

lemma inc_count_cnp [simp]: "addr48 p \<Longrightarrow> inc_count (cnp c p) = cnp (c + 1) p"
proof -
  assume p: "addr48 p"
  have "cnp (take_bit 16 c + 1) p = cnp (c + 1) p"
    by (metis (no_types) cnp_take_bit mask_eqs(1) take_bit_eq_mask)
  with p show ?thesis by (simp add: inc_count_def)
qed

lemma GET_PTR_inc_count [simp]: "GET_PTR (inc_count x) = GET_PTR x"
  by (metis GET_PTR_cnp addr48_GET_PTR cnp_GET inc_count_cnp)

lemma inc_counts: "(inc_count ^^ k) (cnp c p) = cnp (c + of_nat k) p" if "addr48 p"
  by (induction k) (simp_all add: that ac_simps)

section \<open>Properties\<close>

text \<open>
  The packed pointer keeps its two halves apart. For an address below 2^48, a fresh packed
  pointer holds that address and the count 1 whatever the uninitialised variable it is built on
  held; SET_PTR changes the address and not the count, SET_COUNT the count (modulo 2^16) and not
  the address.
\<close>

theorem packed_pointer_roundtrip:
  assumes "addr48 p"
  shows "GET_PTR (new_cnp junk p) = p \<and> GET_COUNT (new_cnp junk p) = 1 \<and>
    GET_PTR (SET_PTR x p) = p \<and> GET_COUNT (SET_PTR x p) = GET_COUNT x \<and>
    GET_PTR (SET_COUNT x c) = GET_PTR x \<and> GET_COUNT (SET_COUNT x c) = take_bit 16 c"
proof -
  have "SET_PTR x p = cnp (GET_COUNT x) p" by (metis SET_PTR_cnp assms cnp_GET)
  moreover have "SET_COUNT x c = cnp c (GET_PTR x)"
    by (metis SET_COUNT_cnp addr48_GET_PTR cnp_GET)
  moreover have "take_bit 16 (GET_COUNT x) = GET_COUNT x" by (metis GET_COUNT_cnp cnp_GET)
  moreover have "take_bit 16 (1 :: u64) = 1" by simp
  ultimately show ?thesis using assms by simp
qed

theorem packed_pointer_roundtrip_witness:
  "GET_PTR (new_cnp 0xdeadbeefdeadbeef 0x7f0012345678) = 0x7f0012345678 \<and>
   GET_COUNT (SET_COUNT 5 0x10003) = 3"
  using packed_pointer_roundtrip [of "0x7f0012345678" "0xdeadbeefdeadbeef" 5 "0x10003"]
  by (simp add: addr48_iff)

text \<open>
  The external count is modulo 2^16. After \<open>k\<close> rounds of \<open>increase_external_count\<close> on one
  packed pointer the address is unchanged and the count has grown by \<open>k\<close> modulo 65536; so a
  compare-exchange on the packed value tells \<open>k\<close> rounds from none unless \<open>k\<close> is a multiple
  of 65536.
\<close>

theorem external_count_wraps:
  "GET_PTR ((inc_count ^^ k) x) = GET_PTR x \<and>
   unat (GET_COUNT ((inc_count ^^ k) x)) = (unat (GET_COUNT x) + k) mod 65536 \<and>
   ((inc_count ^^ k) x = x \<longleftrightarrow> 65536 dvd k)"
proof -
  define c where "c = GET_COUNT x"
  have c16: "take_bit 16 c = c" unfolding c_def by (metis GET_COUNT_cnp cnp_GET)
  have t: "unat (take_bit 16 y) = unat y mod 65536" for y :: u64
    by (simp add: take_bit_eq_mod unat_mod)
  have lt: "unat c < 65536" using t [of c] c16 by (metis mod_less_divisor zero_less_numeral)
  have x: "(inc_count ^^ k) x = cnp (c + of_nat k) (GET_PTR x)"
    unfolding c_def by (metis addr48_GET_PTR cnp_GET inc_counts)
  have n: "unat (take_bit 16 (c + of_nat k)) = (unat c + k) mod 65536"
    unfolding t by (simp add: unat_word_ariths unat_of_nat mod_simps mod_mod_cancel)
  have "(inc_count ^^ k) x = x \<longleftrightarrow> take_bit 16 (c + of_nat k) = take_bit 16 c"
    unfolding x by (metis addr48_GET_PTR c_def cnp_GET cnp_eq_iff)
  also have "\<dots> \<longleftrightarrow> (unat c + k) mod 65536 = unat c mod 65536"
    unfolding word_unat_eq_iff n by (simp only: t)
  also have "\<dots> \<longleftrightarrow> 65536 dvd k"
    by (simp add: mod_eq_dvd_iff_nat)
  finally show ?thesis using x n by (simp add: c_def)
qed

end
