(* ===== verification/LFQueue.thy ===== *)
theory LFQueue
  imports Counted_Ptr
begin

text \<open>
  The lock-free queue of \<open>thread_safe/lockfree_queue.hpp\<close> as a small-step machine: every
  atomic access of the source is one step of \<open>lf_step\<close>, so that threads interleave
  between any two of them (memory orders are read as sequentially consistent). A thread is
  a control point \<open>pc\<close> that carries the local variables live there; the shared state is
  the record \<open>lfq\<close>. A step is given a \<open>choice\<close>: what \<open>malloc\<close> answers if the step
  allocates and what the memory there holds, the junk an uninitialised variable holds, and
  whether a weak compare-exchange fails spuriously. Reading through a null or a freed pointer is a fault.
\<close>

section \<open>Nodes and the queue object\<close>

record 'a node =
  node_data :: "'a option"
  internal_count :: "30 word"
  external_counters :: "2 word"
  node_next :: u64

text \<open>
  The constructor of a node sets the counters and \<open>next\<close>. It leaves \<open>data\<close> alone, an atomic that
  C++17 does not initialise: the field keeps what the memory held (\<open>junk\<close>).
\<close>

definition new_node :: "'a option \<Rightarrow> 'a node" where
  "new_node junk = \<lparr>node_data = junk, internal_count = 0, external_counters = 2, node_next = 0\<rparr>"

record 'a lfq =
  head :: u64
  tail :: u64
  heap :: "(u64 \<times> 'a node) list"
  destruct_count :: i32
  q_size :: i32
  push_count :: i32
  pop_count :: i32

record 'a choice =
  ch_addr :: u64
  ch_data :: "'a option"
  ch_junk :: u64
  ch_spurious :: bool

definition heap_get :: "(u64 \<times> 'a node) list \<Rightarrow> u64 \<Rightarrow> fault + 'a node" where
  "heap_get h a = (case map_of h a of
      None \<Rightarrow> Inl (if a = 0 then Null_deref else Dangling)
    | Some n \<Rightarrow> Inr n)"

definition heap_put :: "u64 \<Rightarrow> 'a node \<Rightarrow> (u64 \<times> 'a node) list \<Rightarrow> (u64 \<times> 'a node) list" where
  "heap_put a n h = (a, n) # filter (\<lambda>p. fst p \<noteq> a) h"

definition heap_del :: "u64 \<Rightarrow> (u64 \<times> 'a node) list \<Rightarrow> (u64 \<times> 'a node) list" where
  "heap_del a h = filter (\<lambda>p. fst p \<noteq> a) h"

text \<open>
  \<open>new node()\<close>: the allocator answers with an address that is not null, fits 48 bits and
  is not in use; an exhausted allocator throws. \<open>free_node\<close> is \<open>delete\<close>.
\<close>

definition alloc_ok :: "(u64 \<times> 'a node) list \<Rightarrow> u64 \<Rightarrow> bool" where
  "alloc_ok h a \<longleftrightarrow> a \<noteq> 0 \<and> addr48 a \<and> map_of h a = None"

definition alloc_node :: "'a choice \<Rightarrow> 'a lfq \<Rightarrow> fault + (u64 \<times> 'a lfq)" where
  "alloc_node ch q =
     (if alloc_ok (heap q) (ch_addr ch)
      then Inr (ch_addr ch, q\<lparr>heap := heap_put (ch_addr ch) (new_node (ch_data ch)) (heap q)\<rparr>)
      else Inl Bad_alloc)"

definition free_node :: "u64 \<Rightarrow> 'a lfq \<Rightarrow> fault + 'a lfq" where
  "free_node a q = bindE (heap_get (heap q) a) (\<lambda>_. Inr (q\<lparr>heap := heap_del a (heap q)\<rparr>))"

definition put_node :: "u64 \<Rightarrow> 'a node \<Rightarrow> 'a lfq \<Rightarrow> 'a lfq" where
  "put_node a n q = q\<lparr>heap := heap_put a n (heap q)\<rparr>"

text \<open>The constructor: one node, shared by head and tail, each holding one reference.\<close>

definition lfq_new :: "'a choice \<Rightarrow> fault + 'a lfq" where
  "lfq_new ch =
     (let q0 = \<lparr>head = 0, tail = 0, heap = [], destruct_count = 0, q_size = 0,
                push_count = 0, pop_count = 0\<rparr>
      in bindE (alloc_node ch q0) (\<lambda>(a, q1).
           let n = new_cnp (ch_junk ch) a in Inr (q1\<lparr>tail := n, head := n\<rparr>)))"

section \<open>Control points\<close>

text \<open>
  Where control goes after release_ref or free_external_counter returns: the end of push,
  the next round of its loop, the empty return of pop, its next round, or its success.
\<close>

datatype 'a kont =
    K_push_done
  | K_push_again 'a u64 u64
  | K_pop_empty
  | K_pop_again u64
  | K_pop_done "'a option"

text \<open>
  Registers, in this order: the data to push, \<open>new_next\<close>, \<open>old_tail\<close> (push);
  \<open>old_head\<close>, \<open>next\<close>, the result (pop); the expected value and the new value of a
  compare-exchange in the helpers.
\<close>

datatype 'a pc =
    Idle
  | Push_start 'a
  | Push_load 'a u64
  | Push_inc 'a u64 u64
  | Push_data 'a u64 u64
  | Push_next 'a u64 u64
  | Push_help 'a u64 u64
  | Push_realloc 'a u64 u64
  | Tail_cas "'a kont" u64 u64 u64
  | Ext_load "'a kont" u64
  | Ext_cas "'a kont" u64 "30 word" "2 word"
  | Rel_load "'a kont" u64
  | Rel_cas "'a kont" u64 "30 word" "2 word"
  | Delete "'a kont" u64
  | Count_destruct "'a kont"
  | Push_count
  | Push_size
  | Push_ret
  | Pop_start
  | Pop_check u64
  | Pop_load
  | Pop_inc u64
  | Pop_tail u64
  | Pop_next u64
  | Pop_cas u64 u64
  | Pop_data u64
  | Pop_count "'a option"
  | Pop_size "'a option"
  | Pop_ret "'a option"

definition final :: "'a pc \<Rightarrow> bool" where
  [simp]: "final pc = (case pc of Idle \<Rightarrow> True | Push_ret \<Rightarrow> True | Pop_ret _ \<Rightarrow> True | _ \<Rightarrow> False)"

primrec resume :: "'a kont \<Rightarrow> 'a pc" where
  "resume K_push_done = Push_count"
| "resume (K_push_again x nn ot) = Push_inc x nn ot"
| "resume K_pop_empty = Pop_ret None"
| "resume (K_pop_again oh) = Pop_inc oh"
| "resume (K_pop_done r) = Pop_count r"

text \<open>set_new_tail takes \<open>old_tail\<close> by reference: a failed exchange reloads it.\<close>

fun reload_tail :: "u64 \<Rightarrow> 'a kont \<Rightarrow> 'a kont" where
  "reload_tail t (K_push_again x nn ot) = K_push_again x nn t"
| "reload_tail t k = k"

section \<open>Steps of the reference-count helpers\<close>

text \<open>One attempt of the loop in increase_external_count, on \<open>head\<close> or on \<open>tail\<close>.\<close>

definition increase_external_count :: "u64 \<Rightarrow> u64 \<Rightarrow> (u64 \<times> u64) option" where
  "increase_external_count counter old_counter =
     (if counter = old_counter
      then let new_counter = inc_count old_counter
           in Some (new_counter, SET_COUNT old_counter (GET_COUNT new_counter))
      else None)"

text \<open>
  \<open>count_increase\<close> is an \<open>int\<close>: the 64-bit difference cut to 32 bits, then added to
  the 30-bit field.
\<close>

definition count_increase :: "u64 \<Rightarrow> i32" where
  "count_increase c = ucast (GET_COUNT c - 2)"

definition after_count :: "'a kont \<Rightarrow> u64 \<Rightarrow> 30 word \<Rightarrow> 2 word \<Rightarrow> 'a pc" where
  "after_count k p ic ec = (if ic = 0 \<and> ec = 0 then Delete k p else resume k)"

definition free_external_counter_load ::
  "'a kont \<Rightarrow> u64 \<Rightarrow> 'a lfq \<Rightarrow> fault + ('a pc \<times> 'a lfq)" where
  [simp]: "free_external_counter_load k c q =
     bindE (heap_get (heap q) (GET_PTR c)) (\<lambda>n.
       Inr (Ext_cas k c (internal_count n) (external_counters n), q))"

definition free_external_counter_cas ::
  "'a kont \<Rightarrow> u64 \<Rightarrow> 30 word \<Rightarrow> 2 word \<Rightarrow> 'a lfq \<Rightarrow> fault + ('a pc \<times> 'a lfq)" where
  [simp]: "free_external_counter_cas k c ic ec q =
     bindE (heap_get (heap q) (GET_PTR c)) (\<lambda>n.
       if internal_count n = ic \<and> external_counters n = ec
       then let ec' = ec - 1; ic' = ic + ucast (count_increase c)
            in Inr (after_count k (GET_PTR c) ic' ec',
                    put_node (GET_PTR c) (n\<lparr>internal_count := ic', external_counters := ec'\<rparr>) q)
       else Inr (Ext_cas k c (internal_count n) (external_counters n), q))"

definition release_ref_load ::
  "'a kont \<Rightarrow> u64 \<Rightarrow> 'a lfq \<Rightarrow> fault + ('a pc \<times> 'a lfq)" where
  [simp]: "release_ref_load k p q =
     bindE (heap_get (heap q) p) (\<lambda>n.
       Inr (Rel_cas k p (internal_count n) (external_counters n), q))"

definition release_ref_cas ::
  "'a kont \<Rightarrow> u64 \<Rightarrow> 30 word \<Rightarrow> 2 word \<Rightarrow> 'a lfq \<Rightarrow> fault + ('a pc \<times> 'a lfq)" where
  [simp]: "release_ref_cas k p ic ec q =
     bindE (heap_get (heap q) p) (\<lambda>n.
       if internal_count n = ic \<and> external_counters n = ec
       then let ic' = ic - 1
            in Inr (after_count k p ic' ec, put_node p (n\<lparr>internal_count := ic'\<rparr>) q)
       else Inr (Rel_cas k p (internal_count n) (external_counters n), q))"

definition set_new_tail ::
  "'a choice \<Rightarrow> 'a kont \<Rightarrow> u64 \<Rightarrow> u64 \<Rightarrow> u64 \<Rightarrow> 'a lfq \<Rightarrow> fault + ('a pc \<times> 'a lfq)" where
  [simp]: "set_new_tail ch k ot nt cur q =
     (if tail q = ot \<and> \<not> ch_spurious ch
      then Inr (Ext_load k ot, q\<lparr>tail := nt\<rparr>)
      else if GET_PTR (tail q) = cur
           then Inr (Tail_cas (reload_tail (tail q) k) (tail q) nt cur, q)
           else Inr (Rel_load (reload_tail (tail q) k) cur, q))"

section \<open>The step function\<close>

primrec lf_step :: "'a choice \<Rightarrow> 'a pc \<Rightarrow> 'a lfq \<Rightarrow> fault + ('a pc \<times> 'a lfq)" where
  "lf_step ch (Push_start x) q =
     bindE (alloc_node ch q) (\<lambda>(a, q'). Inr (Push_load x (new_cnp (ch_junk ch) a), q'))"
| "lf_step ch (Push_load x nn) q = Inr (Push_inc x nn (tail q), q)"
| "lf_step ch (Push_inc x nn ot) q =
     (case increase_external_count (tail q) ot of
        Some (nc, ot') \<Rightarrow> Inr (Push_data x nn ot', q\<lparr>tail := nc\<rparr>)
      | None \<Rightarrow> Inr (Push_inc x nn (tail q), q))"
| "lf_step ch (Push_data x nn ot) q =
     bindE (heap_get (heap q) (GET_PTR ot)) (\<lambda>n.
       case node_data n of
         None \<Rightarrow> Inr (Push_next x nn ot, put_node (GET_PTR ot) (n\<lparr>node_data := Some x\<rparr>) q)
       | Some _ \<Rightarrow> Inr (Push_help x nn ot, q))"
| "lf_step ch (Push_next x nn ot) q =
     bindE (heap_get (heap q) (GET_PTR ot)) (\<lambda>n.
       if node_next n = 0
       then Inr (Tail_cas K_push_done ot nn (GET_PTR ot),
                 put_node (GET_PTR ot) (n\<lparr>node_next := nn\<rparr>) q)
       else bindE (free_node (GET_PTR nn) q) (\<lambda>q'.
              Inr (Tail_cas K_push_done ot (node_next n) (GET_PTR ot), q')))"
| "lf_step ch (Push_help x nn ot) q =
     bindE (heap_get (heap q) (GET_PTR ot)) (\<lambda>n.
       if node_next n = 0
       then Inr (Push_realloc x nn ot, put_node (GET_PTR ot) (n\<lparr>node_next := nn\<rparr>) q)
       else Inr (Tail_cas (K_push_again x nn ot) ot (node_next n) (GET_PTR ot), q))"
| "lf_step ch (Push_realloc x nn ot) q =
     bindE (alloc_node ch q) (\<lambda>(a, q').
       Inr (Tail_cas (K_push_again x (SET_PTR nn a) ot) ot nn (GET_PTR ot), q'))"
| "lf_step ch (Tail_cas k ot nt cur) q = set_new_tail ch k ot nt cur q"
| "lf_step ch (Ext_load k c) q = free_external_counter_load k c q"
| "lf_step ch (Ext_cas k c ic ec) q = free_external_counter_cas k c ic ec q"
| "lf_step ch (Rel_load k p) q = release_ref_load k p q"
| "lf_step ch (Rel_cas k p ic ec) q = release_ref_cas k p ic ec q"
| "lf_step ch (Delete k p) q = bindE (free_node p q) (\<lambda>q'. Inr (Count_destruct k, q'))"
| "lf_step ch (Count_destruct k) q =
     Inr (resume k, q\<lparr>destruct_count := destruct_count q + 1\<rparr>)"
| "lf_step ch Push_count q = Inr (Push_size, q\<lparr>push_count := push_count q + 1\<rparr>)"
| "lf_step ch Push_size q = Inr (Push_ret, q\<lparr>q_size := q_size q + 1\<rparr>)"
| "lf_step ch Pop_start q = Inr (Pop_check (head q), q)"
| "lf_step ch (Pop_check h) q =
     Inr (if GET_PTR h = GET_PTR (tail q) then Pop_ret None else Pop_load, q)"
| "lf_step ch Pop_load q = Inr (Pop_inc (head q), q)"
| "lf_step ch (Pop_inc oh) q =
     (case increase_external_count (head q) oh of
        Some (nc, oh') \<Rightarrow> Inr (Pop_tail oh', q\<lparr>head := nc\<rparr>)
      | None \<Rightarrow> Inr (Pop_inc (head q), q))"
| "lf_step ch (Pop_tail oh) q =
     Inr (if GET_PTR oh = GET_PTR (tail q) then Rel_load K_pop_empty (GET_PTR oh)
          else Pop_next oh, q)"
| "lf_step ch (Pop_next oh) q =
     bindE (heap_get (heap q) (GET_PTR oh)) (\<lambda>n. Inr (Pop_cas oh (node_next n), q))"
| "lf_step ch (Pop_cas oh nx) q =
     (if head q = oh then Inr (Pop_data oh, q\<lparr>head := nx\<rparr>)
      else Inr (Rel_load (K_pop_again (head q)) (GET_PTR oh), q))"
| "lf_step ch (Pop_data oh) q =
     bindE (heap_get (heap q) (GET_PTR oh)) (\<lambda>n.
       Inr (Ext_load (K_pop_done (node_data n)) oh,
            put_node (GET_PTR oh) (n\<lparr>node_data := None\<rparr>) q))"
| "lf_step ch (Pop_count r) q = Inr (Pop_size r, q\<lparr>pop_count := pop_count q + 1\<rparr>)"
| "lf_step ch (Pop_size r) q = Inr (Pop_ret r, q\<lparr>q_size := q_size q - 1\<rparr>)"
| "lf_step ch Idle q = Inr (Idle, q)"
| "lf_step ch Push_ret q = Inr (Push_ret, q)"
| "lf_step ch (Pop_ret r) q = Inr (Pop_ret r, q)"

section \<open>Threads\<close>

text \<open>
  Any number of threads share one queue. A thread that is idle or has returned may call push
  or pop; a thread inside an operation may make its next atomic step.
\<close>

datatype 'a event = Call_push nat 'a | Call_pop nat | Step nat "'a choice"

type_synonym 'a machine = "'a lfq \<times> (nat \<Rightarrow> 'a pc)"

fun lf_event :: "'a event \<Rightarrow> 'a machine \<Rightarrow> fault + 'a machine" where
  "lf_event (Call_push t x) (q, pcs) =
     Inr (q, if final (pcs t) then pcs(t := Push_start x) else pcs)"
| "lf_event (Call_pop t) (q, pcs) =
     Inr (q, if final (pcs t) then pcs(t := Pop_start) else pcs)"
| "lf_event (Step t ch) (q, pcs) =
     bindE (lf_step ch (pcs t) q) (\<lambda>(pc, q'). Inr (q', pcs(t := pc)))"

definition lf_trace :: "'a event list \<Rightarrow> 'a machine \<Rightarrow> fault + 'a machine" where
  "lf_trace = foldE lf_event"

section \<open>One thread running alone\<close>

text \<open>
  \<open>first_fit\<close> is an allocator that reuses freed addresses as early as it can; with \<open>solo_choice\<close>
  it hands out memory whose first word is null, which the code takes for granted
  (\<open>recycled_node_pops_junk\<close> shows what happens otherwise). \<open>lf_exec\<close> runs one thread to the end of its operation, \<open>fuel\<close> steps at most.
\<close>

definition first_fit :: "(u64 \<times> 'a node) list \<Rightarrow> u64" where
  "first_fit h =
     (case find (\<lambda>n. map_of h (of_nat n) = None) [1..<length h + 2] of
        None \<Rightarrow> 0 | Some n \<Rightarrow> of_nat n)"

definition solo_choice :: "'a lfq \<Rightarrow> 'a choice" where
  "solo_choice q = \<lparr>ch_addr = first_fit (heap q), ch_data = None, ch_junk = 0, ch_spurious = False\<rparr>"

fun lf_exec :: "('a lfq \<Rightarrow> 'a choice) \<Rightarrow> nat \<Rightarrow> 'a pc \<Rightarrow> 'a lfq \<Rightarrow> fault + ('a pc \<times> 'a lfq)" where
  "lf_exec env 0 pc q = (if final pc then Inr (pc, q) else Inl Diverges)"
| "lf_exec env (Suc n) pc q =
     (if final pc then Inr (pc, q)
      else bindE (lf_step (env q) pc q) (\<lambda>(pc', q'). lf_exec env n pc' q'))"

definition lfq_push :: "'a \<Rightarrow> 'a lfq \<Rightarrow> fault + 'a lfq" where
  "lfq_push x q = bindE (lf_exec solo_choice 16 (Push_start x) q) (\<lambda>(pc, q'). Inr q')"

definition pop_answer :: "'a pc \<Rightarrow> 'a option" where
  [simp]: "pop_answer pc = (case pc of Pop_ret r \<Rightarrow> r | _ \<Rightarrow> None)"

definition lfq_pop :: "'a lfq \<Rightarrow> fault + ('a option \<times> 'a lfq)" where
  "lfq_pop q = bindE (lf_exec solo_choice 16 Pop_start q) (\<lambda>(pc, q'). Inr (pop_answer pc, q'))"

text \<open>
  The destructor: pop until nothing comes, then delete the node head points to. The bound
  on the number of pops is the number of nodes.
\<close>

fun drain :: "nat \<Rightarrow> 'a lfq \<Rightarrow> fault + ('a list \<times> 'a lfq)" where
  "drain 0 q = Inl Diverges"
| "drain (Suc n) q =
     bindE (lfq_pop q) (\<lambda>(r, q').
       case r of
         None \<Rightarrow> Inr ([], q')
       | Some x \<Rightarrow> bindE (drain n q') (\<lambda>(xs, q''). Inr (x # xs, q'')))"

definition lfq_destroy :: "'a lfq \<Rightarrow> fault + ('a list \<times> 'a lfq)" where
  "lfq_destroy q =
     bindE (drain (length (heap q)) q) (\<lambda>(xs, q').
       bindE (free_node (GET_PTR (head q')) q') (\<lambda>q''. Inr (xs, q'')))"

end
