(* ===== verification/Fifo.thy ===== *)
theory Fifo
  imports Prelude
begin

text \<open>
  The interface every client of the lock-free queue relies on. The runtime stores runnable
  tasks, idle tasks, mutex waiters and I/O requests in queues and uses three operations of
  them: \<open>push\<close>, \<open>pop\<close> (an empty result when there is nothing) and the element
  count \<open>size\<close>. The locale \<open>fifo\<close> states what the clients count on; \<open>sized_fifo\<close>
  adds the counter. \<open>push_all\<close> and \<open>pop_n\<close> are the two loops the clients build on
  top of the operations.
\<close>

fun push_all :: "('a \<Rightarrow> 'q \<Rightarrow> fault + 'q) \<Rightarrow> 'a list \<Rightarrow> 'q \<Rightarrow> fault + 'q" where
  "push_all push [] q = Inr q"
| "push_all push (x # xs) q = bindE (push x q) (push_all push xs)"

fun pop_n :: "('q \<Rightarrow> fault + ('a option \<times> 'q)) \<Rightarrow> nat \<Rightarrow> 'q \<Rightarrow> fault + ('a list \<times> 'q)" where
  "pop_n pop 0 q = Inr ([], q)"
| "pop_n pop (Suc n) q =
     bindE (pop q) (\<lambda>(r, q').
       case r of
         None \<Rightarrow> Inr ([], q')
       | Some x \<Rightarrow> bindE (pop_n pop n q') (\<lambda>(xs, q''). Inr (x # xs, q'')))"

locale fifo =
  fixes push :: "'a \<Rightarrow> 'q \<Rightarrow> fault + 'q"
    and pop :: "'q \<Rightarrow> fault + ('a option \<times> 'q)"
    and contents :: "'q \<Rightarrow> 'a list"
    and invar :: "'q \<Rightarrow> bool"
    and room :: nat
  assumes push_law: "invar q \<Longrightarrow> length (contents q) < room \<Longrightarrow>
      \<exists>q'. push x q = Inr q' \<and> invar q' \<and> contents q' = contents q @ [x]"
    and pop_Nil_law: "invar q \<Longrightarrow> contents q = [] \<Longrightarrow>
      \<exists>q'. pop q = Inr (None, q') \<and> invar q' \<and> contents q' = []"
    and pop_Cons_law: "invar q \<Longrightarrow> contents q = x # xs \<Longrightarrow>
      \<exists>q'. pop q = Inr (Some x, q') \<and> invar q' \<and> contents q' = xs"
begin

lemma pop_total: "invar q \<Longrightarrow> \<exists>r q'. pop q = Inr (r, q') \<and> invar q'"
  using pop_Nil_law [of q] pop_Cons_law [of q] by (cases "contents q") blast+

lemma pop_result:
  assumes "invar q" "pop q = Inr (r, q')"
  shows "invar q'"
    and "r = (case contents q of [] \<Rightarrow> None | x # xs \<Rightarrow> Some x)"
    and "contents q' = tl (contents q)"
  using assms pop_Nil_law [of q] pop_Cons_law [of q] by (cases "contents q"; auto)+

lemma push_result:
  assumes "invar q" "length (contents q) < room" "push x q = Inr q'"
  shows "invar q'" and "contents q' = contents q @ [x]"
  using push_law [OF assms(1,2), of x] assms(3) by auto

lemma push_all_law:
  assumes "invar q" "length (contents q) + length xs \<le> room"
  shows "\<exists>q'. push_all push xs q = Inr q' \<and> invar q' \<and> contents q' = contents q @ xs"
  using assms
proof (induction xs arbitrary: q)
  case Nil
  then show ?case by simp
next
  case (Cons x xs)
  then obtain q1 where q1: "push x q = Inr q1" "invar q1" "contents q1 = contents q @ [x]"
    using push_law [of q x] by auto
  with Cons.prems Cons.IH [of q1] show ?case by auto
qed

lemma pop_n_law:
  assumes "invar q"
  shows "\<exists>q'. pop_n pop n q = Inr (take n (contents q), q') \<and> invar q'
    \<and> contents q' = drop n (contents q)"
  using assms
proof (induction n arbitrary: q)
  case 0
  then show ?case by simp
next
  case (Suc n)
  show ?case
  proof (cases "contents q")
    case Nil
    with Suc.prems pop_Nil_law [of q] show ?thesis by auto
  next
    case (Cons x xs)
    with Suc.prems pop_Cons_law [of q x xs] obtain q1
      where q1: "pop q = Inr (Some x, q1)" "invar q1" "contents q1 = xs" by auto
    with Suc.IH [of q1] Cons show ?thesis by auto
  qed
qed

text \<open>Filling a queue and then draining it gives the elements back in order.\<close>

lemma fill_drain:
  assumes "invar q" "contents q = []" "length xs \<le> room"
  shows "\<exists>q1 q2. push_all push xs q = Inr q1 \<and> pop_n pop (length xs) q1 = Inr (xs, q2)
    \<and> contents q2 = []"
  using push_all_law [of q xs] pop_n_law assms by (metis add_0 append_Nil drop_all list.size(3)
      order_refl take_all)

end

locale sized_fifo = fifo +
  fixes size_of :: "'q \<Rightarrow> 32 word"
  assumes size_law: "invar q \<Longrightarrow> size_of q = of_nat (length (contents q))"
begin

lemma size_push:
  assumes "invar q" "length (contents q) < room" "push x q = Inr q'"
  shows "size_of q' = size_of q + 1"
  using assms push_result [OF assms] size_law by (simp add: algebra_simps)

lemma sint_size:
  assumes "invar q" "length (contents q) < 2 ^ 31"
  shows "sint (size_of q) = int (length (contents q))"
  using assms size_law sint_of_nat_i32 by simp

end

end
