(* ===== verification/LFQueue_Solo.thy ===== *)
theory LFQueue_Solo
  imports LFQueue Fifo
begin

text \<open>
  The lock-free queue refines a FIFO. \<open>lf_rep q as xs\<close> says what a quiescent queue (no
  thread inside an operation) looks like: the heap holds exactly the nodes of the list of
  addresses \<open>as\<close>, linked in this order from \<open>head\<close> to \<open>tail\<close>, storing \<open>xs\<close> and
  a last empty node, with reference counts that balance the external counts in \<open>head\<close>
  and \<open>tail\<close>. A push or a pop that runs to its end keeps that shape.
\<close>

section \<open>Heap lemmas\<close>

lemma map_of_heap_put [simp]: "map_of (heap_put a n h) = (map_of h)(a \<mapsto> n)"
  by (auto simp: heap_put_def map_of_filter_ne fun_eq_iff)

lemma map_of_heap_del [simp]: "map_of (heap_del a h) = (map_of h)(a := None)"
  by (simp add: heap_del_def map_of_filter_ne)

lemma heap_get_eq [simp]: "map_of h a = Some n \<Longrightarrow> heap_get h a = Inr n"
  by (simp add: heap_get_def)

lemma heap_put_twice [simp]: "heap_put a n (heap_put a m h) = heap_put a n h"
  by (simp add: heap_put_def filter_filter)

lemma heap_del_put [simp]: "heap_del a (heap_put a n h) = heap_del a h"
  by (simp add: heap_put_def heap_del_def filter_filter)

lemma keys_heap_put:
  "distinct (map fst h) \<Longrightarrow> distinct (map fst (heap_put a n h))"
  by (auto simp: heap_put_def distinct_map_filter)

lemma keys_heap_del: "distinct (map fst h) \<Longrightarrow> distinct (map fst (heap_del a h))"
  by (simp add: heap_del_def distinct_map_filter)

lemma card_dom_heap: "distinct (map fst h) \<Longrightarrow> card (dom (map_of h)) = length h"
  by (simp add: dom_map_of_conv_image_fst) (metis distinct_card length_map set_map)

section \<open>The representation\<close>

text \<open>The references taken from a packed pointer beyond the first one.\<close>

definition excess :: "u64 \<Rightarrow> 30 word" where
  "excess c = ucast (GET_COUNT c - 1)"

fun chain :: "(u64 \<Rightarrow> 'a node option) \<Rightarrow> 30 word \<Rightarrow> 30 word \<Rightarrow> u64 list \<Rightarrow> 'a list \<Rightarrow> bool" where
  "chain m eh et [a] [] \<longleftrightarrow>
     m a = Some \<lparr>node_data = None, internal_count = - eh - et, external_counters = 2, node_next = 0\<rparr>"
| "chain m eh et (a # b # as) (x # xs) \<longleftrightarrow>
     m a = Some \<lparr>node_data = Some x, internal_count = - eh, external_counters = 1,
                 node_next = cnp 1 b\<rparr> \<and>
     chain m 0 et (b # as) xs"
| "chain m eh et _ _ \<longleftrightarrow> False"

definition count_ok :: "u64 \<Rightarrow> bool" where
  "count_ok c \<longleftrightarrow> GET_COUNT c \<noteq> 65535"

definition lf_rep :: "'a lfq \<Rightarrow> u64 list \<Rightarrow> 'a list \<Rightarrow> bool" where
  "lf_rep q as xs \<longleftrightarrow>
     distinct as \<and> (\<forall>a \<in> set as. a \<noteq> 0 \<and> addr48 a) \<and>
     distinct (map fst (heap q)) \<and> dom (map_of (heap q)) = set as \<and>
     GET_PTR (head q) = hd as \<and> GET_PTR (tail q) = last as \<and>
     count_ok (head q) \<and> count_ok (tail q) \<and>
     chain (map_of (heap q)) (excess (head q)) (excess (tail q)) as xs \<and>
     q_size q = of_nat (length xs)"

lemma chain_length: "chain m eh et as xs \<Longrightarrow> length as = Suc (length xs)"
  by (induction m eh et as xs rule: chain.induct) auto

lemma chain_nonempty: "chain m eh et as xs \<Longrightarrow> as \<noteq> []"
  by (cases as) auto

lemma rep_nonempty: "lf_rep q as xs \<Longrightarrow> as \<noteq> []"
  using chain_nonempty by (auto simp: lf_rep_def)

lemma rep_last_in: "lf_rep q as xs \<Longrightarrow> last as \<in> set as"
  by (simp add: rep_nonempty)

lemma chain_cong:
  "chain m eh et as xs \<Longrightarrow> (\<And>a. a \<in> set as \<Longrightarrow> m' a = m a) \<Longrightarrow> chain m' eh et as xs"
  by (induction m eh et as xs rule: chain.induct) auto

text \<open>The last node of the chain, and what becomes of the chain when a push fills it.\<close>

lemma chain_Nil: "chain m eh et as [] \<Longrightarrow> as = [last as]"
  by (cases as; cases "tl as") auto

lemma rep_Nil: "lf_rep q as [] \<Longrightarrow> as = [last as]"
  unfolding lf_rep_def by (elim conjE) (rule chain_Nil)

lemma chain_last:
  "chain m eh et as xs \<Longrightarrow>
    m (last as) = Some \<lparr>node_data = None,
        internal_count = - (if xs = [] then eh else 0) - et,
        external_counters = 2, node_next = 0\<rparr>"
  by (induction m eh et as xs rule: chain.induct) auto

lemma chain_snoc:
  assumes "chain m eh et as xs" "distinct as" "b \<notin> set as"
  shows "chain (m(last as \<mapsto> \<lparr>node_data = Some x,
              internal_count = - (if xs = [] then eh else 0),
              external_counters = 1, node_next = cnp 1 b\<rparr>,
            b \<mapsto> \<lparr>node_data = None, internal_count = 0, external_counters = 2, node_next = 0\<rparr>))
          eh 0 (as @ [b]) (xs @ [x])"
  using assms
proof (induction m eh et as xs rule: chain.induct)
  case (2 m eh et a c as y ys)
  then have "a \<noteq> b" "a \<noteq> last (c # as)" by (auto simp: last_ConsR)
  with 2 show ?case by (auto split: if_splits)
qed auto


section \<open>Counts\<close>

lemma GET_COUNT_inc:
  assumes "count_ok c"
  shows "GET_COUNT (inc_count c) = GET_COUNT c + 1"
proof -
  let ?n = "uint (GET_COUNT c)"
  have lt: "?n < 2 ^ 16"
    by (metis GET_COUNT_cnp cnp_GET take_bit_eq_mask and_mask_lt_2p)
  moreover from assms have "?n \<noteq> 65535"
    by (metis count_ok_def word_of_int_numeral word_of_int_uint)
  ultimately have le: "?n + 1 < 2 ^ 16" by simp
  then have "uint (GET_COUNT c + 1) = ?n + 1"
    by (simp add: uint_word_ariths)
  with le have "take_bit 16 (GET_COUNT c + 1) = GET_COUNT c + 1"
    by (simp add: take_bit_eq_mask mask_eq_iff)
  moreover have "inc_count c = cnp (GET_COUNT c + 1) (GET_PTR c)"
    by (metis addr48_GET_PTR cnp_GET inc_count_cnp)
  ultimately show ?thesis by simp
qed

lemma count_increase_inc:
  assumes "count_ok c"
  shows "ucast (count_increase (inc_count c)) = excess c"
proof -
  have "(ucast (ucast x :: i32) :: 30 word) = ucast x" for x :: u64
    by (rule bit_word_eqI) (auto simp: bit_simps)
  with GET_COUNT_inc [OF assms] show ?thesis
    by (simp add: count_increase_def excess_def)
qed

lemma SET_COUNT_inc [simp]: "SET_COUNT c (GET_COUNT (inc_count c)) = inc_count c"
  by (metis addr48_GET_PTR cnp_GET SET_COUNT_cnp GET_PTR_inc_count)

lemma excess_cnp_1 [simp]: "excess (cnp 1 p) = 0"
  by (simp add: excess_def)

lemma count_ok_cnp_1 [simp]: "count_ok (cnp 1 p)"
  by (simp add: count_ok_def)

lemma increase_same [simp]: "increase_external_count c c = Some (inc_count c, inc_count c)"
  by (simp add: increase_external_count_def Let_def)

lemma lf_exec_final [simp]: "final pc \<Longrightarrow> lf_exec env n pc q = Inr (pc, q)"
  by (cases n) auto

section \<open>A push that runs alone\<close>

definition lf_pushed :: "'a lfq \<Rightarrow> u64 \<Rightarrow> bool \<Rightarrow> u64 \<Rightarrow> 'a \<Rightarrow> 'a lfq" where
  "lf_pushed q t emp b x =
     q\<lparr>heap := heap_put t \<lparr>node_data = Some x,
              internal_count = - (if emp then excess (head q) else 0),
              external_counters = 1, node_next = cnp 1 b\<rparr> (heap_put b (new_node None) (heap q)),
       tail := cnp 1 b, push_count := push_count q + 1, q_size := q_size q + 1\<rparr>"

lemma exec_push:
  assumes rep: "lf_rep q as xs"
    and b: "alloc_ok (heap q) (ch_addr (env q))" and cl: "ch_data (env q) = None"
    and ns: "\<And>q. \<not> ch_spurious (env q)"
  shows "lf_exec env (10 + n) (Push_start x) q = Inr (Push_ret,
    lf_pushed q (last as) (xs = []) (ch_addr (env q)) x)"
proof -
  let ?t = "last as"
  have as: "as \<noteq> []" "?t \<in> set as" "GET_PTR (tail q) = ?t" "count_ok (tail q)"
    using rep rep_nonempty [OF rep] by (auto simp: lf_rep_def)
  have t: "map_of (heap q) ?t = Some \<lparr>node_data = None,
        internal_count = - (if xs = [] then excess (head q) else 0) - excess (tail q),
        external_counters = 2, node_next = 0\<rparr>"
    by (rule chain_last) (use rep in \<open>simp add: lf_rep_def\<close>)
  have "?t \<noteq> ch_addr (env q)" "addr48 (ch_addr (env q))"
    using b t by (auto simp: alloc_ok_def)
  with as t b cl ns count_increase_inc [OF as(4)] show ?thesis
    by (simp add: eval_nat_numeral alloc_node_def put_node_def after_count_def lf_pushed_def)
qed

lemma rep_push:
  assumes rep: "lf_rep q as xs" and b: "alloc_ok (heap q) b"
  shows "lf_rep (lf_pushed q (last as) (xs = []) b x) (as @ [b]) (xs @ [x])"
proof -
  have nb: "b \<notin> set as" and as: "as \<noteq> []"
    using b rep rep_nonempty by (metis alloc_ok_def domIff lf_rep_def) (rule rep_nonempty [OF rep])
  then have t: "last as \<noteq> b" by auto
  have "chain (map_of (heap_put (last as) \<lparr>node_data = Some x,
              internal_count = - (if xs = [] then excess (head q) else 0),
              external_counters = 1, node_next = cnp 1 b\<rparr>
            (heap_put b (new_node None) (heap q)))) (excess (head q)) 0 (as @ [b]) (xs @ [x])"
    using chain_snoc [of "map_of (heap q)" "excess (head q)" "excess (tail q)" as xs b x]
      rep nb t by (simp add: lf_rep_def new_node_def fun_upd_twist)
  with rep b nb as show ?thesis
    by (auto simp: lf_rep_def alloc_ok_def keys_heap_put hd_append lf_pushed_def)
qed

section \<open>A pop that runs alone\<close>

text \<open>On an empty queue pop returns before it touches a count.\<close>

lemma exec_pop_empty:
  assumes "lf_rep q as []"
  shows "lf_exec env (2 + n) Pop_start q = Inr (Pop_ret None, q)"
proof -
  from assms have "length as = 1" using chain_length by (fastforce simp: lf_rep_def)
  then have "hd as = last as" by (cases as) auto
  with assms show ?thesis by (simp add: eval_nat_numeral lf_rep_def)
qed

lemma lfq_pop_meet: "GET_PTR (head q) = GET_PTR (tail q) \<Longrightarrow> lfq_pop q = Inr (None, q)"
  by (simp add: lfq_pop_def eval_nat_numeral)

lemma lfq_pop_new: "lfq_new ch = Inr q \<Longrightarrow> lfq_pop q = Inr (None, q)"
  by (rule lfq_pop_meet) (auto simp: lfq_new_def bindE_eq_Inr Let_def)

lemma exec_pop:
  assumes rep: "lf_rep q (a # b # as) (x # xs)"
  shows "lf_exec env (14 + n) Pop_start q = Inr (Pop_ret (Some x),
    q\<lparr>head := cnp 1 b, heap := heap_del a (heap q),
      destruct_count := destruct_count q + 1, pop_count := pop_count q + 1,
      q_size := q_size q - 1\<rparr>)"
proof -
  have a: "map_of (heap q) a = Some \<lparr>node_data = Some x, internal_count = - excess (head q),
      external_counters = 1, node_next = cnp 1 b\<rparr>" "GET_PTR (head q) = a"
      "count_ok (head q)" "GET_PTR (tail q) = last (b # as)"
    using rep by (auto simp: lf_rep_def)
  have la: "last (b # as) \<noteq> a"
    using rep last_in_set [of "b # as"] by (auto simp: lf_rep_def simp del: last.simps)
  from a show ?thesis
    using count_increase_inc [OF a(3)] la
    by (simp add: eval_nat_numeral put_node_def after_count_def free_node_def)
qed

lemma rep_pop:
  assumes rep: "lf_rep q (a # b # as) (x # xs)"
  shows "lf_rep (q\<lparr>head := cnp 1 b, heap := heap_del a (heap q),
      destruct_count := dc, pop_count := pc,
      q_size := q_size q - 1\<rparr>) (b # as) xs"
proof -
  have "chain (map_of (heap_del a (heap q))) 0 (excess (tail q)) (b # as) xs"
    using rep by (auto simp: lf_rep_def intro: chain_cong)
  with rep show ?thesis by (auto simp: lf_rep_def keys_heap_del)
qed


lemma exec_pop_any:
  assumes rep: "lf_rep q as xs"
  shows "\<exists>q' as'. lf_exec env 16 Pop_start q = Inr (Pop_ret (case xs of [] \<Rightarrow> None | x # _ \<Rightarrow> Some x), q') \<and>
    lf_rep q' as' (tl xs)"
proof (cases xs)
  case Nil
  with exec_pop_empty [of q as env 14] rep show ?thesis by auto
next
  case (Cons x ys)
  obtain a b as' where as: "as = a # b # as'"
    using rep chain_length [of _ _ _ as "x # ys"] Cons
    by (cases as; cases "tl as") (auto simp: lf_rep_def)
  with rep Cons have rep': "lf_rep q (a # b # as') (x # ys)" by simp
  show ?thesis using exec_pop [OF rep', of env 2] rep_pop [OF rep'] Cons by auto
qed

section \<open>The allocator\<close>

lemma find_SomeD: "find P [1..<k] = Some n \<Longrightarrow> P n \<and> 1 \<le> n \<and> n < k"
  using nth_mem [of _ "[1..<k]"] by (auto simp: find_Some_iff simp del: upt_Suc)

lemma first_fit_ok:
  assumes "length h < 2 ^ 48 - 1"
  shows "alloc_ok h (first_fit h)"
proof -
  obtain i where i: "i \<in> {1..<length h + 2}" "i \<notin> set (map (unat \<circ> fst) h)"
    using fresh_index [of "map (unat \<circ> fst) h" "length h"] by auto
  have "map_of h (of_nat i) = None"
  proof (rule ccontr)
    assume "map_of h (of_nat i) \<noteq> None"
    then have "(of_nat i :: u64) \<in> fst ` set h" by (simp add: map_of_eq_None_iff)
    moreover have "unat (of_nat i :: u64) = i"
      using i assms by (intro unat_of_nat_u64) simp
    ultimately show False using i(2) by force
  qed
  with i(1) have "find (\<lambda>n. map_of h (of_nat n) = None) [1..<length h + 2] \<noteq> None"
    by (auto simp: find_None_iff simp del: upt_Suc)
  then obtain n where n: "find (\<lambda>n. map_of h (of_nat n) = None) [1..<length h + 2] = Some n"
    by blast
  then have "map_of h (of_nat n) = None" "1 \<le> n" "n < length h + 2"
    using find_SomeD [OF n] by simp_all
  from this(3) assms have lt: "n < 2 ^ 48" by linarith
  have "unat (of_nat n :: u64) = n"
    by (rule unat_of_nat_u64) (use lt in simp)
  then have "(of_nat n :: u64) \<noteq> 0"
    using \<open>1 \<le> n\<close> by (metis not_one_le_zero unat_0)
  with \<open>map_of h (of_nat n) = None\<close> addr48_of_nat [OF lt] show ?thesis
    unfolding first_fit_def n alloc_ok_def by simp
qed

section \<open>The interface\<close>

fun walk :: "nat \<Rightarrow> (u64 \<times> 'a node) list \<Rightarrow> u64 \<Rightarrow> 'a list" where
  "walk 0 h a = []"
| "walk (Suc n) h a =
     (case map_of h a of
        None \<Rightarrow> []
      | Some nd \<Rightarrow> (case node_data nd of
            None \<Rightarrow> []
          | Some x \<Rightarrow> x # walk n h (GET_PTR (node_next nd))))"

definition lfq_contents :: "'a lfq \<Rightarrow> 'a list" where
  "lfq_contents q = walk (length (heap q)) (heap q) (GET_PTR (head q))"

definition lfq_invar :: "'a lfq \<Rightarrow> bool" where
  "lfq_invar q \<longleftrightarrow> (\<exists>as. lf_rep q as (lfq_contents q))"

definition lfq_room :: nat where
  "lfq_room = 2 ^ 31 - 1"

lemma walk_chain:
  "chain (map_of h) eh et as xs \<Longrightarrow> (\<forall>a \<in> set as. addr48 a) \<Longrightarrow> length as \<le> n \<Longrightarrow>
    walk n h (hd as) = xs"
proof (induction "map_of h" eh et as xs arbitrary: n rule: chain.induct)
  case (1 eh et a)
  then show ?case by (cases n) auto
next
  case (2 eh et a b as x xs)
  then show ?case by (cases n) auto
qed auto

lemma rep_heap_length: "lf_rep q as xs \<Longrightarrow> length (heap q) = length as"
  using card_dom_heap [of "heap q"] by (simp add: lf_rep_def distinct_card del: dom_map_of_conv_image_fst)

lemma rep_contents: "lf_rep q as xs \<Longrightarrow> lfq_contents q = xs"
  using walk_chain rep_heap_length by (fastforce simp: lf_rep_def lfq_contents_def)

lemma rep_invar: "lf_rep q as xs \<Longrightarrow> lfq_invar q"
  using rep_contents by (auto simp: lfq_invar_def)


section \<open>The laws of the interface\<close>

lemma lfq_push_rep:
  assumes rep: "lf_rep q as xs" and len: "length xs < 2 ^ 48 - 2"
  shows "\<exists>q' b. lfq_push x q = Inr q' \<and> lf_rep q' (as @ [b]) (xs @ [x])"
proof -
  have "length (heap q) < 2 ^ 48 - 1"
    using rep_heap_length [OF rep] chain_length rep len by (fastforce simp: lf_rep_def)
  then have b: "alloc_ok (heap q) (ch_addr (solo_choice q))" "ch_data (solo_choice q) = None"
    by (simp_all add: solo_choice_def first_fit_ok)
  show ?thesis
    using exec_push [where env = solo_choice, OF rep b, where n = 6 and x = x] rep_push [OF rep b(1), where x = x]
    by (auto simp: lfq_push_def solo_choice_def)
qed

lemma lfq_pop_rep_Nil: "lf_rep q as [] \<Longrightarrow> lfq_pop q = Inr (None, q)"
  using exec_pop_empty [of q as _ 14] by (simp add: lfq_pop_def)

lemma lfq_pop_rep_Cons:
  assumes rep: "lf_rep q as (x # xs)"
  shows "\<exists>q'. lfq_pop q = Inr (Some x, q') \<and> lf_rep q' (tl as) xs"
proof -
  obtain a b as' where as: "as = a # b # as'"
    using rep chain_length [of _ _ _ as "x # xs"]
    by (cases as; cases "tl as") (auto simp: lf_rep_def)
  with rep have rep': "lf_rep q (a # b # as') (x # xs)" by simp
  show ?thesis
    using exec_pop [OF rep', of _ 2] rep_pop [OF rep'] as by (simp add: lfq_pop_def)
qed

interpretation lfq: sized_fifo lfq_push lfq_pop lfq_contents lfq_invar lfq_room q_size
proof unfold_locales
  fix q :: "'a lfq" and x
  assume "lfq_invar q" and room: "length (lfq_contents q) < lfq_room"
  then obtain as where rep: "lf_rep q as (lfq_contents q)" by (auto simp: lfq_invar_def)
  from room have "length (lfq_contents q) < 2 ^ 48 - 2" by (simp add: lfq_room_def)
  from lfq_push_rep [OF rep this, of x]
  show "\<exists>q'. lfq_push x q = Inr q' \<and> lfq_invar q' \<and> lfq_contents q' = lfq_contents q @ [x]"
    by (metis rep_contents rep_invar)
next
  fix q :: "'a lfq"
  assume "lfq_invar q" "lfq_contents q = []"
  then show "\<exists>q'. lfq_pop q = Inr (None, q') \<and> lfq_invar q' \<and> lfq_contents q' = []"
    by (metis lfq_invar_def lfq_pop_rep_Nil)
next
  fix q :: "'a lfq" and x xs
  assume "lfq_invar q" "lfq_contents q = x # xs"
  then obtain as where "lf_rep q as (x # xs)" by (auto simp: lfq_invar_def)
  from lfq_pop_rep_Cons [OF this]
  show "\<exists>q'. lfq_pop q = Inr (Some x, q') \<and> lfq_invar q' \<and> lfq_contents q' = xs"
    by (metis rep_contents rep_invar)
next
  fix q :: "'a lfq"
  assume "lfq_invar q"
  then show "q_size q = of_nat (length (lfq_contents q))"
    by (auto simp: lfq_invar_def lf_rep_def)
qed

section \<open>Construction and destruction\<close>

lemma lfq_new_rep:
  assumes "alloc_ok [] (ch_addr ch)" "ch_data ch = None"
  shows "\<exists>q. lfq_new ch = Inr q \<and> lf_rep q [ch_addr ch] []"
  using assms
  by (simp add: lfq_new_def alloc_node_def Let_def lf_rep_def alloc_ok_def new_node_def heap_put_def)

lemma drain_rep:
  assumes "lf_rep q as xs" "length xs < n"
  shows "\<exists>q'. drain n q = Inr (xs, q') \<and> lf_rep q' [last as] []"
  using assms
proof (induction n arbitrary: q as xs)
  case (Suc n)
  show ?case
  proof (cases xs)
    case Nil
    with Suc.prems have "lfq_pop q = Inr (None, q)" "lf_rep q [last as] []"
      using lfq_pop_rep_Nil [of q as] rep_Nil [of q as] by auto
    with Nil show ?thesis by simp
  next
    case (Cons x ys)
    with Suc.prems obtain q' where q': "lfq_pop q = Inr (Some x, q')" "lf_rep q' (tl as) ys"
      using lfq_pop_rep_Cons [of q as x ys] by auto
    with Cons Suc.prems Suc.IH [OF q'(2)] rep_nonempty [OF q'(2)] show ?thesis
      by (auto simp: last_tl)
  qed
qed simp


text \<open>The queue the constructor builds when the allocator answers 1, and the queue got from it
  by pushing a list.\<close>

definition lfq_empty :: "'a lfq" where
  "lfq_empty = \<lparr>head = cnp 1 1, tail = cnp 1 1, heap = [(1, new_node None)], destruct_count = 0,
     q_size = 0, push_count = 0, pop_count = 0\<rparr>"

lemma addr48_1 [simp]: "addr48 1"
  by (simp add: addr48_iff)

lemma lfq_new_empty:
  "lfq_new \<lparr>ch_addr = 1, ch_data = None, ch_junk = junk, ch_spurious = sp\<rparr> = Inr lfq_empty"
  by (simp add: lfq_new_def alloc_node_def alloc_ok_def Let_def lfq_empty_def heap_put_def)

lemma lfq_empty_rep: "lf_rep lfq_empty [1] []"
  by (simp add: lf_rep_def lfq_empty_def new_node_def)

lemma lfq_empty_invar [simp]: "lfq_invar lfq_empty" "lfq_contents lfq_empty = []"
  using lfq_empty_rep rep_invar rep_contents by auto

definition lfq_of :: "'a list \<Rightarrow> 'a lfq" where
  "lfq_of xs = (case push_all lfq_push xs lfq_empty of Inl _ \<Rightarrow> lfq_empty | Inr q \<Rightarrow> q)"

lemma lfq_of [simp]:
  assumes "length xs \<le> lfq_room"
  shows "lfq_invar (lfq_of xs)" "lfq_contents (lfq_of xs) = xs"
  using lfq.push_all_law [of lfq_empty xs] assms by (auto simp: lfq_of_def)

lemma lfq_room_pos [simp]: "0 < lfq_room" "Suc 0 \<le> lfq_room"
  by (simp_all add: lfq_room_def)

section \<open>Properties\<close>

text \<open>C1: on zeroed memory the queue refines a FIFO. On a quiescent queue, a push that no other
  thread disturbs appends its element, and such a pop takes the first element away, or answers
  with nothing and leaves an empty queue as it is; both return within 16 atomic steps, fault
  nowhere, and keep the queue well formed, \<open>size\<close> included. The push allocates one node: wherever
  the allocator puts it, the memory has to be null where the constructor leaves \<open>data\<close> alone
  (\<open>recycled_node_pops_junk\<close> is what happens otherwise).\<close>

theorem lfq_refines_fifo:
  assumes "lfq_invar q" "length (lfq_contents q) < lfq_room"
    and "alloc_ok (heap q) (ch_addr (env q))" "ch_data (env q) = None" "\<And>x. \<not> ch_spurious (env x)"
  shows "(\<exists>q'. lf_exec env 16 (Push_start x) q = Inr (Push_ret, q') \<and> lfq_invar q' \<and>
      lfq_contents q' = lfq_contents q @ [x]) \<and>
    (\<exists>q'. lf_exec env 16 Pop_start q =
        Inr (Pop_ret (case lfq_contents q of [] \<Rightarrow> None | y # _ \<Rightarrow> Some y), q') \<and>
      lfq_invar q' \<and> lfq_contents q' = tl (lfq_contents q))"
proof (intro conjI)
  obtain as where rep: "lf_rep q as (lfq_contents q)" using assms(1) by (auto simp: lfq_invar_def)
  note push = rep_push [OF rep assms(3), where x = x]
  show "\<exists>q'. lf_exec env 16 (Push_start x) q = Inr (Push_ret, q') \<and> lfq_invar q' \<and>
      lfq_contents q' = lfq_contents q @ [x]"
    using exec_push [where env = env, OF rep assms(3,4), where n = 6 and x = x] assms(5)
      rep_invar [OF push] rep_contents [OF push] by simp
  show "\<exists>q'. lf_exec env 16 Pop_start q =
        Inr (Pop_ret (case lfq_contents q of [] \<Rightarrow> None | y # _ \<Rightarrow> Some y), q') \<and>
      lfq_invar q' \<and> lfq_contents q' = tl (lfq_contents q)"
    using exec_pop_any [OF rep] rep_invar rep_contents by (metis (no_types, lifting))
qed

theorem lfq_refines_fifo_witness:
  "\<exists>q'. lf_exec (\<lambda>_. \<lparr>ch_addr = 77, ch_data = None, ch_junk = 12345, ch_spurious = False\<rparr>) 16
      (Push_start (5 :: nat)) lfq_empty = Inr (Push_ret, q') \<and> lfq_contents q' = [5]"
proof -
  have "alloc_ok (heap (lfq_empty :: nat lfq)) 77"
    by (simp add: alloc_ok_def lfq_empty_def addr48_iff)
  then show ?thesis
    using lfq_refines_fifo [of lfq_empty
        "\<lambda>_. \<lparr>ch_addr = 77, ch_data = None, ch_junk = 12345, ch_spurious = False\<rparr>" "5 :: nat"] by auto
qed

text \<open>A push that no other thread disturbs completes from every quiescent state,
  whatever address the allocator answers with, if the memory there is null, and whatever an
  uninitialised variable holds: the new last node is that address, and \<open>size\<close> and \<open>push_count\<close>
  go up by one.\<close>

theorem lf_push_any_allocator:
  assumes "lf_rep q as xs" "alloc_ok (heap q) (ch_addr (env q))" "ch_data (env q) = None" "\<And>q. \<not> ch_spurious (env q)"
  shows "\<exists>q'. lf_exec env 16 (Push_start x) q = Inr (Push_ret, q') \<and>
    lf_rep q' (as @ [ch_addr (env q)]) (xs @ [x]) \<and>
    q_size q' = q_size q + 1 \<and> push_count q' = push_count q + 1"
  using exec_push [where env = env, OF assms(1-3), where n = 6 and x = x] assms(4)
    rep_push [OF assms(1,2), where x = x]
  by (simp add: lf_pushed_def)

theorem lf_push_any_allocator_witness:
  "\<exists>q'. lf_exec (\<lambda>_. \<lparr>ch_addr = 77, ch_data = None, ch_junk = 12345, ch_spurious = False\<rparr>) 16
      (Push_start ''x'') lfq_empty = Inr (Push_ret, q') \<and> lf_rep q' [1, 77] [''x'']"
proof -
  have "alloc_ok (heap (lfq_empty :: string lfq)) 77"
    by (simp add: alloc_ok_def lfq_empty_def addr48_iff)
  then show ?thesis
    using lf_push_any_allocator [OF lfq_empty_rep,
        of "\<lambda>_. \<lparr>ch_addr = 77, ch_data = None, ch_junk = 12345, ch_spurious = False\<rparr>" "''x''"] by auto
qed

text \<open>Nothing leaks. A quiescent queue owns exactly one node per element and one spare, and
  the destructor hands every element to its owner's deleter, in order, and frees every node.\<close>

theorem lfq_no_leak:
  assumes "lfq_invar q"
  shows "length (heap q) = length (lfq_contents q) + 1 \<and>
    (\<exists>q'. lfq_destroy q = Inr (lfq_contents q, q') \<and> heap q' = [])"
proof -
  obtain as where rep: "lf_rep q as (lfq_contents q)" using assms by (auto simp: lfq_invar_def)
  then have len: "length (heap q) = length (lfq_contents q) + 1"
    using rep_heap_length chain_length by (fastforce simp: lf_rep_def)
  then obtain q1 where q1: "drain (length (heap q)) q = Inr (lfq_contents q, q1)"
    "lf_rep q1 [last as] []"
    using drain_rep [OF rep, of "length (heap q)"] by auto
  then have h: "GET_PTR (head q1) = last as" "map_of (heap q1) (last as) \<noteq> None"
    "dom (map_of (heap q1)) = {last as}"
    by (auto simp: lf_rep_def simp del: dom_map_of_conv_image_fst)
  then have "map_of (heap_del (last as) (heap q1)) = Map.empty"
    by (simp flip: dom_eq_empty_conv del: dom_map_of_conv_image_fst)
  then have "heap_del (last as) (heap q1) = []" by (simp only: map_of_eq_empty_iff)
  with len q1 h show ?thesis by (auto simp: lfq_destroy_def free_node_def heap_get_def)
qed

theorem lfq_no_leak_witness:
  "\<exists>q'. lfq_destroy (lfq_of [3, 4 :: nat]) = Inr ([3, 4], q') \<and> heap q' = []"
  using lfq_no_leak [of "lfq_of [3, 4 :: nat]"] by (auto simp: lfq_room_def)

end
