(* ===== verification/LFQueue_Races.thy ===== *)
theory LFQueue_Races
  imports LFQueue_Solo
begin

text \<open>
  Interleavings of the lock-free queue. \<open>push\<close> publishes its element with a
  compare-exchange of the node's data from null, and \<open>pop\<close> puts null back into the node it
  takes the element from. A thread that has already read the tail can therefore store its
  element into a node that has been popped in the meantime; the first schedule does that. The second
  lets a freed address come back under a pop that has read it; and a last section pushes onto memory
  whose old content the constructor of the node does not clear.
\<close>


section \<open>A schedule of three threads\<close>

text \<open>A choice whose allocator answers \<open>a\<close>, and \<open>n\<close> steps of thread \<open>t\<close> with it.\<close>
definition answers :: "u64 \<Rightarrow> 'a choice" where
  "answers a = \<lparr>ch_addr = a, ch_data = None, ch_junk = 0, ch_spurious = False\<rparr>"

definition steps :: "nat \<Rightarrow> nat \<Rightarrow> u64 \<Rightarrow> 'a event list" where
  "steps n t a = replicate n (Step t (answers a))"

definition lost_push_schedule :: "'a \<Rightarrow> 'a \<Rightarrow> u64 \<Rightarrow> u64 \<Rightarrow> 'a event list" where
  "lost_push_schedule x y b c =
     [Call_push 0 x] @ steps 3 0 b @
     [Call_push 1 y] @ steps 10 1 c @
     [Call_pop 2] @ steps 12 2 0 @
     steps 12 0 0"


lemma steps_numeral [simp]:
  "steps 0 t a = []"
  "steps (numeral k) t a = Step t (answers a) # steps (pred_numeral k) t a"
  "steps (Suc n) t a = Step t (answers a) # steps n t a"
  by (simp_all add: steps_def numeral_eq_Suc)

lemma lf_exec_numeral:
  "lf_exec env (numeral k) pc q =
     (if final pc then Inr (pc, q)
      else bindE (lf_step (env q) pc q) (\<lambda>(pc', q'). lf_exec env (pred_numeral k) pc' q'))"
  by (simp add: numeral_eq_Suc)

lemma answers_sel [simp]: "ch_addr (answers a) = a" "ch_data (answers a) = None" "ch_junk (answers a) = 0"
  "\<not> ch_spurious (answers a)"
  by (simp_all add: answers_def)


lemma count_increase_cnp: "count_increase (cnp c p) = ucast (take_bit 16 c - 2)"
  by (simp add: count_increase_def)

lemma increase_cnp: "addr48 p \<Longrightarrow> increase_external_count (cnp c p) (cnp c p) = Some (cnp (c + 1) p, cnp (c + 1) p)"
  using increase_same [of "cnp c p"] by simp

lemma cnp_eq_0: "addr48 p \<Longrightarrow> cnp c p = 0 \<longleftrightarrow> take_bit 16 c = 0 \<and> p = 0"
  using cnp_eq_iff [of p 0 c 0] by simp

lemma walk_stop [simp]: "map_of h a = Some nd \<Longrightarrow> node_data nd = None \<Longrightarrow> walk n h a = []"
  by (cases n) auto

text \<open>
  The second schedule: thread 1 pushes two elements, and then thread 0 starts a pop and reads
  \<open>head\<close>; thread 2 pops the first element, which frees the node, and thread 1 pushes a third
  element, for which the allocator hands the freed address out again. \<open>nonempty_along\<close> says
  that the queue holds an element before, between and after all the steps of a schedule.
\<close>

definition two_pushed_schedule :: "'a \<Rightarrow> 'a \<Rightarrow> u64 \<Rightarrow> u64 \<Rightarrow> 'a event list" where
  "two_pushed_schedule x y b c =
     [Call_push 1 x] @ steps 10 1 b @ [Call_push 1 y] @ steps 10 1 c"

definition stale_head_schedule :: "'a \<Rightarrow> u64 \<Rightarrow> 'a event list" where
  "stale_head_schedule z a =
     [Call_pop 0] @ steps 1 0 0 @
     [Call_pop 2] @ steps 14 2 0 @
     [Call_push 1 z] @ steps 10 1 a @
     steps 1 0 0"

fun nonempty_along :: "'a event list \<Rightarrow> 'a machine \<Rightarrow> bool" where
  "nonempty_along [] (q, pcs) \<longleftrightarrow> lfq_contents q \<noteq> []"
| "nonempty_along (e # es) (q, pcs) \<longleftrightarrow> lfq_contents q \<noteq> [] \<and>
     (case lf_event e (q, pcs) of Inl _ \<Rightarrow> False | Inr m \<Rightarrow> nonempty_along es m)"

lemmas run_defs = lf_trace_def lfq_new_def alloc_node_def Let_def alloc_ok_def put_node_def
  new_node_def after_count_def free_node_def count_increase_cnp increase_cnp cnp_eq_iff cnp_eq_0
  lfq_contents_def

section \<open>Recycled memory\<close>

text \<open>A choice whose allocator answers with memory at \<open>a\<close> that still holds \<open>j\<close>; one that answers with zeroed
  memory at \<open>c\<close>, and when that is taken at \<open>d\<close>.\<close>

definition junk_at :: "u64 \<Rightarrow> 'a \<Rightarrow> 'a choice" where
  "junk_at a j = (answers a)\<lparr>ch_data := Some j\<rparr>"

definition answers2 :: "u64 \<Rightarrow> u64 \<Rightarrow> 'a lfq \<Rightarrow> 'a choice" where
  "answers2 c d q = (if map_of (heap q) c = None then answers c else answers d)"

lemma exec_push_junk:
  assumes rep: "lf_rep q as xs" and b: "alloc_ok (heap q) b"
  shows "lf_exec (\<lambda>_. junk_at b j) 16 (Push_start x) q = Inr (Push_ret,
     q\<lparr>heap := heap_put (last as) \<lparr>node_data = Some x,
              internal_count = - (if xs = [] then excess (head q) else 0),
              external_counters = 1, node_next = cnp 1 b\<rparr> (heap_put b (new_node (Some j)) (heap q)),
       tail := cnp 1 b, push_count := push_count q + 1, q_size := q_size q + 1\<rparr>)"
proof -
  let ?t = "last as"
  have as: "as \<noteq> []" "?t \<in> set as" "GET_PTR (tail q) = ?t" "count_ok (tail q)"
    using rep rep_nonempty [OF rep] by (auto simp: lf_rep_def)
  have t: "map_of (heap q) ?t = Some \<lparr>node_data = None,
        internal_count = - (if xs = [] then excess (head q) else 0) - excess (tail q),
        external_counters = 2, node_next = 0\<rparr>"
    by (rule chain_last) (use rep in \<open>simp add: lf_rep_def\<close>)
  have "?t \<noteq> b" "addr48 b" using b t by (auto simp: alloc_ok_def)
  with as t b count_increase_inc [OF as(4)] show ?thesis
    by (simp add: eval_nat_numeral alloc_node_def put_node_def after_count_def junk_at_def answers_def)
qed

lemma exec_push_help:
  assumes b: "tail q = cnp 1 b" "map_of (heap q) b = Some (new_node (Some j))" "addr48 b"
    and cd: "alloc_ok (heap q) c" "alloc_ok (heap q) d" "c \<noteq> d"
  shows "\<exists>q'. lf_exec (answers2 c d) 31 (Push_start y) q = Inr (Push_ret, q') \<and> head q' = head q \<and>
    tail q' = cnp 1 d \<and> q_size q' = q_size q + 1 \<and> 
    map_of (heap q') = (map_of (heap q))
      (b \<mapsto> \<lparr>node_data = Some j, internal_count = 0, external_counters = 1, node_next = cnp 1 c\<rparr>,
       c \<mapsto> \<lparr>node_data = Some y, internal_count = 0, external_counters = 1, node_next = cnp 1 d\<rparr>,
       d \<mapsto> new_node None) \<and> (distinct (map fst (heap q)) \<longrightarrow> distinct (map fst (heap q')))"
proof -
  have "b \<noteq> c" "b \<noteq> d" "addr48 c" "addr48 d" "c \<noteq> 0" "d \<noteq> 0"
    using b cd by (auto simp: alloc_ok_def)
  moreover from this have "increase_external_count (cnp 1 c) (cnp 2 b) = None" using b(3)
    by (simp add: increase_external_count_def cnp_eq_iff)
  ultimately show ?thesis using b cd
    by (auto simp: eval_nat_numeral answers2_def alloc_node_def put_node_def after_count_def
      new_node_def alloc_ok_def increase_cnp count_increase_cnp cnp_eq_iff cnp_eq_0 keys_heap_put
      fun_upd_twist)
qed


text \<open>\<open>size\<close> is only counted, never looked at.\<close>

abbreviation resized :: "i32 \<Rightarrow> 'a lfq \<Rightarrow> 'a lfq" where
  "resized k q \<equiv> q\<lparr>q_size := q_size q + k\<rparr>"

lemma resized_helpers:
  "heap (resized k q) = heap q" "head (resized k q) = head q" "tail (resized k q) = tail q"
  "alloc_node ch (resized k q) = bindE (alloc_node ch q) (\<lambda>(a, q'). Inr (a, resized k q'))"
  "free_node a (resized k q) = bindE (free_node a q) (\<lambda>q'. Inr (resized k q'))"
  "put_node a nd (resized k q) = resized k (put_node a nd q)"
  by (simp_all add: alloc_node_def free_node_def put_node_def) (simp add: bindE_def split: sum.split)

lemma bindE_cong: "m = m' \<Longrightarrow> (\<And>x. m' = Inr x \<Longrightarrow> f x = g x) \<Longrightarrow> bindE m f = bindE m' g"
  by (cases m') simp_all

lemma lf_step_eq_resized:
  "lf_step ch pc (resized k q) = bindE (lf_step ch pc q) (\<lambda>(pc', q'). Inr (pc', resized k q'))"
  by (cases pc; simp add: resized_helpers bindE_assoc Let_def split_beta cong: bindE_cong split: option.split)
    (auto simp: bindE_def resized_helpers Let_def split: sum.splits option.split)

lemma lf_step_resized:
  "lf_step ch pc q = Inr (pc', q') \<Longrightarrow> lf_step ch pc (resized k q) = Inr (pc', resized k q')"
  unfolding lf_step_eq_resized by simp

lemma lf_exec_resized:
  assumes "lf_exec env n pc q = Inr (pc', q')" "\<And>x. env (resized k x) = env x"
  shows "lf_exec env n pc (resized k q) = Inr (pc', resized k q')"
  using assms(1)
proof (induction n arbitrary: pc q)
  case (Suc n)
  then show ?case
    by (auto simp: bindE_eq_Inr assms(2) lf_step_resized simp del: final_def split: if_splits)
qed (simp split: if_splits del: final_def)

lemma lfq_pop_resized: "lfq_pop q = Inr (r, q') \<Longrightarrow> lfq_pop (resized k q) = Inr (r, resized k q')"
  using lf_exec_resized [of solo_choice 16 Pop_start q _ _ k]
  by (auto simp: lfq_pop_def bindE_eq_Inr solo_choice_def)

lemma pop_n_resized:
  "pop_n lfq_pop n q = Inr (xs, q') \<Longrightarrow> \<exists>q''. pop_n lfq_pop n (resized k q) = Inr (xs, q'')"
proof (induction n arbitrary: q xs)
  case (Suc n)
  then obtain r q1 where r: "lfq_pop q = Inr (r, q1)" by (auto simp: bindE_eq_Inr)
  with Suc show ?case using lfq_pop_resized [OF r, of k]
    by (cases r) (fastforce simp: bindE_eq_Inr)+
qed simp

lemma rep_cong:
  assumes "lf_rep q as xs" "map_of (heap q') = map_of (heap q)" "distinct (map fst (heap q'))"
    and "head q' = head q" "tail q' = tail q" "q_size q' = q_size q"
  shows "lf_rep q' as xs"
  using assms by (simp add: lf_rep_def)

lemma last_snoc_alloc: "lf_rep q as xs \<Longrightarrow> alloc_ok (heap q) b \<Longrightarrow> b \<notin> set as"
  by (metis alloc_ok_def domIff lf_rep_def)

section \<open>Properties\<close>

text \<open>C16: a completed push can be lost. Thread 0 reads the tail and stops; thread 1 pushes
  \<open>y\<close>; thread 2 pops \<open>y\<close>; thread 0 goes on and stores \<open>x\<close> into the node that has
  just been popped. All three operations return, without a fault and whatever addresses the
  allocator hands out; \<open>x\<close> was never popped, yet the queue is empty while \<open>size\<close> says 1.\<close>

theorem lost_push:
  assumes "addr48 a" "addr48 b" "addr48 c" "a \<noteq> 0" "b \<noteq> 0" "c \<noteq> 0" "a \<noteq> b" "a \<noteq> c" "b \<noteq> c"
  shows "\<exists>q0 q pcs. lfq_new (answers a) = Inr q0 \<and>
     lf_trace (lost_push_schedule x y b c) (q0, \<lambda>_. Idle) = Inr (q, pcs) \<and>
     pcs 0 = Push_ret \<and> pcs 1 = Push_ret \<and> pcs 2 = Pop_ret (Some y) \<and>
     lfq_contents q = [] \<and> q_size q = 1 \<and> lfq_pop q = Inr (None, q)"
  using assms
  by (simp add: lost_push_schedule_def run_defs lfq_pop_def lf_exec_numeral)

theorem lost_push_witness:
  "\<exists>q0 q pcs. lfq_new (answers 1) = Inr q0 \<and>
     lf_trace (lost_push_schedule (10 :: nat) 11 2 3) (q0, \<lambda>_. Idle) = Inr (q, pcs) \<and>
     pcs 0 = Push_ret \<and> q_size q = 1 \<and> lfq_pop q = Inr (None, q)"
  using lost_push [of 1 2 3 "10 :: nat" 11] by (auto simp: addr48_iff)

text \<open>C17: a pop can report an empty queue although the queue holds elements during the whole
  call. Its first check loads \<open>head\<close> and \<open>tail\<close> one after the other and compares the
  addresses without holding a reference: when the node read as the head is popped and freed in
  between, and the next push gets the same address from the allocator and makes it the tail,
  the two are equal. No fault occurs and nothing is lost.\<close>

theorem pop_misses_elements:
  assumes "addr48 a" "addr48 b" "addr48 c" "a \<noteq> 0" "b \<noteq> 0" "c \<noteq> 0" "a \<noteq> b" "a \<noteq> c" "b \<noteq> c"
  shows "\<exists>q0 q1 pcs1 q pcs. lfq_new (answers a) = Inr q0 \<and>
     lf_trace (two_pushed_schedule x y b c) (q0, \<lambda>_. Idle) = Inr (q1, pcs1) \<and>
     lfq_contents q1 = [x, y] \<and>
     nonempty_along (stale_head_schedule z a) (q1, pcs1) \<and>
     lf_trace (stale_head_schedule z a) (q1, pcs1) = Inr (q, pcs) \<and>
     pcs 0 = Pop_ret None \<and> pcs 2 = Pop_ret (Some x) \<and> lfq_contents q = [y, z]"
  using assms
  by (simp add: two_pushed_schedule_def stale_head_schedule_def run_defs heap_put_def heap_del_def)

theorem pop_misses_elements_witness:
  "\<exists>q0 q1 pcs1 q pcs. lfq_new (answers 1) = Inr q0 \<and>
     lf_trace (two_pushed_schedule (11 :: nat) 12 2 3) (q0, \<lambda>_. Idle) = Inr (q1, pcs1) \<and>
     nonempty_along (stale_head_schedule 13 1) (q1, pcs1) \<and>
     lf_trace (stale_head_schedule 13 1) (q1, pcs1) = Inr (q, pcs) \<and>
     pcs 0 = Pop_ret None \<and> lfq_contents q = [12, 13]"
  using pop_misses_elements [of 1 2 3 "11 :: nat" 12 13]
  by (simp only: addr48_iff) (auto simp: lf_trace_def)

text \<open>C38: a node in recycled memory makes a pop answer with junk. The constructor of a node leaves \<open>data\<close>
  as the memory is. When the node that a push allocates lies at an address that still holds \<open>j\<close>, that
  push succeeds and the next one, which finds \<open>j\<close> where it wants to put its element, takes the
  node for one that another push has filled and goes on behind it: both return, \<open>size\<close> is up by two,
  and the queue holds three elements more, of which \<open>j\<close> was never pushed; the pops hand it out
  as the pointer of an element.\<close>

theorem recycled_node_pops_junk:
  assumes inv: "lfq_invar q" "length (lfq_contents q) + 3 < lfq_room"
    and mem: "alloc_ok (heap q) b" "alloc_ok (heap q) c" "alloc_ok (heap q) d" "distinct [b, c, d]"
  shows "\<exists>q1 q2 q3. lf_exec (\<lambda>_. junk_at b j) 16 (Push_start x) q = Inr (Push_ret, q1) \<and>
    lf_exec (answers2 c d) 31 (Push_start y) q1 = Inr (Push_ret, q2) \<and>
    q_size q2 = of_nat (length (lfq_contents q)) + 2 \<and>
    pop_n lfq_pop (length (lfq_contents q) + 3) q2 = Inr (lfq_contents q @ [x, j, y], q3)"
proof -
  define xs where "xs = lfq_contents q"
  obtain as where rep: "lf_rep q as xs" using inv(1) by (auto simp: lfq_invar_def xs_def)
  let ?p = "lf_pushed q (last as) (xs = []) b x"
  let ?pp = "lf_pushed ?p b False c j"
  have nb: "b \<notin> set as" by (rule last_snoc_alloc [OF rep mem(1)])
  have las: "last as \<in> set as" using rep_nonempty [OF rep] by simp
  have al: "addr48 b" "b \<noteq> 0" "map_of (heap q) c = None" "map_of (heap q) d = None"
    "last as \<noteq> b" "last as \<noteq> c" "last as \<noteq> d"
    using mem nb las rep by (auto simp: alloc_ok_def lf_rep_def)
  have r1: "lf_rep ?p (as @ [b]) (xs @ [x])" by (rule rep_push [OF rep mem(1)])
  have ac: "alloc_ok (heap ?p) c" "alloc_ok (heap ?p) d" using mem al by (auto simp: alloc_ok_def lf_pushed_def)
  have r2: "lf_rep ?pp (as @ [b, c]) (xs @ [x, j])" using rep_push [OF r1 ac(1), of j] by simp
  have "alloc_ok (heap ?pp) d" using mem al by (auto simp: alloc_ok_def lf_pushed_def)
  from rep_push [OF r2 this, of y]
  have r3: "lf_rep (lf_pushed ?pp c False d y) (as @ [b, c, d]) (xs @ [x, j, y])" by simp
  let ?q1 = "q\<lparr>heap := heap_put (last as) \<lparr>node_data = Some x,
              internal_count = - (if xs = [] then excess (head q) else 0),
              external_counters = 1, node_next = cnp 1 b\<rparr> (heap_put b (new_node (Some j)) (heap q)),
       tail := cnp 1 b, push_count := push_count q + 1, q_size := q_size q + 1\<rparr>"
  have q1: "lf_exec (\<lambda>_. junk_at b j) 16 (Push_start x) q = Inr (Push_ret, ?q1)"
    by (rule exec_push_junk [OF rep mem(1)])
  have "alloc_ok (heap ?q1) c" "alloc_ok (heap ?q1) d" "c \<noteq> d" "map_of (heap ?q1) b = Some (new_node (Some j))"
    using mem al by (auto simp: alloc_ok_def)
  from exec_push_help [OF _ this(4) al(1) this(1-3), of y] obtain q2 where
    q2: "lf_exec (answers2 c d) 31 (Push_start y) ?q1 = Inr (Push_ret, q2)" "head q2 = head q" "tail q2 = cnp 1 d"
      "q_size q2 = q_size q + 2" "distinct (map fst (heap q2))"
      "map_of (heap q2) = (map_of (heap ?q1))
        (b \<mapsto> \<lparr>node_data = Some j, internal_count = 0, external_counters = 1, node_next = cnp 1 c\<rparr>,
         c \<mapsto> \<lparr>node_data = Some y, internal_count = 0, external_counters = 1, node_next = cnp 1 d\<rparr>,
         d \<mapsto> new_node None)"
    using rep by (auto simp: lf_rep_def keys_heap_put)
  have "lf_rep (resized 1 q2) (as @ [b, c, d]) (xs @ [x, j, y])"
    by (rule rep_cong [OF r3]) (use q2 mem al in \<open>auto simp: lf_pushed_def fun_upd_twist\<close>)
  from rep_invar [OF this] rep_contents [OF this] lfq.pop_n_law [of "resized 1 q2" "length xs + 3"]
  obtain q3 where "pop_n lfq_pop (length xs + 3) (resized 1 q2) = Inr (xs @ [x, j, y], q3)" by auto
  from pop_n_resized [OF this, of "- 1"] obtain q4 where
    "pop_n lfq_pop (length xs + 3) q2 = Inr (xs @ [x, j, y], q4)" by auto
  moreover have "q_size q = of_nat (length xs)" using rep by (simp add: lf_rep_def)
  ultimately show ?thesis using q1 q2(1,4) unfolding xs_def by auto
qed

theorem recycled_node_pops_junk_witness:
  "\<exists>q1 q2 q3. lf_exec (\<lambda>_. junk_at 2 (99 :: nat)) 16 (Push_start 10) lfq_empty = Inr (Push_ret, q1) \<and>
    lf_exec (answers2 3 4) 31 (Push_start 11) q1 = Inr (Push_ret, q2) \<and>
    pop_n lfq_pop 3 q2 = Inr ([10, 99, 11], q3)"
proof -
  have "alloc_ok (heap (lfq_empty :: nat lfq)) a" if "a \<in> {2, 3, 4}" for a
    using that by (auto simp: alloc_ok_def lfq_empty_def addr48_iff)
  with recycled_node_pops_junk [of lfq_empty 2 3 4 99 "10 :: nat" 11] show ?thesis
    by (auto simp: lfq_room_def)
qed

end
