(* ===== verification/LFQueue_Inv.thy ===== *)
theory LFQueue_Inv
  imports LFQueue_Races
begin

text \<open>
  The invariant of the lock-free queue under any interleaving, and its preservation.

  A linked list runs from \<open>head\<close> to the last node. Its addresses are split into \<open>as\<close>,
  the nodes the tail has passed, and \<open>bs\<close>, which starts at the tail and is at most two long:
  a second node is there only while some thread is about to move the tail. A thread at a
  control point may own a private node (\<open>owns\<close>: the one it is about to link), hold a counted
  reference (\<open>holds\<close>), have moved an end of the queue and not yet settled the references taken
  through it (\<open>pays\<close>), or be about to delete a node (\<open>deletes\<close>). For every allocated node
  the invariant balances its two counters against those threads:

  \<^item> \<open>refs_ok\<close>: the internal count, plus the references handed out through \<open>head\<close> and
    \<open>tail\<close>, plus what the settling threads will still add, minus the holders, is zero
    modulo 2^30;
  \<^item> \<open>marks_ok\<close>: the external counters say how many ends have not passed the node or have
    not been settled; a node with both counters at zero has exactly one deleter; a node
    without a successor is at the tail or private.

  One lemma per kind of step says that the invariant \<open>lf_ok\<close> is kept.
\<close>

section \<open>What a thread has of the queue\<close>

text \<open>The private node of a thread: allocated for the next link, or kept through a helper for
  the next round of push.\<close>

primrec kont_owns :: "'a kont \<Rightarrow> u64 option" where
  "kont_owns K_push_done = None"
| "kont_owns (K_push_again x nn ot) = Some (GET_PTR nn)"
| "kont_owns K_pop_empty = None"
| "kont_owns (K_pop_again oh) = None"
| "kont_owns (K_pop_done r) = None"

primrec owns :: "'a pc \<Rightarrow> u64 option" where
  "owns Idle = None"
| "owns (Push_start x) = None"
| "owns (Push_load x nn) = Some (GET_PTR nn)"
| "owns (Push_inc x nn ot) = Some (GET_PTR nn)"
| "owns (Push_data x nn ot) = Some (GET_PTR nn)"
| "owns (Push_next x nn ot) = Some (GET_PTR nn)"
| "owns (Push_help x nn ot) = Some (GET_PTR nn)"
| "owns (Push_realloc x nn ot) = None"
| "owns (Tail_cas k ot nt cur) = kont_owns k"
| "owns (Ext_load k c) = kont_owns k"
| "owns (Ext_cas k c ic ec) = kont_owns k"
| "owns (Rel_load k p) = kont_owns k"
| "owns (Rel_cas k p ic ec) = kont_owns k"
| "owns (Delete k p) = kont_owns k"
| "owns (Count_destruct k) = kont_owns k"
| "owns Push_count = None"
| "owns Push_size = None"
| "owns Push_ret = None"
| "owns Pop_start = None"
| "owns (Pop_check h) = None"
| "owns Pop_load = None"
| "owns (Pop_inc oh) = None"
| "owns (Pop_tail oh) = None"
| "owns (Pop_next oh) = None"
| "owns (Pop_cas oh nx) = None"
| "owns (Pop_data oh) = None"
| "owns (Pop_count r) = None"
| "owns (Pop_size r) = None"
| "owns (Pop_ret r) = None"

text \<open>The node a thread has a counted reference to.\<close>

primrec holds :: "'a pc \<Rightarrow> u64 option" where
  "holds Idle = None"
| "holds (Push_start x) = None"
| "holds (Push_load x nn) = None"
| "holds (Push_inc x nn ot) = None"
| "holds (Push_data x nn ot) = Some (GET_PTR ot)"
| "holds (Push_next x nn ot) = Some (GET_PTR ot)"
| "holds (Push_help x nn ot) = Some (GET_PTR ot)"
| "holds (Push_realloc x nn ot) = Some (GET_PTR ot)"
| "holds (Tail_cas k ot nt cur) = Some cur"
| "holds (Ext_load k c) = None"
| "holds (Ext_cas k c ic ec) = None"
| "holds (Rel_load k p) = Some p"
| "holds (Rel_cas k p ic ec) = Some p"
| "holds (Delete k p) = None"
| "holds (Count_destruct k) = None"
| "holds Push_count = None"
| "holds Push_size = None"
| "holds Push_ret = None"
| "holds Pop_start = None"
| "holds (Pop_check h) = None"
| "holds Pop_load = None"
| "holds (Pop_inc oh) = None"
| "holds (Pop_tail oh) = Some (GET_PTR oh)"
| "holds (Pop_next oh) = Some (GET_PTR oh)"
| "holds (Pop_cas oh nx) = Some (GET_PTR oh)"
| "holds (Pop_data oh) = None"
| "holds (Pop_count r) = None"
| "holds (Pop_size r) = None"
| "holds (Pop_ret r) = None"

text \<open>The packed pointer whose references a thread is about to settle, the node it is about to
  delete, and the node it is about to move the tail away from.\<close>

definition pays :: "'a pc \<Rightarrow> u64 option" where
  "pays pc = (case pc of Ext_load k c \<Rightarrow> Some c | Ext_cas k c ic ec \<Rightarrow> Some c
     | Pop_data oh \<Rightarrow> Some oh | _ \<Rightarrow> None)"

definition deletes :: "'a pc \<Rightarrow> u64 option" where
  "deletes pc = (case pc of Delete k p \<Rightarrow> Some p | _ \<Rightarrow> None)"

definition moves_tail :: "'a pc \<Rightarrow> u64 option" where
  "moves_tail pc = (case pc of Push_realloc x nn ot \<Rightarrow> Some (GET_PTR ot)
     | Tail_cas k ot nt cur \<Rightarrow> Some cur | _ \<Rightarrow> None)"

section \<open>Sums over the threads\<close>

definition thread_sum :: "nat \<Rightarrow> ('p \<Rightarrow> 'b::comm_monoid_add) \<Rightarrow> (nat \<Rightarrow> 'p) \<Rightarrow> 'b" where
  "thread_sum n f pcs = (\<Sum>t<n. f (pcs t))"

lemma thread_sum_upd:
  fixes f :: "'p \<Rightarrow> 'b::ab_group_add"
  assumes "t < n"
  shows "thread_sum n f (pcs(t := pc)) = thread_sum n f pcs + (f pc - f (pcs t))"
proof -
  have "(\<Sum>s<n. f ((pcs(t := pc)) s)) = f pc + (\<Sum>s\<in>{..<n} - {t}. f ((pcs(t := pc)) s))"
    using assms by (subst sum.remove [of _ t]) auto
  also have "(\<Sum>s\<in>{..<n} - {t}. f ((pcs(t := pc)) s)) = (\<Sum>s\<in>{..<n} - {t}. f (pcs s))"
    by (rule sum.cong) auto
  also have "(\<Sum>s<n. f (pcs s)) = f (pcs t) + (\<Sum>s\<in>{..<n} - {t}. f (pcs s))"
    using assms by (subst sum.remove [of _ t]) auto
  ultimately show ?thesis by (simp add: thread_sum_def algebra_simps)
qed

text \<open>How many threads satisfy a predicate.\<close>

definition thread_count :: "nat \<Rightarrow> ('p \<Rightarrow> bool) \<Rightarrow> (nat \<Rightarrow> 'p) \<Rightarrow> int" where
  "thread_count n P = thread_sum n (\<lambda>pc. of_bool (P pc))"

lemma thread_count_upd:
  "t < n \<Longrightarrow> thread_count n P (pcs(t := pc)) =
     thread_count n P pcs + (of_bool (P pc) - of_bool (P (pcs t)))"
  by (simp add: thread_count_def thread_sum_upd)

lemma thread_count_nonneg [simp]: "0 \<le> thread_count n P pcs"
  by (simp add: thread_count_def thread_sum_def sum_nonneg)

lemma thread_count_eq_0: "thread_count n P pcs = 0 \<longleftrightarrow> (\<forall>t<n. \<not> P (pcs t))"
  by (auto simp: thread_count_def thread_sum_def sum_nonneg_eq_0_iff)

lemma thread_count_ge_1: "t < n \<Longrightarrow> P (pcs t) \<Longrightarrow> 1 \<le> thread_count n P pcs"
  using thread_count_nonneg [of n P pcs] thread_count_eq_0 [of n P pcs]
  by (metis int_one_le_iff_zero_less order_le_less)

section \<open>The invariant\<close>

text \<open>The successor of an allocated node, 0 for any other address.\<close>

definition nxt :: "'a lfq \<Rightarrow> u64 \<Rightarrow> u64" where
  "nxt q a = (case map_of (heap q) a of None \<Rightarrow> 0 | Some nd \<Rightarrow> node_next nd)"

primrec kont_ok :: "'a kont \<Rightarrow> bool" where
  "kont_ok K_push_done \<longleftrightarrow> True"
| "kont_ok (K_push_again x nn ot) \<longleftrightarrow> GET_COUNT nn = 1"
| "kont_ok K_pop_empty \<longleftrightarrow> True"
| "kont_ok (K_pop_again oh) \<longleftrightarrow> True"
| "kont_ok (K_pop_done r) \<longleftrightarrow> True"

text \<open>A node that was the tail once is not ahead of the tail.\<close>

definition not_ahead :: "u64 list \<Rightarrow> u64 \<Rightarrow> bool" where
  "not_ahead bs a \<longleftrightarrow> (a \<in> set bs \<longrightarrow> a = hd bs)"

text \<open>What the registers of a control point satisfy, beyond what the thread holds and owns.\<close>

primrec pc_ok :: "'a lfq \<Rightarrow> u64 list \<Rightarrow> 'a pc \<Rightarrow> bool" where
  "pc_ok q bs Idle \<longleftrightarrow> True"
| "pc_ok q bs (Push_start x) \<longleftrightarrow> True"
| "pc_ok q bs (Push_load x nn) \<longleftrightarrow> GET_COUNT nn = 1"
| "pc_ok q bs (Push_inc x nn ot) \<longleftrightarrow> GET_COUNT nn = 1"
| "pc_ok q bs (Push_data x nn ot) \<longleftrightarrow> GET_COUNT nn = 1 \<and> not_ahead bs (GET_PTR ot)"
| "pc_ok q bs (Push_next x nn ot) \<longleftrightarrow> GET_COUNT nn = 1 \<and> not_ahead bs (GET_PTR ot)"
| "pc_ok q bs (Push_help x nn ot) \<longleftrightarrow> GET_COUNT nn = 1 \<and> not_ahead bs (GET_PTR ot)"
| "pc_ok q bs (Push_realloc x nn ot) \<longleftrightarrow>
     GET_COUNT nn = 1 \<and> nxt q (GET_PTR ot) = nn \<and> nn \<noteq> 0"
| "pc_ok q bs (Tail_cas k ot nt cur) \<longleftrightarrow>
     kont_ok k \<and> GET_PTR ot = cur \<and> nxt q cur = nt \<and> nt \<noteq> 0"
| "pc_ok q bs (Ext_load k c) \<longleftrightarrow> kont_ok k"
| "pc_ok q bs (Ext_cas k c ic ec) \<longleftrightarrow> kont_ok k"
| "pc_ok q bs (Rel_load k p) \<longleftrightarrow> kont_ok k"
| "pc_ok q bs (Rel_cas k p ic ec) \<longleftrightarrow> kont_ok k"
| "pc_ok q bs (Delete k p) \<longleftrightarrow> kont_ok k"
| "pc_ok q bs (Count_destruct k) \<longleftrightarrow> kont_ok k"
| "pc_ok q bs Push_count \<longleftrightarrow> True"
| "pc_ok q bs Push_size \<longleftrightarrow> True"
| "pc_ok q bs Push_ret \<longleftrightarrow> True"
| "pc_ok q bs Pop_start \<longleftrightarrow> True"
| "pc_ok q bs (Pop_check h) \<longleftrightarrow> True"
| "pc_ok q bs Pop_load \<longleftrightarrow> True"
| "pc_ok q bs (Pop_inc oh) \<longleftrightarrow> True"
| "pc_ok q bs (Pop_tail oh) \<longleftrightarrow> not_ahead bs (GET_PTR oh)"
| "pc_ok q bs (Pop_next oh) \<longleftrightarrow> nxt q (GET_PTR oh) \<noteq> 0 \<and> GET_PTR oh \<notin> set bs"
| "pc_ok q bs (Pop_cas oh nx) \<longleftrightarrow>
     nxt q (GET_PTR oh) = nx \<and> nx \<noteq> 0 \<and> GET_PTR oh \<notin> set bs"
| "pc_ok q bs (Pop_data oh) \<longleftrightarrow> True"
| "pc_ok q bs (Pop_count r) \<longleftrightarrow> True"
| "pc_ok q bs (Pop_size r) \<longleftrightarrow> True"
| "pc_ok q bs (Pop_ret r) \<longleftrightarrow> True"

definition lf_shape :: "u64 list \<Rightarrow> u64 list \<Rightarrow> 'a lfq \<Rightarrow> bool" where
  "lf_shape as bs q \<longleftrightarrow>
     bs \<noteq> [] \<and> distinct (as @ bs) \<and> set (as @ bs) \<subseteq> dom (map_of (heap q)) \<and>
     successively (\<lambda>a b. nxt q a \<noteq> 0 \<and> GET_PTR (nxt q a) = b) (as @ bs) \<and>
     nxt q (last bs) = 0 \<and> (\<forall>a. nxt q a \<noteq> 0 \<longrightarrow> GET_COUNT (nxt q a) = 1) \<and>
     GET_PTR (head q) = hd (as @ bs) \<and> GET_PTR (tail q) = hd bs"

text \<open>The references to \<open>a\<close> handed out through an end of the queue, and the part of one thread in
  the balance of \<open>a\<close>.\<close>

definition credit :: "u64 \<Rightarrow> u64 \<Rightarrow> 30 word" where
  "credit c a = (if GET_PTR c = a then excess c else 0)"

definition balance_of :: "u64 \<Rightarrow> 'a pc \<Rightarrow> 30 word" where
  "balance_of a pc = (case pays pc of None \<Rightarrow> 0
       | Some c \<Rightarrow> if GET_PTR c = a then ucast (GET_COUNT c - 2) else 0)
     - of_bool (holds pc = Some a)"

definition paying :: "u64 \<Rightarrow> 'a pc \<Rightarrow> bool" where
  "paying a pc \<longleftrightarrow> map_option GET_PTR (pays pc) = Some a"

abbreviation owners :: "nat \<Rightarrow> (nat \<Rightarrow> 'a pc) \<Rightarrow> u64 \<Rightarrow> int" where
  "owners n pcs a \<equiv> thread_count n (\<lambda>pc. owns pc = Some a) pcs"

abbreviation payers :: "nat \<Rightarrow> (nat \<Rightarrow> 'a pc) \<Rightarrow> u64 \<Rightarrow> int" where
  "payers n pcs a \<equiv> thread_count n (paying a) pcs"

abbreviation deleters :: "nat \<Rightarrow> (nat \<Rightarrow> 'a pc) \<Rightarrow> u64 \<Rightarrow> int" where
  "deleters n pcs a \<equiv> thread_count n (\<lambda>pc. deletes pc = Some a) pcs"

definition dead_ok :: "nat \<Rightarrow> (nat \<Rightarrow> 'a pc) \<Rightarrow> u64 \<Rightarrow> bool" where
  "dead_ok n pcs a \<longleftrightarrow> owners n pcs a = 0 \<and> payers n pcs a = 0 \<and> deleters n pcs a = 0"

definition refs_ok :: "nat \<Rightarrow> 'a lfq \<Rightarrow> (nat \<Rightarrow> 'a pc) \<Rightarrow> u64 \<Rightarrow> 'a node \<Rightarrow> bool" where
  "refs_ok n q pcs a nd \<longleftrightarrow>
     internal_count nd + credit (head q) a + credit (tail q) a
       + thread_sum n (balance_of a) pcs = 0"

definition marks_ok ::
  "nat \<Rightarrow> u64 list \<Rightarrow> u64 list \<Rightarrow> (nat \<Rightarrow> 'a pc) \<Rightarrow> u64 \<Rightarrow> 'a node \<Rightarrow> bool" where
  "marks_ok n as bs pcs a nd \<longleftrightarrow>
     uint (external_counters nd) = of_bool (a \<in> set as) + 2 * of_bool (a \<in> set bs)
       + 2 * owners n pcs a + payers n pcs a \<and>
     uint (external_counters nd) \<le> 2 \<and>
     deleters n pcs a = of_bool (internal_count nd = 0 \<and> external_counters nd = 0) \<and>
     (node_next nd = 0 \<longrightarrow> a \<in> set bs \<or> 0 < owners n pcs a) \<and>
     (0 < owners n pcs a \<longrightarrow> node_next nd = 0)"

definition thread_ok :: "nat \<Rightarrow> u64 list \<Rightarrow> 'a lfq \<Rightarrow> (nat \<Rightarrow> 'a pc) \<Rightarrow> 'a pc \<Rightarrow> bool" where
  "thread_ok n bs q pcs pc \<longleftrightarrow> pc_ok q bs pc \<and>
     (\<forall>a. holds pc = Some a \<longrightarrow> map_of (heap q) a \<noteq> None \<and> owners n pcs a = 0)"

definition tail_helped :: "nat \<Rightarrow> u64 list \<Rightarrow> (nat \<Rightarrow> 'a pc) \<Rightarrow> bool" where
  "tail_helped n bs pcs \<longleftrightarrow>
     (tl bs \<noteq> [] \<longrightarrow> tl (tl bs) = [] \<and> (\<exists>t<n. moves_tail (pcs t) = Some (hd bs)))"

definition lf_ok :: "nat \<Rightarrow> u64 list \<Rightarrow> u64 list \<Rightarrow> 'a lfq \<Rightarrow> (nat \<Rightarrow> 'a pc) \<Rightarrow> bool" where
  "lf_ok n as bs q pcs \<longleftrightarrow> lf_shape as bs q \<and>
     (\<forall>a. map_of (heap q) a = None \<longrightarrow> dead_ok n pcs a) \<and>
     (\<forall>a nd. map_of (heap q) a = Some nd \<longrightarrow> refs_ok n q pcs a nd \<and> marks_ok n as bs pcs a nd) \<and>
     (\<forall>t<n. thread_ok n bs q pcs (pcs t)) \<and> tail_helped n bs pcs"


text \<open>Two queues that differ in the data of their nodes and in their statistics only.\<close>

definition same_refs :: "'a lfq \<Rightarrow> 'a lfq \<Rightarrow> bool" where
  "same_refs q q' \<longleftrightarrow> head q' = head q \<and> tail q' = tail q \<and>
     (\<forall>a. map_option (\<lambda>nd. (internal_count nd, external_counters nd, node_next nd))
            (map_of (heap q') a) =
          map_option (\<lambda>nd. (internal_count nd, external_counters nd, node_next nd))
            (map_of (heap q) a))"

lemma same_refsD:
  assumes "same_refs q q'"
  shows "head q' = head q" "tail q' = tail q" "nxt q' = nxt q"
    "dom (map_of (heap q')) = dom (map_of (heap q))"
    "map_of (heap q') a = None \<longleftrightarrow> map_of (heap q) a = None"
    "map_of (heap q') a = Some nd' \<Longrightarrow> \<exists>nd. map_of (heap q) a = Some nd \<and>
       internal_count nd' = internal_count nd \<and> external_counters nd' = external_counters nd \<and>
       node_next nd' = node_next nd"
proof -
  have m: "map_option (\<lambda>nd. (internal_count nd, external_counters nd, node_next nd))
            (map_of (heap q') a) =
          map_option (\<lambda>nd. (internal_count nd, external_counters nd, node_next nd))
            (map_of (heap q) a)" for a
    using assms unfolding same_refs_def by (elim conjE) (erule spec)
  show n: "map_of (heap q') a = None \<longleftrightarrow> map_of (heap q) a = None" for a
    using m [of a] by (cases "map_of (heap q) a"; cases "map_of (heap q') a") simp_all
  show "dom (map_of (heap q')) = dom (map_of (heap q))"
    using n unfolding dom_def by simp
  show "map_of (heap q') a = Some nd' \<Longrightarrow> \<exists>nd. map_of (heap q) a = Some nd \<and>
       internal_count nd' = internal_count nd \<and> external_counters nd' = external_counters nd \<and>
       node_next nd' = node_next nd" for a nd'
    using m [of a] by (cases "map_of (heap q) a") auto
  show "nxt q' = nxt q"
  proof
    fix a show "nxt q' a = nxt q a"
      using m [of a] by (cases "map_of (heap q) a"; cases "map_of (heap q') a") (auto simp: nxt_def)
  qed
  show "head q' = head q" "tail q' = tail q"
    using assms unfolding same_refs_def by simp_all
qed

lemma pc_ok_frame:
  assumes "pc_ok q bs pc"
    and "\<And>a. holds pc = Some a \<Longrightarrow> nxt q a \<noteq> 0 \<Longrightarrow> nxt q' a = nxt q a"
    and "\<And>a. holds pc = Some a \<Longrightarrow> a \<notin> set bs \<Longrightarrow> a \<notin> set bs'"
    and "\<And>a. holds pc = Some a \<Longrightarrow> not_ahead bs a \<Longrightarrow> not_ahead bs' a"
  shows "pc_ok q' bs' pc"
  using assms by (cases pc) auto

text \<open>A step that changes no count, link or end of the queue, and nothing of what its thread
  has.\<close>

lemma ok_silent:
  assumes ok: "lf_ok n as bs q pcs" and t: "t < n" and same: "same_refs q q'"
    and v: "owns pc = owns (pcs t)" "holds pc = holds (pcs t)" "pays pc = pays (pcs t)"
      "deletes pc = deletes (pcs t)"
    and pc: "pc_ok q bs pc"
    and h: "moves_tail (pcs t) = Some (hd bs) \<Longrightarrow> moves_tail pc = Some (hd bs)"
  shows "lf_ok n as bs q' (pcs(t := pc))"
proof -
  note s = same_refsD [OF same]
  have sums: "thread_count n (\<lambda>pc. owns pc = Some a) (pcs(t := pc)) = owners n pcs a"
    "thread_count n (paying a) (pcs(t := pc)) = payers n pcs a"
    "thread_count n (\<lambda>pc. deletes pc = Some a) (pcs(t := pc)) = deleters n pcs a"
    "thread_sum n (balance_of a) (pcs(t := pc)) = thread_sum n (balance_of a) pcs" for a
    using v t by (simp_all add: thread_count_upd thread_sum_upd paying_def balance_of_def)
  have "lf_shape as bs q'" using ok s by (simp add: lf_ok_def lf_shape_def)
  moreover have "dead_ok n (pcs(t := pc)) a" if "map_of (heap q') a = None" for a
    using ok s that sums by (simp add: lf_ok_def dead_ok_def)
  moreover have "refs_ok n q' (pcs(t := pc)) a nd \<and> marks_ok n as bs (pcs(t := pc)) a nd"
    if a: "map_of (heap q') a = Some nd" for a nd
  proof -
    obtain nd0 where nd0: "map_of (heap q) a = Some nd0" "internal_count nd = internal_count nd0"
      "external_counters nd = external_counters nd0" "node_next nd = node_next nd0"
      using s(6) [OF a] by blast
    have "refs_ok n q pcs a nd0 \<and> marks_ok n as bs pcs a nd0"
      using ok nd0(1) by (simp add: lf_ok_def)
    then show ?thesis unfolding refs_ok_def marks_ok_def sums s(1,2) nd0(2-4) .
  qed
  moreover have "pc_ok q' bs pc'" if "pc_ok q bs pc'" for pc'
    by (rule pc_ok_frame [OF that]) (simp_all add: s)
  then have "thread_ok n bs q' (pcs(t := pc)) ((pcs(t := pc)) u)" if "u < n" for u
    using ok that s(5) sums v pc t by (auto simp: lf_ok_def thread_ok_def)
  moreover have "tail_helped n bs (pcs(t := pc))"
    using ok h t unfolding lf_ok_def tail_helped_def by (metis fun_upd_apply)
  ultimately show ?thesis by (simp add: lf_ok_def)
qed

lemma GET_COUNT_0 [simp]: "GET_COUNT 0 = 0"
  by (simp add: GET_COUNT_def)

section \<open>Preservation, one lemma per kind of step\<close>

lemma thread_frame:
  assumes "thread_ok n bs q pcs pc"
    and "\<And>a. holds pc = Some a \<Longrightarrow> map_of (heap q) a \<noteq> None \<Longrightarrow> owners n pcs a = 0 \<Longrightarrow>
      map_of (heap q') a \<noteq> None \<and> owners n pcs' a = 0 \<and>
      (nxt q a \<noteq> 0 \<longrightarrow> nxt q' a = nxt q a) \<and> (a \<in> set bs' \<longrightarrow> a \<in> set bs) \<and>
      (not_ahead bs a \<longrightarrow> not_ahead bs' a)"
  shows "thread_ok n bs' q' pcs' pc"
proof -
  have "pc_ok q' bs' pc"
    by (rule pc_ok_frame [where q = q and bs = bs]) (use assms in \<open>auto simp: thread_ok_def\<close>)
  with assms show ?thesis by (auto simp: thread_ok_def)
qed

lemma lf_okI:
  assumes "lf_ok n as bs q pcs" "t < n"
    and "lf_shape as' bs' q'"
    and "\<And>a. map_of (heap q') a = None \<Longrightarrow> dead_ok n (pcs(t := pc)) a"
    and "\<And>a nd. map_of (heap q') a = Some nd \<Longrightarrow> refs_ok n q' (pcs(t := pc)) a nd"
    and "\<And>a nd. map_of (heap q') a = Some nd \<Longrightarrow> marks_ok n as' bs' (pcs(t := pc)) a nd"
    and "thread_ok n bs' q' (pcs(t := pc)) pc"
    and "\<And>u. u < n \<Longrightarrow> u \<noteq> t \<Longrightarrow> thread_ok n bs q pcs (pcs u) \<Longrightarrow>
      thread_ok n bs' q' (pcs(t := pc)) (pcs u)"
    and "tail_helped n bs' (pcs(t := pc))"
  shows "lf_ok n as' bs' q' (pcs(t := pc))"
  using assms by (simp add: lf_ok_def)

lemma lf_okD:
  assumes "lf_ok n as bs q pcs"
  shows "lf_shape as bs q"
    and "map_of (heap q) a = None \<Longrightarrow> dead_ok n pcs a"
    and "map_of (heap q) a = Some nd \<Longrightarrow> refs_ok n q pcs a nd"
    and "map_of (heap q) a = Some nd \<Longrightarrow> marks_ok n as bs pcs a nd"
    and "t < n \<Longrightarrow> thread_ok n bs q pcs (pcs t)"
    and "tail_helped n bs pcs"
  using assms by (simp_all add: lf_ok_def)

lemma linked_alive:
  "lf_ok n as bs q pcs \<Longrightarrow> a \<in> set (as @ bs) \<Longrightarrow> map_of (heap q) a \<noteq> None"
  using lf_okD(1) by (fastforce simp: lf_shape_def)

lemma linked_not_owned:
  assumes ok: "lf_ok n as bs q pcs" and a: "a \<in> set (as @ bs)"
  shows "owners n pcs a = 0"
proof -
  obtain nd where "map_of (heap q) a = Some nd" using linked_alive [OF ok a] by blast
  then have "marks_ok n as bs pcs a nd" by (rule lf_okD(4) [OF ok])
  then have "of_bool (a \<in> set as) + 2 * of_bool (a \<in> set bs)
      + 2 * owners n pcs a + payers n pcs a \<le> 2"
    by (simp add: marks_ok_def)
  moreover have "1 \<le> of_bool (a \<in> set as) + 2 * (of_bool (a \<in> set bs) :: int)"
    using a by (auto simp: of_bool_def)
  moreover have "0 \<le> owners n pcs a" "0 \<le> payers n pcs a" by simp_all
  ultimately show ?thesis by linarith
qed

lemma tail_helped_frame:
  assumes "tail_helped n bs pcs" "moves_tail (pcs t) = Some (hd bs) \<Longrightarrow> moves_tail pc = Some (hd bs)"
  shows "tail_helped n bs (pcs(t := pc))"
  using assms unfolding tail_helped_def by (metis fun_upd_apply)

lemma ucast_minus_30: "(ucast (x - y :: u64) :: 30 word) = ucast x - ucast y"
proof (transfer, goal_cases)
  case (1 x y)
  show ?case
    using take_bit_diff [of 30 x y] take_bit_diff [of 30 "take_bit 64 x" "take_bit 64 y"] by simp
qed

lemma excess_inc: "count_ok c \<Longrightarrow> excess (inc_count c) = excess c + 1"
  by (simp add: excess_def GET_COUNT_inc ucast_minus_30)

lemma credit_inc: "count_ok c \<Longrightarrow>
    credit (inc_count c) a = credit c a + of_bool (GET_PTR c = a)"
  by (simp add: credit_def excess_inc)

text \<open>A thread takes a reference through \<open>tail\<close> or through \<open>head\<close>.\<close>

lemma ok_inc:
  assumes ok: "lf_ok n as bs q pcs" and t: "t < n"
    and c: "c = tail q \<and> q' = q\<lparr>tail := inc_count c\<rparr> \<or> c = head q \<and> q' = q\<lparr>head := inc_count c\<rparr>"
    and fits: "count_ok c"
    and v: "owns pc = owns (pcs t)" "holds (pcs t) = None" "holds pc = Some (GET_PTR c)"
      "pays (pcs t) = None" "pays pc = None" "deletes pc = deletes (pcs t)"
      "moves_tail (pcs t) = None"
    and pc: "pc_ok q bs pc"
  shows "lf_ok n as bs q' (pcs(t := pc))"
proof (rule lf_okI [OF ok t])
  have h [simp]: "heap q' = heap q" "nxt q' = nxt q" using c by (auto simp: nxt_def)
  have sums [simp]: "thread_count n (\<lambda>pc. owns pc = Some a) (pcs(t := pc)) = owners n pcs a"
    "thread_count n (paying a) (pcs(t := pc)) = payers n pcs a"
    "thread_count n (\<lambda>pc. deletes pc = Some a) (pcs(t := pc)) = deleters n pcs a"
    "thread_sum n (balance_of a) (pcs(t := pc)) =
       thread_sum n (balance_of a) pcs - of_bool (GET_PTR c = a)" for a
    using v t by (simp_all add: thread_count_upd thread_sum_upd paying_def balance_of_def)
  show "lf_shape as bs q'" using lf_okD(1) [OF ok] c by (auto simp: lf_shape_def)
  show "dead_ok n (pcs(t := pc)) a" if "map_of (heap q') a = None" for a
    using lf_okD(2) [OF ok] that by (simp add: dead_ok_def)
  show "refs_ok n q' (pcs(t := pc)) a nd" if "map_of (heap q') a = Some nd" for a nd
    using lf_okD(3) [OF ok, of a nd] that c credit_inc [OF fits, of a]
    by (auto simp: refs_ok_def algebra_simps)
  show "marks_ok n as bs (pcs(t := pc)) a nd" if "map_of (heap q') a = Some nd" for a nd
    using lf_okD(4) [OF ok, of a nd] that by (simp add: marks_ok_def)
  show "tail_helped n bs (pcs(t := pc))"
    by (rule tail_helped_frame [OF lf_okD(6) [OF ok]]) (simp add: v)
  show "thread_ok n bs q' (pcs(t := pc)) (pcs u)" if "thread_ok n bs q pcs (pcs u)" for u
    by (rule thread_frame [OF that]) simp
  have "pc_ok q' bs pc" by (rule pc_ok_frame [OF pc]) simp_all
  moreover have in_q: "GET_PTR c \<in> set (as @ bs)"
    using c lf_okD(1) [OF ok] by (auto simp: lf_shape_def hd_append)
  moreover have "map_of (heap q) (GET_PTR c) \<noteq> None" by (rule linked_alive [OF ok in_q])
  moreover have "owners n pcs (GET_PTR c) = 0"
    by (rule linked_not_owned [OF ok in_q])
  ultimately show "thread_ok n bs q' (pcs(t := pc)) pc"
    by (simp add: thread_ok_def v)
qed

text \<open>The sum of the balances of a node no thread refers to, and what the sum says when the
  counts are zero.\<close>

lemma balance_none:
  assumes "payers n pcs a = 0" "\<And>t. t < n \<Longrightarrow> holds (pcs t) \<noteq> Some a"
  shows "thread_sum n (balance_of a) pcs = 0"
proof -
  have "balance_of a (pcs t) = 0" if "t < n" for t
    using assms(1) assms(2) [OF that] that
    by (auto simp: thread_count_eq_0 balance_of_def paying_def split: option.splits)
  then show ?thesis unfolding thread_sum_def by (intro sum.neutral) simp
qed

lemma balance_holders:
  assumes "payers n pcs a = 0"
  shows "thread_sum n (balance_of a) pcs = - of_nat (card {t. t < n \<and> holds (pcs t) = Some a})"
proof -
  have "balance_of a (pcs t) = - of_bool (holds (pcs t) = Some a)" if "t < n" for t
    using assms that
    by (auto simp: thread_count_eq_0 balance_of_def paying_def split: option.splits)
  then have "thread_sum n (balance_of a) pcs = (\<Sum>t<n. - of_bool (holds (pcs t) = Some a))"
    unfolding thread_sum_def by (intro sum.cong) simp_all
  also have "\<dots> = - of_nat (card {t. t < n \<and> holds (pcs t) = Some a})"
    by (simp add: sum_negf sum.inter_filter [symmetric] of_bool_def Int_def lessThan_def
        flip: sum.inter_filter)
  finally show ?thesis .
qed

lemma no_holder:
  assumes "payers n pcs a = 0" "thread_sum n (balance_of a) pcs = 0" "n < 2 ^ 30" "t < n"
  shows "holds (pcs t) \<noteq> Some a"
proof
  let ?H = "{t. t < n \<and> holds (pcs t) = Some a}"
  assume "holds (pcs t) = Some a"
  with assms(4) have "card ?H \<noteq> 0" by auto
  moreover have "card ?H \<le> card {..<n}" by (rule card_mono) auto
  then have "unat (of_nat (card ?H) :: 30 word) = card ?H" using assms(3) by (simp add: unat_of_nat)
  moreover have "(of_nat (card ?H) :: 30 word) = 0"
    using balance_holders [OF assms(1)] assms(2) by simp
  ultimately show False by (metis unat_0)
qed

lemma credit_zero: "lf_ok n as bs q pcs \<Longrightarrow> a \<notin> set (as @ bs) \<Longrightarrow>
    credit (head q) a = 0 \<and> credit (tail q) a = 0"
  using lf_okD(1) [of n as bs q pcs] by (auto simp: lf_shape_def credit_def hd_append split: if_splits)

text \<open>A node with both counts at zero is neither linked nor referred to by any thread.\<close>

lemma zero_counts:
  assumes ok: "lf_ok n as bs q pcs" and n: "n < 2 ^ 30"
    and a: "map_of (heap q) a = Some nd" "internal_count nd = 0" "external_counters nd = 0"
  shows "a \<notin> set (as @ bs)" "owners n pcs a = 0" "payers n pcs a = 0" "deleters n pcs a = 1"
    "t < n \<Longrightarrow> holds (pcs t) \<noteq> Some a"
proof -
  have m: "marks_ok n as bs pcs a nd" by (rule lf_okD(4) [OF ok a(1)])
  then have "0 = of_bool (a \<in> set as) + 2 * of_bool (a \<in> set bs)
       + 2 * owners n pcs a + payers n pcs a" using a by (simp add: marks_ok_def)
  moreover have "0 \<le> owners n pcs a" "0 \<le> payers n pcs a"
    "0 \<le> (of_bool (a \<in> set as) :: int)" "0 \<le> (of_bool (a \<in> set bs) :: int)" by simp_all
  ultimately have z: "owners n pcs a = 0" "payers n pcs a = 0" "of_bool (a \<in> set as) = (0 :: int)"
    "of_bool (a \<in> set bs) = (0 :: int)" by linarith+
  then show o: "a \<notin> set (as @ bs)" "owners n pcs a = 0" "payers n pcs a = 0" by simp_all
  show "deleters n pcs a = 1" using m a by (simp add: marks_ok_def)
  have "thread_sum n (balance_of a) pcs = 0"
    using lf_okD(3) [OF ok a(1)] a credit_zero [OF ok o(1)] by (simp add: refs_ok_def)
  then show "t < n \<Longrightarrow> holds (pcs t) \<noteq> Some a" by (rule no_holder [OF z(2) _ n])
qed

lemma fresh_node:
  assumes ok: "lf_ok n as bs q pcs" and a: "map_of (heap q) a = None"
  shows "a \<notin> set (as @ bs)" "owners n pcs a = 0" "payers n pcs a = 0" "deleters n pcs a = 0"
    "nxt q a = 0" "t < n \<Longrightarrow> holds (pcs t) \<noteq> Some a"
  using lf_okD(2) [OF ok a] linked_alive [OF ok, of a] lf_okD(5) [OF ok, of t] a
  by (auto simp: dead_ok_def thread_ok_def nxt_def)

text \<open>Allocation gives the thread a private node.\<close>

lemma ok_alloc:
  assumes ok: "lf_ok n as bs q pcs" and t: "t < n"
    and a: "alloc_ok (heap q) a" and q': "q' = q\<lparr>heap := heap_put a (new_node d) (heap q)\<rparr>"
    and v: "owns (pcs t) = None" "owns pc = Some a" "holds pc = holds (pcs t)"
      "pays pc = pays (pcs t)" "deletes pc = deletes (pcs t)"
      "moves_tail pc = moves_tail (pcs t)"
    and pc: "pc_ok q bs pc"
  shows "lf_ok n as bs q' (pcs(t := pc))"
proof (rule lf_okI [OF ok t])
  have fresh: "map_of (heap q) a = None" using a by (simp add: alloc_ok_def)
  note f = fresh_node [OF ok fresh]
  have h [simp]: "map_of (heap q') = (map_of (heap q))(a \<mapsto> new_node d)" "head q' = head q"
    "tail q' = tail q"
    using q' by simp_all
  have x [simp]: "nxt q' = nxt q" using fresh by (auto simp: nxt_def new_node_def)
  have sums [simp]: "thread_count n (\<lambda>pc. owns pc = Some b) (pcs(t := pc)) =
      owners n pcs b + of_bool (b = a)"
    "thread_count n (paying b) (pcs(t := pc)) = payers n pcs b"
    "thread_count n (\<lambda>pc. deletes pc = Some b) (pcs(t := pc)) = deleters n pcs b"
    "thread_sum n (balance_of b) (pcs(t := pc)) = thread_sum n (balance_of b) pcs" for b
    using v t by (simp_all add: thread_count_upd thread_sum_upd paying_def balance_of_def)
  show "lf_shape as bs q'" using lf_okD(1) [OF ok] by (auto simp: lf_shape_def)
  show "dead_ok n (pcs(t := pc)) b" if "map_of (heap q') b = None" for b
    using lf_okD(2) [OF ok, of b] that by (simp add: dead_ok_def split: if_splits)
  show "refs_ok n q' (pcs(t := pc)) b nd" if "map_of (heap q') b = Some nd" for b nd
    using lf_okD(3) [OF ok, of b nd] that credit_zero [OF ok f(1)] balance_none [OF f(3,6)]
    by (auto simp: refs_ok_def new_node_def split: if_splits)
  show "marks_ok n as bs (pcs(t := pc)) b nd" if "map_of (heap q') b = Some nd" for b nd
    using lf_okD(4) [OF ok, of b nd] that f(1-4)
    by (auto simp: marks_ok_def new_node_def split: if_splits)
  show "tail_helped n bs (pcs(t := pc))"
    by (rule tail_helped_frame [OF lf_okD(6) [OF ok]]) (simp add: v)
  show "thread_ok n bs q' (pcs(t := pc)) (pcs u)" if "u < n" "thread_ok n bs q pcs (pcs u)" for u
    using f(6) [OF that(1)] by (intro thread_frame [OF that(2)]) auto
  have "pc_ok q' bs pc" by (rule pc_ok_frame [OF pc]) simp_all
  then show "thread_ok n bs q' (pcs(t := pc)) pc"
    using lf_okD(5) [OF ok t] f(6) [OF t] by (auto simp: thread_ok_def v)
qed

text \<open>A node that lost the race for the link is deleted by its owner.\<close>

lemma owned_node:
  assumes ok: "lf_ok n as bs q pcs" and t: "t < n" and b: "owns (pcs t) = Some b"
  shows "map_of (heap q) b \<noteq> None" "owners n pcs b = 1" "payers n pcs b = 0"
    "deleters n pcs b = 0" "b \<notin> set (as @ bs)" "nxt q b = 0"
    "u < n \<Longrightarrow> holds (pcs u) \<noteq> Some b"
proof -
  have o1: "1 \<le> owners n pcs b" using b by (intro thread_count_ge_1 [OF t]) simp
  then show alive: "map_of (heap q) b \<noteq> None"
    using lf_okD(2) [OF ok, of b] by (auto simp: dead_ok_def)
  show l: "b \<notin> set (as @ bs)" using linked_not_owned [OF ok, of b] o1 by linarith
  obtain nd where nd: "map_of (heap q) b = Some nd" using alive by blast
  have m: "marks_ok n as bs pcs b nd" by (rule lf_okD(4) [OF ok nd])
  then have e: "uint (external_counters nd) = 2 * owners n pcs b + payers n pcs b"
    "uint (external_counters nd) \<le> 2" using l by (simp_all add: marks_ok_def)
  moreover have "0 \<le> payers n pcs b" by simp
  ultimately show o: "owners n pcs b = 1" and "payers n pcs b = 0" using o1 by linarith+
  from e o have "external_counters nd \<noteq> 0"
    using thread_count_nonneg [of n "paying b" pcs] by auto
  then show "deleters n pcs b = 0" "nxt q b = 0"
    using m o nd by (simp_all add: marks_ok_def nxt_def)
  show "u < n \<Longrightarrow> holds (pcs u) \<noteq> Some b"
    using lf_okD(5) [OF ok, of u] o by (auto simp: thread_ok_def)
qed

lemma ok_free_private:
  assumes ok: "lf_ok n as bs q pcs" and t: "t < n"
    and q': "q' = q\<lparr>heap := heap_del b (heap q)\<rparr>"
    and v: "owns (pcs t) = Some b" "owns pc = None" "holds pc = holds (pcs t)"
      "pays pc = pays (pcs t)" "deletes pc = deletes (pcs t)" "moves_tail (pcs t) = None"
    and pc: "pc_ok q bs pc"
  shows "lf_ok n as bs q' (pcs(t := pc))"
proof (rule lf_okI [OF ok t])
  note b = owned_node [OF ok t v(1)]
  have h [simp]: "map_of (heap q') = (map_of (heap q))(b := None)" "head q' = head q"
    "tail q' = tail q"
    using q' by simp_all
  have x [simp]: "nxt q' = nxt q"
    using b(6) by (auto simp: nxt_def fun_eq_iff split: option.splits)
  have sums [simp]: "thread_count n (\<lambda>pc. owns pc = Some a) (pcs(t := pc)) =
      owners n pcs a - of_bool (a = b)"
    "thread_count n (paying a) (pcs(t := pc)) = payers n pcs a"
    "thread_count n (\<lambda>pc. deletes pc = Some a) (pcs(t := pc)) = deleters n pcs a"
    "thread_sum n (balance_of a) (pcs(t := pc)) = thread_sum n (balance_of a) pcs" for a
    using v t by (simp_all add: thread_count_upd thread_sum_upd paying_def balance_of_def)
  show "lf_shape as bs q'" using lf_okD(1) [OF ok] b(5) by (auto simp: lf_shape_def)
  show "dead_ok n (pcs(t := pc)) a" if "map_of (heap q') a = None" for a
    using lf_okD(2) [OF ok, of a] that b(2-4) by (simp add: dead_ok_def split: if_splits)
  show "refs_ok n q' (pcs(t := pc)) a nd" if "map_of (heap q') a = Some nd" for a nd
    using lf_okD(3) [OF ok, of a nd] that by (auto simp: refs_ok_def split: if_splits)
  show "marks_ok n as bs (pcs(t := pc)) a nd" if "map_of (heap q') a = Some nd" for a nd
    using lf_okD(4) [OF ok, of a nd] that by (auto simp: marks_ok_def split: if_splits)
  show "tail_helped n bs (pcs(t := pc))"
    by (rule tail_helped_frame [OF lf_okD(6) [OF ok]]) (simp add: v)
  show "thread_ok n bs q' (pcs(t := pc)) (pcs u)" if "u < n" "thread_ok n bs q pcs (pcs u)" for u
    using b(7) [OF that(1)] by (intro thread_frame [OF that(2)]) auto
  have "pc_ok q' bs pc" by (rule pc_ok_frame [OF pc]) simp_all
  then show "thread_ok n bs q' (pcs(t := pc)) pc"
    using lf_okD(5) [OF ok t] b(7) [OF t] by (auto simp: thread_ok_def v)
qed

text \<open>The private node of a thread is linked behind the last node, which is the tail.\<close>

lemma last_node:
  assumes ok: "lf_ok n as bs q pcs" and t: "t < n" and h: "holds (pcs t) = Some o'"
    and z: "nxt q o' = 0" and na: "not_ahead bs o'"
  shows "bs = [o']"
proof -
  have sh: "lf_shape as bs q" by (rule lf_okD(1) [OF ok])
  have th: "map_of (heap q) o' \<noteq> None" "owners n pcs o' = 0"
    using lf_okD(5) [OF ok t] h by (auto simp: thread_ok_def)
  then obtain nd where nd: "map_of (heap q) o' = Some nd" by blast
  then have "o' \<in> set bs" using lf_okD(4) [OF ok nd] z th by (simp add: marks_ok_def nxt_def)
  with na have o: "o' = hd bs" by (simp add: not_ahead_def)
  show ?thesis
  proof (cases "tl bs")
    case Nil
    with sh o show ?thesis by (cases bs) (auto simp: lf_shape_def)
  next
    case (Cons b cs)
    with sh o have "bs = o' # b # cs" by (cases bs) (auto simp: lf_shape_def)
    with sh z show ?thesis by (simp add: lf_shape_def successively_append_iff)
  qed
qed

lemma ok_link:
  assumes ok: "lf_ok n as bs q pcs" and t: "t < n"
    and nd: "map_of (heap q) p = Some nd" "node_next nd = 0"
    and q': "q' = put_node p (nd\<lparr>node_next := nn\<rparr>) q"
    and na: "not_ahead bs p" and c: "GET_COUNT nn = 1"
    and v: "owns (pcs t) = Some (GET_PTR nn)" "owns pc = None" "holds (pcs t) = Some p"
      "holds pc = Some p" "pays pc = pays (pcs t)" "deletes pc = deletes (pcs t)"
      "moves_tail pc = Some p"
    and pc: "pc_ok q' (bs @ [GET_PTR nn]) pc"
  shows "lf_ok n as (bs @ [GET_PTR nn]) q' (pcs(t := pc))"
proof (rule lf_okI [OF ok t])
  note b = owned_node [OF ok t v(1)]
  have bs: "bs = [p]"
    by (rule last_node [OF ok t v(3) _ na]) (use nd in \<open>simp add: nxt_def\<close>)
  have nn0: "nn \<noteq> 0" using c by auto
  have h [simp]: "map_of (heap q') = (map_of (heap q))(p \<mapsto> nd\<lparr>node_next := nn\<rparr>)"
    "head q' = head q" "tail q' = tail q"
    using q' by (simp_all add: put_node_def)
  have x [simp]: "nxt q' = (nxt q)(p := nn)" by (auto simp: nxt_def fun_eq_iff)
  have pb: "p \<noteq> GET_PTR nn" using b(5) bs by auto
  have sums [simp]: "thread_count n (\<lambda>pc. owns pc = Some a) (pcs(t := pc)) =
      owners n pcs a - of_bool (a = GET_PTR nn)"
    "thread_count n (paying a) (pcs(t := pc)) = payers n pcs a"
    "thread_count n (\<lambda>pc. deletes pc = Some a) (pcs(t := pc)) = deleters n pcs a"
    "thread_sum n (balance_of a) (pcs(t := pc)) = thread_sum n (balance_of a) pcs" for a
    using v t by (simp_all add: thread_count_upd thread_sum_upd paying_def balance_of_def)
  show "lf_shape as (bs @ [GET_PTR nn]) q'"
  proof -
    have sh: "lf_shape as [p] q" using lf_okD(1) [OF ok] bs by simp
    have "successively (\<lambda>a b. nxt q' a \<noteq> 0 \<and> GET_PTR (nxt q' a) = b) (as @ [p])"
    proof (rule successively_mono [where P = "\<lambda>a b. nxt q a \<noteq> 0 \<and> GET_PTR (nxt q a) = b"])
      show "successively (\<lambda>a b. nxt q a \<noteq> 0 \<and> GET_PTR (nxt q a) = b) (as @ [p])"
        using sh by (simp add: lf_shape_def)
    qed (use nd in \<open>auto simp: nxt_def\<close>)
    then have "successively (\<lambda>a b. nxt q' a \<noteq> 0 \<and> GET_PTR (nxt q' a) = b)
        ((as @ [p]) @ [GET_PTR nn])"
      using nn0 by (subst successively_append_iff) simp
    then show ?thesis using sh b c bs nd pb by (auto simp: lf_shape_def hd_append)
  qed
  show "dead_ok n (pcs(t := pc)) a" if "map_of (heap q') a = None" for a
    using lf_okD(2) [OF ok, of a] that b(1) by (auto simp: dead_ok_def split: if_splits)
  show "refs_ok n q' (pcs(t := pc)) a nd'" if "map_of (heap q') a = Some nd'" for a nd'
    using lf_okD(3) [OF ok, of p nd] lf_okD(3) [OF ok, of a nd'] nd that
    by (auto simp: refs_ok_def split: if_splits)
  show "marks_ok n as (bs @ [GET_PTR nn]) (pcs(t := pc)) a nd'"
    if "map_of (heap q') a = Some nd'" for a nd'
    using lf_okD(4) [OF ok, of p nd] lf_okD(4) [OF ok, of a nd'] nd that b(1-5) bs pb
      linked_not_owned [OF ok, of p] nn0
    by (auto simp: marks_ok_def split: if_splits)
  show "tail_helped n (bs @ [GET_PTR nn]) (pcs(t := pc))"
    using t bs v(7) by (auto simp: tail_helped_def intro: exI [of _ t])
  show "thread_ok n (bs @ [GET_PTR nn]) q' (pcs(t := pc)) (pcs u)"
    if "u < n" "thread_ok n bs q pcs (pcs u)" for u
    using b(7) [OF that(1)] nd by (intro thread_frame [OF that(2)]) (auto simp: not_ahead_def bs nxt_def)
  show "thread_ok n (bs @ [GET_PTR nn]) q' (pcs(t := pc)) pc"
    using pc lf_okD(5) [OF ok t] v pb by (auto simp: thread_ok_def)
qed

text \<open>The tail moves to the node after it, and the mover becomes the one that settles the
  references taken through the old tail; the same for the head.\<close>

lemma excess_count_1: "GET_COUNT c = 1 \<Longrightarrow> excess c = 0"
  by (simp add: excess_def)

lemma balance_swap:
  assumes "holds pc0 = Some (GET_PTR c)" "pays pc0 = None" "holds pc1 = None" "pays pc1 = Some c"
  shows "balance_of a pc1 - balance_of a pc0 = credit c a"
  using assms by (simp add: balance_of_def credit_def excess_def ucast_minus_30)

lemma ok_move_tail:
  assumes ok: "lf_ok n as bs q pcs" and t: "t < n"
    and nt: "nxt q (GET_PTR (tail q)) = nt" "nt \<noteq> 0" and q': "q' = q\<lparr>tail := nt\<rparr>"
    and v: "owns pc = owns (pcs t)" "holds (pcs t) = Some (GET_PTR (tail q))" "holds pc = None"
      "pays (pcs t) = None" "pays pc = Some (tail q)" "deletes pc = deletes (pcs t)"
    and pc: "pc_ok q bs pc"
  shows "lf_ok n (as @ [hd bs]) (tl bs) q' (pcs(t := pc))"
proof (rule lf_okI [OF ok t])
  have sh: "lf_shape as bs q" by (rule lf_okD(1) [OF ok])
  have ne: "tl bs \<noteq> []"
    using sh nt by (cases bs) (auto simp: lf_shape_def)
  then obtain b where bs: "bs = [GET_PTR (tail q), b]"
    using sh lf_okD(6) [OF ok] by (cases bs; cases "tl bs") (auto simp: lf_shape_def tail_helped_def)
  have b: "b = GET_PTR nt" "GET_COUNT nt = 1"
    using sh nt bs by (auto simp: lf_shape_def successively_append_iff)
  have h [simp]: "heap q' = heap q" "nxt q' = nxt q" "head q' = head q" "tail q' = nt"
    using q' by (simp_all add: nxt_def fun_eq_iff)
  have bal: "balance_of a pc - balance_of a (pcs t) = credit (tail q) a" for a
    by (rule balance_swap) (use v in simp_all)
  have sums [simp]: "thread_count n (\<lambda>pc. owns pc = Some a) (pcs(t := pc)) = owners n pcs a"
    "thread_count n (paying a) (pcs(t := pc)) = payers n pcs a + of_bool (a = GET_PTR (tail q))"
    "thread_count n (\<lambda>pc. deletes pc = Some a) (pcs(t := pc)) = deleters n pcs a"
    "thread_sum n (balance_of a) (pcs(t := pc)) = thread_sum n (balance_of a) pcs + credit (tail q) a"
    for a
    using v t bal [of a] by (auto simp: thread_count_upd thread_sum_upd paying_def)
  show "lf_shape (as @ [hd bs]) (tl bs) q'"
    using sh bs b by (auto simp: lf_shape_def hd_append)
  show "dead_ok n (pcs(t := pc)) a" if "map_of (heap q') a = None" for a
    using lf_okD(2) [OF ok, of a] that linked_alive [OF ok, of "GET_PTR (tail q)"] bs
    by (auto simp: dead_ok_def)
  show "refs_ok n q' (pcs(t := pc)) a nd" if "map_of (heap q') a = Some nd" for a nd
    using lf_okD(3) [OF ok, of a nd] that b excess_count_1 [OF b(2)]
    by (simp add: refs_ok_def credit_def algebra_simps)
  show "marks_ok n (as @ [hd bs]) (tl bs) (pcs(t := pc)) a nd"
    if "map_of (heap q') a = Some nd" for a nd
  proof -
    have "b \<noteq> GET_PTR (tail q)" "GET_PTR (tail q) \<notin> set as"
      using sh bs by (auto simp: lf_shape_def)
    moreover have "nxt q (GET_PTR (tail q)) = 0 \<longleftrightarrow> False" using nt by simp
    ultimately show ?thesis
      using lf_okD(4) [OF ok, of a nd] that bs nt by (auto simp: marks_ok_def nxt_def)
  qed
  show "tail_helped n (tl bs) (pcs(t := pc))" by (simp add: tail_helped_def bs)
  show "thread_ok n (tl bs) q' (pcs(t := pc)) (pcs u)" if "u < n" "thread_ok n bs q pcs (pcs u)" for u
    using sh by (intro thread_frame [OF that(2)]) (auto simp: bs not_ahead_def lf_shape_def)
  have "pc_ok q' (tl bs) pc" by (rule pc_ok_frame [OF pc]) (simp_all add: v)
  then show "thread_ok n (tl bs) q' (pcs(t := pc)) pc" by (simp add: thread_ok_def v)
qed

lemma ok_move_head:
  assumes ok: "lf_ok n as bs q pcs" and t: "t < n"
    and nx: "nxt q (GET_PTR (head q)) = nx" "nx \<noteq> 0" and q': "q' = q\<lparr>head := nx\<rparr>"
    and passed: "GET_PTR (head q) \<notin> set bs"
    and v: "owns pc = owns (pcs t)" "holds (pcs t) = Some (GET_PTR (head q))" "holds pc = None"
      "pays (pcs t) = None" "pays pc = Some (head q)" "deletes pc = deletes (pcs t)"
      "moves_tail (pcs t) = None"
    and pc: "pc_ok q bs pc"
  shows "lf_ok n (tl as) bs q' (pcs(t := pc))"
proof (rule lf_okI [OF ok t])
  have sh: "lf_shape as bs q" by (rule lf_okD(1) [OF ok])
  have "as \<noteq> []" using sh passed by (auto simp: lf_shape_def)
  with sh obtain as' where as: "as = GET_PTR (head q) # as'" by (cases as) (auto simp: lf_shape_def)
  have b: "hd (as' @ bs) = GET_PTR nx" "GET_COUNT nx = 1"
    using sh nx as by (auto simp: lf_shape_def successively_Cons)
  have h [simp]: "heap q' = heap q" "nxt q' = nxt q" "head q' = nx" "tail q' = tail q"
    using q' by (simp_all add: nxt_def fun_eq_iff)
  have bal: "balance_of a pc - balance_of a (pcs t) = credit (head q) a" for a
    by (rule balance_swap) (use v in simp_all)
  have sums [simp]: "thread_count n (\<lambda>pc. owns pc = Some a) (pcs(t := pc)) = owners n pcs a"
    "thread_count n (paying a) (pcs(t := pc)) = payers n pcs a + of_bool (a = GET_PTR (head q))"
    "thread_count n (\<lambda>pc. deletes pc = Some a) (pcs(t := pc)) = deleters n pcs a"
    "thread_sum n (balance_of a) (pcs(t := pc)) = thread_sum n (balance_of a) pcs + credit (head q) a"
    for a
    using v t bal [of a] by (auto simp: thread_count_upd thread_sum_upd paying_def)
  show "lf_shape (tl as) bs q'"
    using sh as b by (auto simp: lf_shape_def successively_Cons)
  show "dead_ok n (pcs(t := pc)) a" if "map_of (heap q') a = None" for a
    using lf_okD(2) [OF ok, of a] that linked_alive [OF ok, of "GET_PTR (head q)"] as
    by (auto simp: dead_ok_def)
  show "refs_ok n q' (pcs(t := pc)) a nd" if "map_of (heap q') a = Some nd" for a nd
    using lf_okD(3) [OF ok, of a nd] that b excess_count_1 [OF b(2)]
    by (simp add: refs_ok_def credit_def algebra_simps)
  show "marks_ok n (tl as) bs (pcs(t := pc)) a nd" if "map_of (heap q') a = Some nd" for a nd
    using lf_okD(4) [OF ok, of a nd] that sh as by (auto simp: marks_ok_def lf_shape_def)
  show "tail_helped n bs (pcs(t := pc))"
    by (rule tail_helped_frame [OF lf_okD(6) [OF ok]]) (simp add: v)
  show "thread_ok n bs q' (pcs(t := pc)) (pcs u)" if "u < n" "thread_ok n bs q pcs (pcs u)" for u
    by (rule thread_frame [OF that(2)]) auto
  have "pc_ok q' bs pc" by (rule pc_ok_frame [OF pc]) simp_all
  then show "thread_ok n bs q' (pcs(t := pc)) pc" by (simp add: thread_ok_def v)
qed

text \<open>Where a thread goes after it has settled a count.\<close>

lemma after_count_view:
  "owns (after_count k p ic ec) = kont_owns k" "holds (after_count k p ic ec) = None"
  "pays (after_count k p ic ec) = None"
  "deletes (after_count k p ic ec) = (if ic = 0 \<and> ec = 0 then Some p else None)"
  "kont_ok k \<Longrightarrow> pc_ok q bs (after_count k p ic ec)"
  by (cases k; simp add: after_count_def pays_def deletes_def)+

lemma ok_settle:
  assumes ok: "lf_ok n as bs q pcs" and n: "n < 2 ^ 30" and t: "t < n"
    and nd: "map_of (heap q) p = Some nd"
    and q': "q' = put_node p (nd\<lparr>internal_count := ic, external_counters := ec\<rparr>) q"
    and v: "owns (pcs t) = kont_owns k" "deletes (pcs t) = None" "moves_tail (pcs t) = None"
    and k: "kont_ok k"
    and how: "pays (pcs t) = None \<and> holds (pcs t) = Some p \<and>
        ic = internal_count nd - 1 \<and> ec = external_counters nd \<or>
      (\<exists>c. pays (pcs t) = Some c \<and> GET_PTR c = p \<and> holds (pcs t) = None \<and>
        ic = internal_count nd + ucast (GET_COUNT c - 2) \<and> ec = external_counters nd - 1)"
  shows "lf_ok n as bs q' (pcs(t := after_count k p ic ec))"
proof (rule lf_okI [OF ok t])
  define pc where "pc = after_count k p ic ec"
  note w = after_count_view [where k = k and p = p and ic = ic and ec = ec, folded pc_def]
  have marks: "marks_ok n as bs pcs p nd" by (rule lf_okD(4) [OF ok nd])
  have pay1: "1 \<le> payers n pcs p" if "pays (pcs t) = Some c" "GET_PTR c = p" for c
    by (rule thread_count_ge_1 [OF t]) (use that in \<open>simp add: paying_def\<close>)
  have "\<not> (internal_count nd = 0 \<and> external_counters nd = 0)"
    using how zero_counts(3) [OF ok n nd] zero_counts(5) [OF ok n nd _ _ t] pay1 by fastforce
  then have del0: "deleters n pcs p = 0" using marks by (simp add: marks_ok_def)
  have h [simp]: "map_of (heap q') = (map_of (heap q))
      (p \<mapsto> nd\<lparr>internal_count := ic, external_counters := ec\<rparr>)" "head q' = head q" "tail q' = tail q"
    using q' by (simp_all add: put_node_def)
  have x [simp]: "nxt q' = nxt q" using nd by (auto simp: nxt_def fun_eq_iff)
  have sums [simp]: "thread_count n (\<lambda>pc. owns pc = Some a) (pcs(t := pc)) = owners n pcs a"
    "thread_count n (paying a) (pcs(t := pc)) = payers n pcs a - of_bool (paying a (pcs t))"
    "thread_count n (\<lambda>pc. deletes pc = Some a) (pcs(t := pc)) =
       deleters n pcs a + of_bool (a = p \<and> ic = 0 \<and> ec = 0)"
    "thread_sum n (balance_of a) (pcs(t := pc)) = thread_sum n (balance_of a) pcs - balance_of a (pcs t)"
    for a
    using v w t by (auto simp: thread_count_upd thread_sum_upd paying_def balance_of_def)
  show "lf_shape as bs q'" using lf_okD(1) [OF ok] by (auto simp: lf_shape_def)
  show "dead_ok n (pcs(t := pc)) a" if "map_of (heap q') a = None" for a
    using lf_okD(2) [OF ok, of a] that thread_count_nonneg [of n "paying a" "pcs(t := pc)"]
    by (auto simp: dead_ok_def split: if_splits)
  have bal: "ic - balance_of p (pcs t) = internal_count nd" "a \<noteq> p \<Longrightarrow> balance_of a (pcs t) = 0" for a
    using how by (auto simp: balance_of_def)
  show "refs_ok n q' (pcs(t := pc)) a nd'" if "map_of (heap q') a = Some nd'" for a nd'
    using lf_okD(3) [OF ok, of a nd'] lf_okD(3) [OF ok nd] bal(2) [of a] that
    by (auto simp: refs_ok_def algebra_simps simp flip: bal(1) split: if_splits)
  have e: "uint ec = uint (external_counters nd) - of_bool (paying p (pcs t))"
    "a \<noteq> p \<Longrightarrow> \<not> paying a (pcs t)" for a
  proof -
    have "uint (x - 1) = uint x - 1" if "1 \<le> uint x" for x :: "2 word"
      using that by (simp add: uint_sub_lem [THEN iffD1])
    moreover have "payers n pcs p \<le> uint (external_counters nd)"
      using marks by (simp add: marks_ok_def)
    ultimately show "uint ec = uint (external_counters nd) - of_bool (paying p (pcs t))"
      using how pay1 by (fastforce simp: paying_def)
    show "a \<noteq> p \<Longrightarrow> \<not> paying a (pcs t)" for a
      using how by (auto simp: paying_def)
  qed
  show "marks_ok n as bs (pcs(t := pc)) a nd'" if "map_of (heap q') a = Some nd'" for a nd'
  proof (cases "a = p")
    case True
    with that have nd': "nd' = nd\<lparr>internal_count := ic, external_counters := ec\<rparr>" by simp
    have "uint ec \<le> uint (external_counters nd)" using e(1) by simp
    with marks e(1) show ?thesis unfolding marks_ok_def sums nd' True by (simp add: del0)
  next
    case False
    with that have "marks_ok n as bs pcs a nd'" using lf_okD(4) [OF ok] by simp
    with False e(2) show ?thesis unfolding marks_ok_def sums by simp
  qed
  show "tail_helped n bs (pcs(t := pc))"
    by (rule tail_helped_frame [OF lf_okD(6) [OF ok]]) (simp add: v)
  show "thread_ok n bs q' (pcs(t := pc)) (pcs u)" if "u < n" "thread_ok n bs q pcs (pcs u)" for u
    by (rule thread_frame [OF that(2)]) auto
  show "thread_ok n bs q' (pcs(t := pc)) pc" using w k by (simp add: thread_ok_def)
qed

text \<open>The thread that brought both counts to zero frees the node.\<close>

lemma ok_delete:
  assumes ok: "lf_ok n as bs q pcs" and n: "n < 2 ^ 30" and t: "t < n"
    and pt: "pcs t = Delete k p" and q': "q' = q\<lparr>heap := heap_del p (heap q)\<rparr>"
  shows "map_of (heap q) p \<noteq> None \<and> lf_ok n as bs q' (pcs(t := Count_destruct k))"
proof
  have d1: "1 \<le> deleters n pcs p"
    by (rule thread_count_ge_1 [OF t]) (simp add: pt deletes_def)
  then show "map_of (heap q) p \<noteq> None" using lf_okD(2) [OF ok, of p] by (auto simp: dead_ok_def)
  then obtain nd where nd: "map_of (heap q) p = Some nd" by blast
  have "internal_count nd = 0 \<and> external_counters nd = 0"
    using lf_okD(4) [OF ok nd] d1 by (auto simp: marks_ok_def of_bool_def split: if_splits)
  then have z: "internal_count nd = 0" "external_counters nd = 0" by simp_all
  note p = zero_counts [OF ok n nd z]
  let ?pc = "Count_destruct k"
  show "lf_ok n as bs q' (pcs(t := ?pc))"
  proof (rule lf_okI [OF ok t])
    have h [simp]: "map_of (heap q') = (map_of (heap q))(p := None)" "head q' = head q"
      "tail q' = tail q"
      using q' by simp_all
    have x: "nxt q' a = (if a = p then 0 else nxt q a)" for a by (simp add: nxt_def)
    have sums [simp]: "thread_count n (\<lambda>pc. owns pc = Some a) (pcs(t := ?pc)) = owners n pcs a"
      "thread_count n (paying a) (pcs(t := ?pc)) = payers n pcs a"
      "thread_count n (\<lambda>pc. deletes pc = Some a) (pcs(t := ?pc)) = deleters n pcs a - of_bool (a = p)"
      "thread_sum n (balance_of a) (pcs(t := ?pc)) = thread_sum n (balance_of a) pcs" for a
      using pt t by (simp_all add: thread_count_upd thread_sum_upd paying_def balance_of_def
          pays_def deletes_def)
    have sh: "lf_shape as bs q" by (rule lf_okD(1) [OF ok])
    have "successively (\<lambda>a b. nxt q' a \<noteq> 0 \<and> GET_PTR (nxt q' a) = b) (as @ bs)"
    proof (rule successively_mono [where P = "\<lambda>a b. nxt q a \<noteq> 0 \<and> GET_PTR (nxt q a) = b"])
      show "successively (\<lambda>a b. nxt q a \<noteq> 0 \<and> GET_PTR (nxt q a) = b) (as @ bs)"
        using sh by (simp add: lf_shape_def)
    qed (use p(1) in \<open>auto simp: x\<close>)
    then show "lf_shape as bs q'" using sh p(1) by (auto simp: lf_shape_def x)
    show "dead_ok n (pcs(t := ?pc)) a" if "map_of (heap q') a = None" for a
      using lf_okD(2) [OF ok, of a] that p(2-4) by (simp add: dead_ok_def split: if_splits)
    show "refs_ok n q' (pcs(t := ?pc)) a nd" if "map_of (heap q') a = Some nd" for a nd
      using lf_okD(3) [OF ok, of a nd] that by (auto simp: refs_ok_def split: if_splits)
    show "marks_ok n as bs (pcs(t := ?pc)) a nd" if "map_of (heap q') a = Some nd" for a nd
      using lf_okD(4) [OF ok, of a nd] that by (auto simp: marks_ok_def split: if_splits)
    show "tail_helped n bs (pcs(t := ?pc))"
      by (rule tail_helped_frame [OF lf_okD(6) [OF ok]]) (simp add: pt moves_tail_def)
    show "thread_ok n bs q' (pcs(t := ?pc)) (pcs u)" if "u < n" "thread_ok n bs q pcs (pcs u)" for u
      using p(5) [OF that(1)] by (intro thread_frame [OF that(2)]) (auto simp: x)
    show "thread_ok n bs q' (pcs(t := ?pc)) ?pc"
      using lf_okD(5) [OF ok t] by (simp add: thread_ok_def pt)
  qed
qed

end
