(* ===== verification/LFQueue_Safety.thy ===== *)
theory LFQueue_Safety
  imports LFQueue_Inv
begin

text \<open>
  Memory safety and reclamation of the lock-free queue. Every atomic step of
  \<open>lf_step\<close> keeps the invariant of LFQueue_Inv and faults only when the allocator fails,
  as long as no step wraps a 16-bit external count (\<open>no_wrap\<close>); the interpretation of
  \<open>inductive_invariant\<close> carries this to every reachable machine. The bound of fewer than
  2^30 threads keeps the 30-bit internal count from wrapping.
\<close>

section \<open>Every step\<close>

text \<open>The packed count has room for one more reference when the step takes one.\<close>

definition no_wrap :: "'a lfq \<Rightarrow> 'a pc \<Rightarrow> bool" where
  "no_wrap q pc = (case pc of
       Push_inc x nn ot \<Rightarrow> tail q = ot \<longrightarrow> count_ok ot
     | Pop_inc oh \<Rightarrow> head q = oh \<longrightarrow> count_ok oh
     | _ \<Rightarrow> True)"

lemma same_refs_refl [simp]: "same_refs q q"
  by (simp add: same_refs_def)

lemma same_refs_counters [simp]:
  "same_refs q (q\<lparr>destruct_count := i\<rparr>)" "same_refs q (q\<lparr>push_count := i\<rparr>)"
  "same_refs q (q\<lparr>pop_count := i\<rparr>)" "same_refs q (q\<lparr>q_size := i\<rparr>)"
  by (simp_all add: same_refs_def)

lemma same_refs_data [simp]:
  "map_of (heap q) a = Some nd \<Longrightarrow> same_refs q (put_node a (nd\<lparr>node_data := d\<rparr>) q)"
  by (simp add: same_refs_def put_node_def)

lemma heap_get_Inr: "heap_get h a = Inr nd \<longleftrightarrow> map_of h a = Some nd"
  by (auto simp: heap_get_def split: option.splits)

lemmas pc_views = pays_def deletes_def moves_tail_def

lemma resume_view [simp]:
  "owns (resume k) = kont_owns k" "holds (resume k) = None" "pays (resume k) = None"
  "deletes (resume k) = None" "moves_tail (resume k) = None" "pc_ok q bs (resume k) = kont_ok k"
  by (cases k; simp add: pc_views)+

lemma kont_owns_reload [simp]: "kont_owns (reload_tail t k) = kont_owns k"
  "kont_ok (reload_tail t k) = kont_ok k"
  by (cases k; simp)+

lemma GET_PTR_SET_PTR: "addr48 a \<Longrightarrow> GET_PTR (SET_PTR x a) = a"
  and GET_COUNT_SET_PTR: "addr48 a \<Longrightarrow> GET_COUNT (SET_PTR x a) = GET_COUNT x"
proof -
  assume a: "addr48 a"
  have "SET_PTR x a = cnp (GET_COUNT x) a" by (metis SET_PTR_cnp a cnp_GET)
  moreover have "take_bit 16 (GET_COUNT x) = GET_COUNT x" by (metis GET_COUNT_cnp cnp_GET)
  ultimately show "GET_PTR (SET_PTR x a) = a" "GET_COUNT (SET_PTR x a) = GET_COUNT x"
    using a by simp_all
qed

lemma increase_Some: "increase_external_count c old = Some r \<longleftrightarrow>
    c = old \<and> r = (inc_count c, inc_count c)"
  by (auto simp: increase_external_count_def Let_def)

lemma increase_None: "increase_external_count c old = None \<longleftrightarrow> c \<noteq> old"
  by (auto simp: increase_external_count_def Let_def)

text \<open>The address a step reads through.\<close>

definition reads :: "'a pc \<Rightarrow> u64 option" where
  "reads pc = (case holds pc of Some a \<Rightarrow> Some a | None \<Rightarrow> map_option GET_PTR (pays pc))"

lemma reads_alive:
  assumes ok: "lf_ok n as bs q pcs" and t: "t < n" and r: "reads (pcs t) = Some a"
  shows "\<exists>nd. map_of (heap q) a = Some nd"
proof (cases "holds (pcs t)")
  case None
  with r have "1 \<le> payers n pcs a"
    by (intro thread_count_ge_1 [OF t]) (simp add: reads_def paying_def)
  then show ?thesis using lf_okD(2) [OF ok, of a] by (auto simp: dead_ok_def)
next
  case Some
  with r show ?thesis using lf_okD(5) [OF ok t] by (auto simp: reads_def thread_ok_def)
qed


text \<open>What is known of the thread that makes the step.\<close>

lemma step_thread:
  assumes "lf_ok n as bs q pcs" "t < n"
  shows "pc_ok q bs (pcs t)" "holds (pcs t) = Some a \<Longrightarrow> map_of (heap q) a \<noteq> None"
  using lf_okD(5) [OF assms] by (auto simp: thread_ok_def)

lemma nxt_eq: "map_of (heap q) a = Some nd \<Longrightarrow> nxt q a = node_next nd"
  by (simp add: nxt_def)

text \<open>A step of thread \<open>t\<close> from a state that satisfies the invariant.\<close>

definition ok_step ::
  "nat \<Rightarrow> u64 list \<Rightarrow> u64 list \<Rightarrow> 'a lfq \<Rightarrow> (nat \<Rightarrow> 'a pc) \<Rightarrow> nat \<Rightarrow> 'a choice \<Rightarrow>
    'a pc \<Rightarrow> 'a lfq \<Rightarrow> bool" where
  "ok_step n as bs q pcs t ch pc q' \<longleftrightarrow> lf_ok n as bs q pcs \<and> n < 2 ^ 30 \<and> t < n \<and>
     no_wrap q (pcs t) \<and> lf_step ch (pcs t) q = Inr (pc, q')"

lemma ok_stepD:
  assumes "ok_step n as bs q pcs t ch pc q'"
  shows "lf_ok n as bs q pcs" "n < 2 ^ 30" "t < n" "no_wrap q (pcs t)"
    "lf_step ch (pcs t) q = Inr (pc, q')" "pc_ok q bs (pcs t)" "lf_shape as bs q"
  using assms lf_okD(1) step_thread(1) by (auto simp: ok_step_def)

lemma step_push_start:
  assumes s: "ok_step n as bs q pcs t ch pc q'" and pt: "pcs t = Push_start x"
  shows "\<exists>as bs. lf_ok n as bs q' (pcs(t := pc))"
proof -
  note ok = ok_stepD(1) [OF s] and n = ok_stepD(2) [OF s] and t = ok_stepD(3) [OF s]
    and w = ok_stepD(4) [OF s] and step = ok_stepD(5) [OF s] and P = ok_stepD(6) [OF s]
    and sh = ok_stepD(7) [OF s]
  note pt
  with step have a: "alloc_ok (heap q) (ch_addr ch)" "pc = Push_load x (cnp 1 (ch_addr ch))"
    "q' = q\<lparr>heap := heap_put (ch_addr ch) (new_node (ch_data ch)) (heap q)\<rparr>"
    by (auto simp: alloc_node_def alloc_ok_def split: if_splits)
  then have "addr48 (ch_addr ch)" by (simp add: alloc_ok_def)
  then have "lf_ok n as bs q' (pcs(t := pc))"
    by (intro ok_alloc [OF ok t a(1,3)]) (simp_all add: pt a pc_views)
  then show ?thesis by blast
qed

lemma step_push_load:
  assumes s: "ok_step n as bs q pcs t ch pc q'" and pt: "pcs t = Push_load x nn"
  shows "\<exists>as bs. lf_ok n as bs q' (pcs(t := pc))"
proof -
  note ok = ok_stepD(1) [OF s] and n = ok_stepD(2) [OF s] and t = ok_stepD(3) [OF s]
    and w = ok_stepD(4) [OF s] and step = ok_stepD(5) [OF s] and P = ok_stepD(6) [OF s]
    and sh = ok_stepD(7) [OF s]
  note pt
  with step P have "lf_ok n as bs q' (pcs(t := pc))"
    by (intro ok_silent [OF ok t]) (auto simp: pc_views)
  then show ?thesis by blast
qed

lemma step_push_inc:
  assumes s: "ok_step n as bs q pcs t ch pc q'" and pt: "pcs t = Push_inc x nn ot"
  shows "\<exists>as bs. lf_ok n as bs q' (pcs(t := pc))"
proof -
  note ok = ok_stepD(1) [OF s] and n = ok_stepD(2) [OF s] and t = ok_stepD(3) [OF s]
    and w = ok_stepD(4) [OF s] and step = ok_stepD(5) [OF s] and P = ok_stepD(6) [OF s]
    and sh = ok_stepD(7) [OF s]
  note pt
  show ?thesis
  proof (cases "tail q = ot")
    case True
    with pt step have s: "pc = Push_data x nn (inc_count ot)" "q' = q\<lparr>tail := inc_count ot\<rparr>"
      by auto
    have "not_ahead bs (GET_PTR ot)" using sh True by (simp add: lf_shape_def not_ahead_def)
    with P True w have "lf_ok n as bs q' (pcs(t := pc))"
      by (intro ok_inc [OF ok t, of ot]) (auto simp: pt s pc_views no_wrap_def)
    then show ?thesis by blast
  next
    case False
    with pt step have "pc = Push_inc x nn (tail q)" "q' = q"
      by (auto simp: increase_external_count_def)
    with P pt have "lf_ok n as bs q' (pcs(t := pc))"
      by (intro ok_silent [OF ok t]) (auto simp: pc_views)
    then show ?thesis by blast
  qed
qed

lemma step_push_data:
  assumes s: "ok_step n as bs q pcs t ch pc q'" and pt: "pcs t = Push_data x nn ot"
  shows "\<exists>as bs. lf_ok n as bs q' (pcs(t := pc))"
proof -
  note ok = ok_stepD(1) [OF s] and n = ok_stepD(2) [OF s] and t = ok_stepD(3) [OF s]
    and w = ok_stepD(4) [OF s] and step = ok_stepD(5) [OF s] and P = ok_stepD(6) [OF s]
    and sh = ok_stepD(7) [OF s]
  note pt
  obtain nd where nd: "map_of (heap q) (GET_PTR ot) = Some nd"
    using reads_alive [OF ok t, of "GET_PTR ot"] pt by (auto simp: reads_def)
  with pt step P have "lf_ok n as bs q' (pcs(t := pc))"
    by (intro ok_silent [OF ok t]) (auto simp: pc_views split: option.splits)
  then show ?thesis by blast
qed

lemma step_push_next:
  assumes s: "ok_step n as bs q pcs t ch pc q'" and pt: "pcs t = Push_next x nn ot"
  shows "\<exists>as bs. lf_ok n as bs q' (pcs(t := pc))"
proof -
  note ok = ok_stepD(1) [OF s] and n = ok_stepD(2) [OF s] and t = ok_stepD(3) [OF s]
    and w = ok_stepD(4) [OF s] and step = ok_stepD(5) [OF s] and P = ok_stepD(6) [OF s]
    and sh = ok_stepD(7) [OF s]
  note pt
  obtain nd where nd: "map_of (heap q) (GET_PTR ot) = Some nd"
    using reads_alive [OF ok t, of "GET_PTR ot"] pt by (auto simp: reads_def)
  show ?thesis
  proof (cases "node_next nd = 0")
    case True
    with pt nd step have s: "pc = Tail_cas K_push_done ot nn (GET_PTR ot)"
      "q' = put_node (GET_PTR ot) (nd\<lparr>node_next := nn\<rparr>) q" by simp_all
    have "nn \<noteq> 0" using P pt by auto
    then have "lf_ok n as (bs @ [GET_PTR nn]) q' (pcs(t := pc))"
      using P by (intro ok_link [OF ok t nd True s(2)])
        (simp_all add: s pt pc_views nxt_def put_node_def)
    then show ?thesis by blast
  next
    case False
    with pt nd step have s: "pc = Tail_cas K_push_done ot (node_next nd) (GET_PTR ot)"
      "q' = q\<lparr>heap := heap_del (GET_PTR nn) (heap q)\<rparr>"
      by (auto simp: free_node_def bindE_eq_Inr)
    have "lf_ok n as bs q' (pcs(t := pc))"
      using False by (intro ok_free_private [OF ok t s(2)]) (simp_all add: s pt pc_views nxt_eq [OF nd])
    then show ?thesis by blast
  qed
qed

lemma step_push_help:
  assumes s: "ok_step n as bs q pcs t ch pc q'" and pt: "pcs t = Push_help x nn ot"
  shows "\<exists>as bs. lf_ok n as bs q' (pcs(t := pc))"
proof -
  note ok = ok_stepD(1) [OF s] and n = ok_stepD(2) [OF s] and t = ok_stepD(3) [OF s]
    and w = ok_stepD(4) [OF s] and step = ok_stepD(5) [OF s] and P = ok_stepD(6) [OF s]
    and sh = ok_stepD(7) [OF s]
  note pt
  obtain nd where nd: "map_of (heap q) (GET_PTR ot) = Some nd"
    using reads_alive [OF ok t, of "GET_PTR ot"] pt by (auto simp: reads_def)
  show ?thesis
  proof (cases "node_next nd = 0")
    case True
    with pt nd step have s: "pc = Push_realloc x nn ot"
      "q' = put_node (GET_PTR ot) (nd\<lparr>node_next := nn\<rparr>) q" by simp_all
    have "nn \<noteq> 0" using P pt by auto
    then have "lf_ok n as (bs @ [GET_PTR nn]) q' (pcs(t := pc))"
      using P by (intro ok_link [OF ok t nd True s(2)])
        (simp_all add: s pt pc_views nxt_def put_node_def)
    then show ?thesis by blast
  next
    case False
    with pt nd step have s: "pc = Tail_cas (K_push_again x nn ot) ot (node_next nd) (GET_PTR ot)"
      "q' = q" by simp_all
    have "lf_ok n as bs q' (pcs(t := pc))"
      using False P by (intro ok_silent [OF ok t]) (simp_all add: s pt pc_views nxt_eq [OF nd])
    then show ?thesis by blast
  qed
qed

lemma step_push_realloc:
  assumes s: "ok_step n as bs q pcs t ch pc q'" and pt: "pcs t = Push_realloc x nn ot"
  shows "\<exists>as bs. lf_ok n as bs q' (pcs(t := pc))"
proof -
  note ok = ok_stepD(1) [OF s] and n = ok_stepD(2) [OF s] and t = ok_stepD(3) [OF s]
    and w = ok_stepD(4) [OF s] and step = ok_stepD(5) [OF s] and P = ok_stepD(6) [OF s]
    and sh = ok_stepD(7) [OF s]
  note pt
  with step have a: "alloc_ok (heap q) (ch_addr ch)"
    "pc = Tail_cas (K_push_again x (SET_PTR nn (ch_addr ch)) ot) ot nn (GET_PTR ot)"
    "q' = q\<lparr>heap := heap_put (ch_addr ch) (new_node (ch_data ch)) (heap q)\<rparr>"
    by (auto simp: alloc_node_def split: if_splits)
  then have "addr48 (ch_addr ch)" by (simp add: alloc_ok_def)
  then have "lf_ok n as bs q' (pcs(t := pc))"
    using P by (intro ok_alloc [OF ok t a(1,3)])
      (simp_all add: pt a pc_views GET_PTR_SET_PTR GET_COUNT_SET_PTR)
  then show ?thesis by blast
qed

lemma step_tail_cas:
  assumes s: "ok_step n as bs q pcs t ch pc q'" and pt: "pcs t = Tail_cas k ot nt cur"
  shows "\<exists>as bs. lf_ok n as bs q' (pcs(t := pc))"
proof -
  note ok = ok_stepD(1) [OF s] and n = ok_stepD(2) [OF s] and t = ok_stepD(3) [OF s]
    and w = ok_stepD(4) [OF s] and step = ok_stepD(5) [OF s] and P = ok_stepD(6) [OF s]
    and sh = ok_stepD(7) [OF s]
  note pt
  show ?thesis
  proof (cases "tail q = ot \<and> \<not> ch_spurious ch")
    case True
    with pt step have s: "pc = Ext_load k ot" "q' = q\<lparr>tail := nt\<rparr>" by auto
    have "lf_ok n (as @ [hd bs]) (tl bs) q' (pcs(t := pc))"
      using P True by (intro ok_move_tail [OF ok t _ _ s(2)]) (simp_all add: s pt pc_views)
    then show ?thesis by blast
  next
    case False
    show ?thesis
    proof (cases "GET_PTR (tail q) = cur")
      case True
      with pt step False have s: "pc = Tail_cas (reload_tail (tail q) k) (tail q) nt cur" "q' = q"
        by auto
      have "lf_ok n as bs q' (pcs(t := pc))"
        using P True by (intro ok_silent [OF ok t]) (simp_all add: s pt pc_views)
      then show ?thesis by blast
    next
      case other: False
      with pt step False have s: "pc = Rel_load (reload_tail (tail q) k) cur" "q' = q"
        by (auto split: if_splits)
      have "lf_ok n as bs q' (pcs(t := pc))"
        using P other sh by (intro ok_silent [OF ok t]) (auto simp: s pt pc_views lf_shape_def)
      then show ?thesis by blast
    qed
  qed
qed

lemma step_ext_load:
  assumes s: "ok_step n as bs q pcs t ch pc q'" and pt: "pcs t = Ext_load k c"
  shows "\<exists>as bs. lf_ok n as bs q' (pcs(t := pc))"
proof -
  note ok = ok_stepD(1) [OF s] and n = ok_stepD(2) [OF s] and t = ok_stepD(3) [OF s]
    and w = ok_stepD(4) [OF s] and step = ok_stepD(5) [OF s] and P = ok_stepD(6) [OF s]
    and sh = ok_stepD(7) [OF s]
  note pt
  obtain nd where nd: "map_of (heap q) (GET_PTR c) = Some nd"
    using reads_alive [OF ok t, of "GET_PTR c"] pt by (auto simp: reads_def pays_def)
  with pt step have s: "pc = Ext_cas k c (internal_count nd) (external_counters nd)" "q' = q"
    by simp_all
  have "lf_ok n as bs q' (pcs(t := pc))"
    using P by (intro ok_silent [OF ok t]) (simp_all add: s pt pc_views)
  then show ?thesis by blast
qed

lemma step_ext_cas:
  assumes s: "ok_step n as bs q pcs t ch pc q'" and pt: "pcs t = Ext_cas k c ic ec"
  shows "\<exists>as bs. lf_ok n as bs q' (pcs(t := pc))"
proof -
  note ok = ok_stepD(1) [OF s] and n = ok_stepD(2) [OF s] and t = ok_stepD(3) [OF s]
    and w = ok_stepD(4) [OF s] and step = ok_stepD(5) [OF s] and P = ok_stepD(6) [OF s]
    and sh = ok_stepD(7) [OF s]
  note pt
  obtain nd where nd: "map_of (heap q) (GET_PTR c) = Some nd"
    using reads_alive [OF ok t, of "GET_PTR c"] pt by (auto simp: reads_def pays_def)
  have cc: "(ucast (count_increase c) :: 30 word) = ucast (GET_COUNT c - 2)"
    unfolding count_increase_def by (rule bit_word_eqI) (auto simp: bit_simps)
  show ?thesis
  proof (cases "internal_count nd = ic \<and> external_counters nd = ec")
    case True
    let ?ic = "ic + ucast (GET_COUNT c - 2)" and ?ec = "ec - 1"
    from pt nd step True cc have s: "pc = after_count k (GET_PTR c) ?ic ?ec"
      "q' = put_node (GET_PTR c) (nd\<lparr>internal_count := ?ic, external_counters := ?ec\<rparr>) q"
      by (auto simp: Let_def)
    have "lf_ok n as bs q' (pcs(t := pc))"
      unfolding s(1) using P True
      by (intro ok_settle [OF ok n t nd s(2)]) (simp_all add: pt pc_views)
    then show ?thesis by blast
  next
    case False
    with pt nd step have s: "pc = Ext_cas k c (internal_count nd) (external_counters nd)" "q' = q"
      by auto
    have "lf_ok n as bs q' (pcs(t := pc))"
      using P by (intro ok_silent [OF ok t]) (simp_all add: s pt pc_views)
    then show ?thesis by blast
  qed
qed

lemma step_rel_load:
  assumes s: "ok_step n as bs q pcs t ch pc q'" and pt: "pcs t = Rel_load k p"
  shows "\<exists>as bs. lf_ok n as bs q' (pcs(t := pc))"
proof -
  note ok = ok_stepD(1) [OF s] and n = ok_stepD(2) [OF s] and t = ok_stepD(3) [OF s]
    and w = ok_stepD(4) [OF s] and step = ok_stepD(5) [OF s] and P = ok_stepD(6) [OF s]
    and sh = ok_stepD(7) [OF s]
  note pt
  obtain nd where nd: "map_of (heap q) p = Some nd"
    using reads_alive [OF ok t, of p] pt by (auto simp: reads_def)
  with pt step have s: "pc = Rel_cas k p (internal_count nd) (external_counters nd)" "q' = q"
    by simp_all
  have "lf_ok n as bs q' (pcs(t := pc))"
    using P by (intro ok_silent [OF ok t]) (simp_all add: s pt pc_views)
  then show ?thesis by blast
qed

lemma step_rel_cas:
  assumes s: "ok_step n as bs q pcs t ch pc q'" and pt: "pcs t = Rel_cas k p ic ec"
  shows "\<exists>as bs. lf_ok n as bs q' (pcs(t := pc))"
proof -
  note ok = ok_stepD(1) [OF s] and n = ok_stepD(2) [OF s] and t = ok_stepD(3) [OF s]
    and w = ok_stepD(4) [OF s] and step = ok_stepD(5) [OF s] and P = ok_stepD(6) [OF s]
    and sh = ok_stepD(7) [OF s]
  note pt
  obtain nd where nd: "map_of (heap q) p = Some nd"
    using reads_alive [OF ok t, of p] pt by (auto simp: reads_def)
  show ?thesis
  proof (cases "internal_count nd = ic \<and> external_counters nd = ec")
    case True
    with pt nd step have s: "pc = after_count k p (ic - 1) ec"
      "q' = put_node p (nd\<lparr>internal_count := ic - 1, external_counters := ec\<rparr>) q"
      by (auto simp: Let_def)
    have "lf_ok n as bs q' (pcs(t := pc))"
      unfolding s(1) using P True
      by (intro ok_settle [OF ok n t nd s(2)]) (simp_all add: pt pc_views)
    then show ?thesis by blast
  next
    case False
    with pt nd step have s: "pc = Rel_cas k p (internal_count nd) (external_counters nd)" "q' = q"
      by auto
    have "lf_ok n as bs q' (pcs(t := pc))"
      using P by (intro ok_silent [OF ok t]) (simp_all add: s pt pc_views)
    then show ?thesis by blast
  qed
qed

lemma step_delete:
  assumes s: "ok_step n as bs q pcs t ch pc q'" and pt: "pcs t = Delete k p"
  shows "\<exists>as bs. lf_ok n as bs q' (pcs(t := pc))"
proof -
  note ok = ok_stepD(1) [OF s] and n = ok_stepD(2) [OF s] and t = ok_stepD(3) [OF s]
    and w = ok_stepD(4) [OF s] and step = ok_stepD(5) [OF s] and P = ok_stepD(6) [OF s]
    and sh = ok_stepD(7) [OF s]
  note pt
  with step have "pc = Count_destruct k" "q' = q\<lparr>heap := heap_del p (heap q)\<rparr>"
    by (auto simp: free_node_def bindE_eq_Inr)
  with ok_delete [OF ok n t pt] show ?thesis by blast
qed

lemma step_count_destruct:
  assumes s: "ok_step n as bs q pcs t ch pc q'" and pt: "pcs t = Count_destruct k"
  shows "\<exists>as bs. lf_ok n as bs q' (pcs(t := pc))"
proof -
  note ok = ok_stepD(1) [OF s] and n = ok_stepD(2) [OF s] and t = ok_stepD(3) [OF s]
    and w = ok_stepD(4) [OF s] and step = ok_stepD(5) [OF s] and P = ok_stepD(6) [OF s]
    and sh = ok_stepD(7) [OF s]
  note pt
  with step have s: "pc = resume k" "q' = q\<lparr>destruct_count := destruct_count q + 1\<rparr>" by simp_all
  have "pays (pcs t) = None" "deletes (pcs t) = None" "moves_tail (pcs t) = None"
    by (simp_all add: pt pc_views)
  with P have "lf_ok n as bs q' (pcs(t := pc))"
    by (intro ok_silent [OF ok t]) (simp_all add: s pt)
  then show ?thesis by blast
qed

lemma step_pop_inc:
  assumes s: "ok_step n as bs q pcs t ch pc q'" and pt: "pcs t = Pop_inc oh"
  shows "\<exists>as bs. lf_ok n as bs q' (pcs(t := pc))"
proof -
  note ok = ok_stepD(1) [OF s] and n = ok_stepD(2) [OF s] and t = ok_stepD(3) [OF s]
    and w = ok_stepD(4) [OF s] and step = ok_stepD(5) [OF s] and P = ok_stepD(6) [OF s]
    and sh = ok_stepD(7) [OF s]
  note pt
  show ?thesis
  proof (cases "head q = oh")
    case True
    with pt step have s: "pc = Pop_tail (inc_count oh)" "q' = q\<lparr>head := inc_count oh\<rparr>" by auto
    have "not_ahead bs (GET_PTR oh)"
      using sh True by (cases as) (auto simp: lf_shape_def not_ahead_def)
    with True w have "lf_ok n as bs q' (pcs(t := pc))"
      by (intro ok_inc [OF ok t, of oh]) (auto simp: pt s pc_views no_wrap_def)
    then show ?thesis by blast
  next
    case False
    with pt step have "pc = Pop_inc (head q)" "q' = q"
      by (auto simp: increase_external_count_def)
    with pt have "lf_ok n as bs q' (pcs(t := pc))"
      by (intro ok_silent [OF ok t]) (auto simp: pc_views)
    then show ?thesis by blast
  qed
qed

lemma step_pop_tail:
  assumes s: "ok_step n as bs q pcs t ch pc q'" and pt: "pcs t = Pop_tail oh"
  shows "\<exists>as bs. lf_ok n as bs q' (pcs(t := pc))"
proof -
  note ok = ok_stepD(1) [OF s] and n = ok_stepD(2) [OF s] and t = ok_stepD(3) [OF s]
    and w = ok_stepD(4) [OF s] and step = ok_stepD(5) [OF s] and P = ok_stepD(6) [OF s]
    and sh = ok_stepD(7) [OF s]
  note pt
  obtain nd where nd: "map_of (heap q) (GET_PTR oh) = Some nd" "owners n pcs (GET_PTR oh) = 0"
    using lf_okD(5) [OF ok t] pt by (auto simp: thread_ok_def)
  show ?thesis
  proof (cases "GET_PTR oh = GET_PTR (tail q)")
    case True
    with pt step have s: "pc = Rel_load K_pop_empty (GET_PTR oh)" "q' = q" by auto
    have "lf_ok n as bs q' (pcs(t := pc))"
      by (intro ok_silent [OF ok t]) (simp_all add: s pt pc_views)
    then show ?thesis by blast
  next
    case False
    with pt step have s: "pc = Pop_next oh" "q' = q" by auto
    have nb: "GET_PTR oh \<notin> set bs"
      using P sh False by (auto simp: pt not_ahead_def lf_shape_def)
    then have "nxt q (GET_PTR oh) \<noteq> 0"
      using lf_okD(4) [OF ok nd(1)] nd by (auto simp: marks_ok_def nxt_def)
    with nb have "lf_ok n as bs q' (pcs(t := pc))"
      by (intro ok_silent [OF ok t]) (simp_all add: s pt pc_views)
    then show ?thesis by blast
  qed
qed

lemma step_pop_next:
  assumes s: "ok_step n as bs q pcs t ch pc q'" and pt: "pcs t = Pop_next oh"
  shows "\<exists>as bs. lf_ok n as bs q' (pcs(t := pc))"
proof -
  note ok = ok_stepD(1) [OF s] and n = ok_stepD(2) [OF s] and t = ok_stepD(3) [OF s]
    and w = ok_stepD(4) [OF s] and step = ok_stepD(5) [OF s] and P = ok_stepD(6) [OF s]
    and sh = ok_stepD(7) [OF s]
  note pt
  obtain nd where nd: "map_of (heap q) (GET_PTR oh) = Some nd"
    using reads_alive [OF ok t, of "GET_PTR oh"] pt by (auto simp: reads_def)
  with pt step have s: "pc = Pop_cas oh (node_next nd)" "q' = q" by simp_all
  have "lf_ok n as bs q' (pcs(t := pc))"
    using P by (intro ok_silent [OF ok t]) (simp_all add: s pt pc_views nxt_eq [OF nd])
  then show ?thesis by blast
qed

lemma step_pop_cas:
  assumes s: "ok_step n as bs q pcs t ch pc q'" and pt: "pcs t = Pop_cas oh nx"
  shows "\<exists>as bs. lf_ok n as bs q' (pcs(t := pc))"
proof -
  note ok = ok_stepD(1) [OF s] and n = ok_stepD(2) [OF s] and t = ok_stepD(3) [OF s]
    and w = ok_stepD(4) [OF s] and step = ok_stepD(5) [OF s] and P = ok_stepD(6) [OF s]
    and sh = ok_stepD(7) [OF s]
  note pt
  show ?thesis
  proof (cases "head q = oh")
    case True
    with pt step have s: "pc = Pop_data oh" "q' = q\<lparr>head := nx\<rparr>" by auto
    have "lf_ok n (tl as) bs q' (pcs(t := pc))"
      using P True by (intro ok_move_head [OF ok t _ _ s(2)]) (simp_all add: s pt pc_views)
    then show ?thesis by blast
  next
    case False
    with pt step have s: "pc = Rel_load (K_pop_again (head q)) (GET_PTR oh)" "q' = q" by auto
    have "lf_ok n as bs q' (pcs(t := pc))"
      by (intro ok_silent [OF ok t]) (simp_all add: s pt pc_views)
    then show ?thesis by blast
  qed
qed

lemma step_pop_data:
  assumes s: "ok_step n as bs q pcs t ch pc q'" and pt: "pcs t = Pop_data oh"
  shows "\<exists>as bs. lf_ok n as bs q' (pcs(t := pc))"
proof -
  note ok = ok_stepD(1) [OF s] and n = ok_stepD(2) [OF s] and t = ok_stepD(3) [OF s]
    and w = ok_stepD(4) [OF s] and step = ok_stepD(5) [OF s] and P = ok_stepD(6) [OF s]
    and sh = ok_stepD(7) [OF s]
  note pt
  obtain nd where nd: "map_of (heap q) (GET_PTR oh) = Some nd"
    using reads_alive [OF ok t, of "GET_PTR oh"] pt by (auto simp: reads_def pays_def)
  with pt step have s: "pc = Ext_load (K_pop_done (node_data nd)) oh"
    "q' = put_node (GET_PTR oh) (nd\<lparr>node_data := None\<rparr>) q" by simp_all
  have "lf_ok n as bs q' (pcs(t := pc))"
    using nd by (intro ok_silent [OF ok t]) (simp_all add: s pt pc_views)
  then show ?thesis by blast
qed

lemma step_other:
  assumes s: "ok_step n as bs q pcs t ch pc q'" and pt: "pcs t \<in> {Idle, Push_count, Push_size, Push_ret, Pop_start, Pop_check h, Pop_load,
      Pop_count r, Pop_size r, Pop_ret r}"
  shows "\<exists>as bs. lf_ok n as bs q' (pcs(t := pc))"
proof -
  note ok = ok_stepD(1) [OF s] and n = ok_stepD(2) [OF s] and t = ok_stepD(3) [OF s]
    and w = ok_stepD(4) [OF s] and step = ok_stepD(5) [OF s] and P = ok_stepD(6) [OF s]
    and sh = ok_stepD(7) [OF s]
  note pt
  with step P have "lf_ok n as bs q' (pcs(t := pc))"
    by (intro ok_silent [OF ok t]) (auto simp: pc_views)
  then show ?thesis by blast
qed

lemma step_ok:
  assumes "ok_step n as bs q pcs t ch pc q'"
  shows "\<exists>as bs. lf_ok n as bs q' (pcs(t := pc))"
  by (cases "pcs t") (rule step_push_start [OF assms]
    step_push_load [OF assms]
    step_push_inc [OF assms]
    step_push_data [OF assms]
    step_push_next [OF assms]
    step_push_help [OF assms]
    step_push_realloc [OF assms]
    step_tail_cas [OF assms]
    step_ext_load [OF assms]
    step_ext_cas [OF assms]
    step_rel_load [OF assms]
    step_rel_cas [OF assms]
    step_delete [OF assms]
    step_count_destruct [OF assms]
    step_pop_inc [OF assms]
    step_pop_tail [OF assms]
    step_pop_next [OF assms]
    step_pop_cas [OF assms]
    step_pop_data [OF assms]
    step_other [OF assms], simp; fail)+

lemma step_safe:
  assumes ok: "lf_ok n as bs q pcs" and n: "n < 2 ^ 30" and t: "t < n"
    and step: "lf_step ch (pcs t) q = Inl e"
  shows "e = Bad_alloc"
proof -
  have alive: "\<exists>nd. map_of (heap q) a = Some nd" if "reads (pcs t) = Some a" for a
    by (rule reads_alive [OF ok t that])
  have own: "map_of (heap q) a \<noteq> None" if "owns (pcs t) = Some a" for a
    by (rule owned_node [OF ok t that])
  show ?thesis
  proof (cases "pcs t")
    case (Push_next x nn ot)
    obtain nd where nd: "map_of (heap q) (GET_PTR ot) = Some nd"
      using alive [of "GET_PTR ot"] Push_next by (auto simp: reads_def)
    obtain md where "map_of (heap q) (GET_PTR nn) = Some md"
      using own [of "GET_PTR nn"] Push_next by auto
    with nd step Push_next show ?thesis by (auto simp: free_node_def split: if_splits)
  next
    case (Delete k p)
    with ok_delete [OF ok n t Delete refl] step show ?thesis by (auto simp: free_node_def)
  next
    case (Push_data x nn ot)
    with alive [of "GET_PTR ot"] step show ?thesis
      by (auto simp: reads_def split: option.splits)
  next
    case (Push_help x nn ot)
    with alive [of "GET_PTR ot"] step show ?thesis by (auto simp: reads_def split: if_splits)
  next
    case (Pop_data oh)
    with alive [of "GET_PTR oh"] step show ?thesis by (auto simp: reads_def pays_def)
  next
    case (Pop_next oh)
    with alive [of "GET_PTR oh"] step show ?thesis by (auto simp: reads_def)
  next
    case (Ext_load k c)
    with alive [of "GET_PTR c"] step show ?thesis by (auto simp: reads_def pays_def)
  next
    case (Ext_cas k c ic ec)
    with alive [of "GET_PTR c"] step show ?thesis
      by (auto simp: reads_def pays_def Let_def split: if_splits)
  next
    case (Rel_load k p)
    with alive [of p] step show ?thesis by (auto simp: reads_def)
  next
    case (Rel_cas k p ic ec)
    with alive [of p] step show ?thesis by (auto simp: reads_def Let_def split: if_splits)
  qed (use step in \<open>auto simp: alloc_node_def split: if_splits option.splits\<close>)
qed

section \<open>Reachable states\<close>

text \<open>
  One event of a machine of at most \<open>max_threads\<close> threads: a call by an idle thread, or an
  atomic step, on condition that a step that takes a reference does not wrap the 16-bit count.
\<close>

definition max_threads :: nat where
  "max_threads = 2 ^ 30 - 1"

definition event_fits :: "'a event \<Rightarrow> 'a machine \<Rightarrow> bool" where
  "event_fits e m = (case e of
       Call_push t x \<Rightarrow> t < max_threads
     | Call_pop t \<Rightarrow> t < max_threads
     | Step t ch \<Rightarrow> t < max_threads \<and> no_wrap (fst m) (snd m t))"

fun trace_fits :: "'a event list \<Rightarrow> 'a machine \<Rightarrow> bool" where
  "trace_fits [] m = True"
| "trace_fits (e # es) m =
     (event_fits e m \<and> (case lf_event e m of Inl f \<Rightarrow> True | Inr m' \<Rightarrow> trace_fits es m'))"

inductive lf_next :: "'a machine \<Rightarrow> 'a machine \<Rightarrow> bool" where
  event: "event_fits e m \<Longrightarrow> lf_event e m = Inr m' \<Longrightarrow> lf_next m m'"

definition lf_start :: "'a machine \<Rightarrow> bool" where
  "lf_start = (\<lambda>(q, pcs). (\<exists>ch. lfq_new ch = Inr q) \<and> pcs = (\<lambda>_. Idle))"

definition lf_inv :: "'a machine \<Rightarrow> bool" where
  "lf_inv = (\<lambda>(q, pcs). \<exists>as bs. lf_ok max_threads as bs q pcs)"

lemma thread_sum_idle: "thread_sum n f (\<lambda>_. pc) = (\<Sum>t<n. f pc)"
  by (simp add: thread_sum_def)

lemma lf_start_ok:
  assumes "lf_start m"
  shows "lf_inv m"
proof -
  obtain q pcs where m: "m = (q, pcs)" by fastforce
  from assms m obtain ch where q: "lfq_new ch = Inr q" and p: "pcs = (\<lambda>_. Idle)"
    by (auto simp: lf_start_def)
  let ?a = "ch_addr ch"
  from q have a: "addr48 ?a" and h: "head q = cnp 1 ?a" "tail q = cnp 1 ?a"
    "map_of (heap q) = [?a \<mapsto> new_node (ch_data ch)]"
    by (auto simp: lfq_new_def alloc_node_def alloc_ok_def Let_def heap_put_def split: if_splits)
  have x: "nxt q = (\<lambda>_. 0)" using h by (auto simp: nxt_def new_node_def fun_eq_iff)
  have counts: "thread_count k P (\<lambda>_. Idle :: 'a pc) = (if P Idle then int k else 0)" for k P
    by (simp add: thread_count_def thread_sum_idle)
  have b: "balance_of b (Idle :: 'a pc) = 0" for b by (simp add: balance_of_def pays_def)
  have "lf_ok max_threads [] [?a] q pcs"
    using a unfolding lf_ok_def
    by (auto simp: lf_shape_def h x dead_ok_def refs_ok_def marks_ok_def thread_ok_def
        tail_helped_def p counts b thread_sum_idle new_node_def paying_def pc_views credit_def
        split: if_splits)
  then show ?thesis unfolding lf_inv_def m by auto
qed

lemma final_view: "final pc \<Longrightarrow> owns pc = None \<and> holds pc = None \<and> pays pc = None \<and>
    deletes pc = None \<and> moves_tail pc = None"
  by (cases pc) (simp_all add: pc_views)

lemma call_view [simp]:
  "pays (Push_start x) = None" "deletes (Push_start x) = None"
  "pays Pop_start = None" "deletes Pop_start = None"
  by (simp_all add: pc_views)

lemma event_ok:
  assumes inv: "lf_inv m" and e: "event_fits e m" "lf_event e m = Inr m'"
  shows "lf_inv m'"
proof -
  obtain q pcs where m: "m = (q, pcs)" by fastforce
  from inv m obtain as bs where ok: "lf_ok max_threads as bs q pcs"
    by (auto simp: lf_inv_def)
  have n: "max_threads < 2 ^ 30" by (simp add: max_threads_def)
  show ?thesis
  proof (cases e)
    case (Call_push t x)
    with e m have t: "t < max_threads" and m': "m' = (q, if final (pcs t) then pcs(t := Push_start x) else pcs)"
      by (auto simp: event_fits_def)
    have "lf_ok max_threads as bs q (pcs(t := Push_start x))" if "final (pcs t)"
      by (rule ok_silent [OF ok t]) (simp_all add: final_view [OF that])
    with ok m' show ?thesis by (auto simp: lf_inv_def)
  next
    case (Call_pop t)
    with e m have t: "t < max_threads" and m': "m' = (q, if final (pcs t) then pcs(t := Pop_start) else pcs)"
      by (auto simp: event_fits_def)
    have "lf_ok max_threads as bs q (pcs(t := Pop_start))" if "final (pcs t)"
      by (rule ok_silent [OF ok t]) (simp_all add: final_view [OF that])
    with ok m' show ?thesis by (auto simp: lf_inv_def)
  next
    case (Step t ch)
    with e m obtain pc q' where s: "lf_step ch (pcs t) q = Inr (pc, q')" "m' = (q', pcs(t := pc))"
      and t: "t < max_threads" and w: "no_wrap q (pcs t)"
      by (auto simp: bindE_eq_Inr event_fits_def)
    from step_ok [of max_threads as bs q pcs t ch pc q'] ok n t w s show ?thesis
      by (auto simp: lf_inv_def ok_step_def)
  qed
qed

lemma event_safe:
  assumes inv: "lf_inv m" and e: "event_fits e m" "lf_event e m = Inl f"
  shows "f = Bad_alloc"
proof -
  obtain q pcs where m: "m = (q, pcs)" by fastforce
  from inv m obtain as bs where ok: "lf_ok max_threads as bs q pcs"
    by (auto simp: lf_inv_def)
  have n: "max_threads < 2 ^ 30" by (simp add: max_threads_def)
  from e m obtain t ch where s: "t < max_threads" "lf_step ch (pcs t) q = Inl f"
    by (cases e) (auto simp: event_fits_def bindE_def split: sum.splits)
  then show ?thesis by (rule step_safe [OF ok n])
qed


interpretation lfm: inductive_invariant lf_start lf_next lf_inv
  by unfold_locales (auto intro: lf_start_ok event_ok elim: lf_next.cases)

lemma trace_ok:
  assumes "lf_inv m" "trace_fits es m"
  shows "case lf_trace es m of Inl f \<Rightarrow> f = Bad_alloc | Inr m' \<Rightarrow> lf_inv m' \<and> lf_next\<^sup>*\<^sup>* m m'"
  using assms unfolding lf_trace_def
proof (induction es arbitrary: m)
  case (Cons e es)
  then have e: "event_fits e m" by simp
  show ?case
  proof (cases "lf_event e m")
    case (Inl f)
    with event_safe [OF Cons.prems(1) e Inl] show ?thesis by simp
  next
    case (Inr m1)
    have "lf_inv m1" "lf_next m m1"
      using event_ok [OF Cons.prems(1) e Inr] lf_next.event [OF e Inr] by simp_all
    with Cons Inr show ?thesis
      by (fastforce split: sum.splits intro: converse_rtranclp_into_rtranclp)
  qed
qed simp

lemma trace_new_ok:
  assumes "lfq_new ch = Inr q0" "trace_fits es (q0, \<lambda>_. Idle)" "lf_trace es (q0, \<lambda>_. Idle) = Inr m"
  shows "lf_inv m"
proof -
  have "lf_start (q0, \<lambda>_. Idle)" using assms(1) by (auto simp: lf_start_def)
  then show ?thesis using trace_ok [OF lf_start_ok assms(2)] assms(3) by simp
qed

text \<open>With every thread at rest, the invariant leaves only the linked nodes.\<close>

lemma rest_nodes:
  assumes ok: "lf_ok n as bs q pcs" and rest: "\<And>t. final (pcs t)"
  shows "\<exists>b. bs = [b]" "dom (map_of (heap q)) = set (as @ bs)"
    "a \<in> set (as @ bs) \<Longrightarrow> \<exists>nd. map_of (heap q) a = Some nd \<and>
       external_counters nd = (if a = last (as @ bs) then 2 else 1) \<and>
       internal_count nd + credit (head q) a + credit (tail q) a = 0"
proof -
  have sh: "lf_shape as bs q" by (rule lf_okD(1) [OF ok])
  note v = final_view [OF rest]
  have z: "owners n pcs a = 0" "payers n pcs a = 0" "deleters n pcs a = 0" for a
    using v by (auto simp: thread_count_eq_0 paying_def)
  have bal: "thread_sum n (balance_of a) pcs = 0" for a
    by (rule balance_none [OF z(2)]) (simp add: v)
  have "tl bs = []" using lf_okD(6) [OF ok] v by (auto simp: tail_helped_def)
  with sh obtain b where b: "bs = [b]" by (cases bs) (auto simp: lf_shape_def)
  then show "\<exists>b. bs = [b]" by blast
  have node: "uint (external_counters nd) = of_bool (a \<in> set as) + 2 * of_bool (a \<in> set bs)"
    "internal_count nd \<noteq> 0 \<or> external_counters nd \<noteq> 0"
    "internal_count nd + credit (head q) a + credit (tail q) a = 0"
    if "map_of (heap q) a = Some nd" for a nd
    using lf_okD(3,4) [OF ok that] z [of a] bal [of a] by (auto simp: refs_ok_def marks_ok_def)
  show d: "dom (map_of (heap q)) = set (as @ bs)"
  proof
    show "set (as @ bs) \<subseteq> dom (map_of (heap q))" using sh by (simp add: lf_shape_def)
    show "dom (map_of (heap q)) \<subseteq> set (as @ bs)"
    proof
      fix a assume "a \<in> dom (map_of (heap q))"
      then obtain nd where nd: "map_of (heap q) a = Some nd" by blast
      show "a \<in> set (as @ bs)"
      proof (rule ccontr)
        assume "a \<notin> set (as @ bs)"
        with node [OF nd] credit_zero [OF ok this] show False by (auto simp: uint_0_iff)
      qed
    qed
  qed
  assume a: "a \<in> set (as @ bs)"
  then obtain nd where nd: "map_of (heap q) a = Some nd" using d by blast
  have "external_counters nd = (if a = last (as @ bs) then 2 else 1)"
  proof -
    have w: "uint x = 1 \<Longrightarrow> x = 1" "uint x = 2 \<Longrightarrow> x = 2" for x :: "2 word"
      by (simp_all add: word_uint_eq_iff)
    have "a \<in> set as \<longleftrightarrow> a \<noteq> b" using a sh b by (auto simp: lf_shape_def)
    with node(1) [OF nd] b w show ?thesis by auto
  qed
  with nd node(3) [OF nd] show "\<exists>nd. map_of (heap q) a = Some nd \<and>
       external_counters nd = (if a = last (as @ bs) then 2 else 1) \<and>
       internal_count nd + credit (head q) a + credit (tail q) a = 0" by blast
qed

section \<open>Properties\<close>

text \<open>C2: no interleaving of pushes and pops reads or frees a node that is not allocated. A trace of
  calls and atomic steps of fewer than 2^30 threads, from a fresh queue, in which no step wraps a
  16-bit external count, runs to its end or stops because the allocator failed: it never
  dereferences null, never reads a freed node and never frees a node twice, whatever the
  schedule, the spurious failures and the addresses the allocator reuses.\<close>

theorem lfq_memory_safe:
  assumes "lfq_new ch = Inr q0" "trace_fits es (q0, \<lambda>_. Idle)"
  shows "lf_trace es (q0, \<lambda>_. Idle) \<in> insert (Inl Bad_alloc) (range Inr)"
proof -
  have "lf_inv (q0, \<lambda>_. Idle)"
    by (rule lf_start_ok) (use assms(1) in \<open>auto simp: lf_start_def\<close>)
  from trace_ok [OF this assms(2)] show ?thesis
    by (cases "lf_trace es (q0, \<lambda>_. Idle)") auto
qed

lemma fits_simps:
  "event_fits (Call_push t x) m = (t < max_threads)"
  "event_fits (Call_pop t) m = (t < max_threads)"
  "event_fits (Step t ch) m = (t < max_threads \<and> no_wrap (fst m) (snd m t))"
  by (simp_all add: event_fits_def)

text \<open>The schedule of \<open>lost_push\<close> is such a trace: it loses an element, and still no step of it
  touches a freed node.\<close>

lemma lost_push_fits:
  "\<exists>q0 q. lfq_new (answers 1) = Inr q0 \<and>
     trace_fits (lost_push_schedule (10 :: nat) 11 2 3) (q0, \<lambda>_. Idle) \<and>
     lf_trace (lost_push_schedule (10 :: nat) 11 2 3) (q0, \<lambda>_. Idle) =
       Inr (q, (\<lambda>_. Idle)(1 := Push_ret, 2 := Pop_ret (Some 11), 0 := Push_ret))"
  by (simp add: lost_push_schedule_def lf_trace_def lfq_new_def alloc_node_def Let_def alloc_ok_def
      put_node_def new_node_def after_count_def free_node_def count_increase_cnp increase_cnp
      cnp_eq_iff cnp_eq_0 addr48_iff fits_simps no_wrap_def max_threads_def count_ok_def)

theorem lfq_memory_safe_witness:
  "\<exists>q0. lfq_new (answers 1) = Inr q0 \<and>
     lf_trace (lost_push_schedule (10 :: nat) 11 2 3) (q0, \<lambda>_. Idle)
       \<in> insert (Inl Bad_alloc) (range Inr)"
  using lost_push_fits lfq_memory_safe by blast


text \<open>C23: the queue reclaims every node. When all threads have returned, after any such trace, the
  allocated nodes are exactly those that the links lead through from head to tail; the node tail
  points to is the last one, and every node has the external counters and the internal count that
  balance the counts packed in head and tail.\<close>

theorem lfq_quiescent_no_leak:
  assumes "lfq_new ch = Inr q0" "trace_fits es (q0, \<lambda>_. Idle)"
    and "lf_trace es (q0, \<lambda>_. Idle) = Inr (q, pcs)" "\<And>t. final (pcs t)"
  shows "\<exists>as. as \<noteq> [] \<and> distinct as \<and> dom (map_of (heap q)) = set as \<and>
    hd as = GET_PTR (head q) \<and> last as = GET_PTR (tail q) \<and>
    successively (\<lambda>a b. GET_PTR (nxt q a) = b) as \<and> nxt q (last as) = 0 \<and>
    (\<forall>a \<in> set as. \<exists>nd. map_of (heap q) a = Some nd \<and>
      external_counters nd = (if a = last as then 2 else 1) \<and>
      internal_count nd + credit (head q) a + credit (tail q) a = 0)"
proof -
  from trace_new_ok [OF assms(1-3)]
  obtain as bs where ok: "lf_ok max_threads as bs q pcs" by (auto simp: lf_inv_def)
  note r = rest_nodes [OF ok assms(4)]
  have sh: "lf_shape as bs q" by (rule lf_okD(1) [OF ok])
  have "successively (\<lambda>a b. GET_PTR (nxt q a) = b) (as @ bs)"
    by (rule successively_mono [where P = "\<lambda>a b. nxt q a \<noteq> 0 \<and> GET_PTR (nxt q a) = b"])
      (use sh in \<open>auto simp: lf_shape_def\<close>)
  with sh r show ?thesis
    by (intro exI [of _ "as @ bs"]) (auto simp: lf_shape_def simp del: dom_map_of_conv_image_fst)
qed

theorem lfq_quiescent_no_leak_witness:
  "\<exists>q0 q pcs as. lfq_new (answers 1) = Inr q0 \<and>
     lf_trace (lost_push_schedule (10 :: nat) 11 2 3) (q0, \<lambda>_. Idle) = Inr (q, pcs) \<and>
     dom (map_of (heap q)) = set as \<and> last as = GET_PTR (tail q)"
proof -
  obtain q0 q where q0: "lfq_new (answers 1) = Inr q0"
    "trace_fits (lost_push_schedule (10 :: nat) 11 2 3) (q0, \<lambda>_. Idle)"
    and t: "lf_trace (lost_push_schedule (10 :: nat) 11 2 3) (q0, \<lambda>_. Idle) =
      Inr (q, (\<lambda>_. Idle)(1 := Push_ret, 2 := Pop_ret (Some 11), 0 := Push_ret))"
    using lost_push_fits by blast
  have "final (((\<lambda>_. Idle)(1 := Push_ret, 2 := Pop_ret (Some (11 :: nat)), 0 := Push_ret)) u)"
    for u :: nat by simp
  from lfq_quiescent_no_leak [OF q0 t this] q0(1) t show ?thesis by blast
qed

end
