(* ===== verification/LFQueue_Progress.thy ===== *)
theory LFQueue_Progress
  imports LFQueue_Safety
begin

text \<open>
  Progress of the lock-free queue: it is obstruction free. \<open>fresh_data\<close> adds to the invariant
  that a node that is not yet the tail has no data; \<open>rank\<close> bounds the steps a thread still has
  to make when it runs alone, whatever state the other threads have left; every step of such a
  run lowers it (\<open>rank_step\<close>), and it is at most 31.
\<close>

section \<open>Data ahead of the tail\<close>

text \<open>An event that gets zeroed memory if it allocates.\<close>

definition zeroed :: "'a event \<Rightarrow> bool" where
  "zeroed e \<longleftrightarrow> (case e of Step t ch \<Rightarrow> ch_data ch = None | _ \<Rightarrow> True)"

definition fresh_data :: "'a lfq \<Rightarrow> bool" where
  "fresh_data q \<longleftrightarrow> (\<forall>a nd. map_of (heap q) a = Some nd \<longrightarrow> node_next nd = 0 \<longrightarrow>
     a \<noteq> GET_PTR (tail q) \<longrightarrow> node_data nd = None)"

lemma fresh_dataD:
  "fresh_data q \<Longrightarrow> map_of (heap q) a = Some nd \<Longrightarrow> node_next nd = 0 \<Longrightarrow> a \<noteq> GET_PTR (tail q) \<Longrightarrow>
     node_data nd = None"
  unfolding fresh_data_def by blast

text \<open>A step that keeps the tail's node and moves no data to a node without a successor.\<close>

lemma fresh_data_frame:
  assumes "fresh_data q" "GET_PTR (tail q') = GET_PTR (tail q)"
    and "\<And>a nd'. map_of (heap q') a = Some nd' \<Longrightarrow> node_data nd' = None \<or>
      (\<exists>nd. map_of (heap q) a = Some nd \<and> node_data nd' = node_data nd \<and>
        (node_next nd' = 0 \<longrightarrow> node_next nd = 0))"
  shows "fresh_data q'"
  using assms unfolding fresh_data_def by metis

lemma fresh_data_heap:
  "heap q' = heap q \<Longrightarrow> GET_PTR (tail q') = GET_PTR (tail q) \<Longrightarrow> fresh_data q' = fresh_data q"
  by (simp add: fresh_data_def)

lemma fresh_data_step:
  assumes s: "ok_step n as bs q pcs t ch pc q'" and z: "ch_data ch = None" and f: "fresh_data q"
  shows "fresh_data q'"
proof -
  note ok = ok_stepD(1) [OF s] and t = ok_stepD(3) [OF s]
    and step = ok_stepD(5) [OF s] and P = ok_stepD(6) [OF s] and sh = ok_stepD(7) [OF s]
  show ?thesis
  proof (cases "pcs t")
    case (Push_data x nn ot)
    let ?a = "GET_PTR ot"
    obtain nd where nd: "map_of (heap q) ?a = Some nd" 
      using reads_alive [OF ok t, of ?a] Push_data by (auto simp: reads_def)
    have "owners n pcs ?a = 0" using lf_okD(5) [OF ok t] Push_data by (simp add: thread_ok_def)
    then have nz: "node_next nd \<noteq> 0 \<or> ?a = GET_PTR (tail q)"
      using lf_okD(4) [OF ok nd] P sh Push_data by (auto simp: marks_ok_def lf_shape_def not_ahead_def)
    with f nd step Push_data show ?thesis
      by (auto simp: heap_get_Inr put_node_def fresh_data_def split: option.splits if_splits)
  next
    case (Tail_cas k ot nt cur)
    show ?thesis
    proof (cases "tail q = ot \<and> \<not> ch_spurious ch")
      case True
      with step Tail_cas have q': "q' = q\<lparr>tail := nt\<rparr>" by simp
      have cur: "GET_PTR (tail q) = cur" "nxt q cur \<noteq> 0" using P Tail_cas True by auto
      show ?thesis unfolding fresh_data_def
      proof (intro allI impI)
        fix a nd assume a: "map_of (heap q') a = Some nd" "node_next nd = 0"
        with cur have "a \<noteq> GET_PTR (tail q)" by (auto simp: q' nxt_def)
        with a fresh_dataD [OF f] show "node_data nd = None" by (simp add: q')
      qed
    next
      case False
      with step Tail_cas have "q' = q" by (auto split: if_splits)
      with f show ?thesis by simp
    qed
  qed (use f step z in \<open>auto simp: alloc_node_def put_node_def free_node_def heap_get_Inr new_node_def Let_def
      bindE_eq_Inr fresh_data_def increase_Some split: if_splits option.splits\<close>)
qed

section \<open>A rank\<close>

text \<open>Whether the node at an address has data.\<close>

definition has_data :: "'a lfq \<Rightarrow> u64 \<Rightarrow> bool" where
  "has_data q a \<longleftrightarrow> (case map_of (heap q) a of None \<Rightarrow> False | Some nd \<Rightarrow> node_data nd \<noteq> None)"

definition matches :: "'a lfq \<Rightarrow> u64 \<Rightarrow> 30 word \<Rightarrow> 2 word \<Rightarrow> bool" where
  "matches q a ic ec \<longleftrightarrow> (case map_of (heap q) a of None \<Rightarrow> False
     | Some nd \<Rightarrow> internal_count nd = ic \<and> external_counters nd = ec)"

definition inc_rank :: "'a lfq \<Rightarrow> u64 \<Rightarrow> nat" where
  "inc_rank q ot = 11 + (if has_data q (GET_PTR (tail q)) then 11 else 0) +
     (if tail q = ot then 0 else 1)"

definition pop_rank :: "'a lfq \<Rightarrow> u64 \<Rightarrow> nat" where
  "pop_rank q oh = 11 + (if head q = oh then 0 else 1)"

primrec kont_rank :: "'a lfq \<Rightarrow> 'a kont \<Rightarrow> nat" where
  "kont_rank q K_push_done = 2"
| "kont_rank q (K_push_again x nn ot) = inc_rank q ot"
| "kont_rank q K_pop_empty = 0"
| "kont_rank q (K_pop_again oh) = pop_rank q oh"
| "kont_rank q (K_pop_done r) = 2"

text \<open>The same when the tail is about to move: the next node has no data.\<close>

definition moved_rank :: "'a lfq \<Rightarrow> 'a kont \<Rightarrow> nat" where
  "moved_rank q k = (case k of K_push_again x nn ot \<Rightarrow> 12 | _ \<Rightarrow> kont_rank q k)"

text \<open>The steps a thread still has to make when it runs alone.\<close>

primrec rank :: "'a lfq \<Rightarrow> 'a pc \<Rightarrow> nat" where
  "rank q Idle = 0"
| "rank q (Push_start x) = 13 + (if has_data q (GET_PTR (tail q)) then 11 else 0)"
| "rank q (Push_load x nn) = 12 + (if has_data q (GET_PTR (tail q)) then 11 else 0)"
| "rank q (Push_inc x nn ot) = inc_rank q ot"
| "rank q (Push_data x nn ot) =
     (if \<not> has_data q (GET_PTR ot) then 10 else if GET_PTR (tail q) = GET_PTR ot then 21 else 31)"
| "rank q (Push_next x nn ot) = 9"
| "rank q (Push_help x nn ot) = (if GET_PTR (tail q) = GET_PTR ot then 20 else 30)"
| "rank q (Push_realloc x nn ot) = (if GET_PTR (tail q) = GET_PTR ot then 19 else 29)"
| "rank q (Tail_cas k ot nt cur) =
     (if GET_PTR (tail q) = cur then 5 + (if tail q = ot then 0 else 1) + moved_rank q k
      else 5 + kont_rank q (reload_tail (tail q) k))"
| "rank q (Ext_load k c) = 4 + kont_rank q k"
| "rank q (Ext_cas k c ic ec) = 3 + kont_rank q k + (if matches q (GET_PTR c) ic ec then 0 else 1)"
| "rank q (Rel_load k p) = 4 + kont_rank q k"
| "rank q (Rel_cas k p ic ec) = 3 + kont_rank q k + (if matches q p ic ec then 0 else 1)"
| "rank q (Delete k p) = 2 + kont_rank q k"
| "rank q (Count_destruct k) = 1 + kont_rank q k"
| "rank q Push_count = 2"
| "rank q Push_size = 1"
| "rank q Push_ret = 0"
| "rank q Pop_start = 14"
| "rank q (Pop_check h) = 13"
| "rank q Pop_load = 12"
| "rank q (Pop_inc oh) = pop_rank q oh"
| "rank q (Pop_tail oh) = 10 + (if head q = oh then 0 else 8)"
| "rank q (Pop_next oh) = 9 + (if head q = oh then 0 else 8)"
| "rank q (Pop_cas oh nx) = 8 + (if head q = oh then 0 else 8)"
| "rank q (Pop_data oh) = 7"
| "rank q (Pop_count r) = 2"
| "rank q (Pop_size r) = 1"
| "rank q (Pop_ret r) = 0"

lemma rank_resume [simp]: "rank q (resume k) = kont_rank q k"
  by (cases k) simp_all

lemma kont_rank_reload [simp]: "kont_rank q (reload_tail (tail q) (K_push_again x nn ot)) =
    11 + (if has_data q (GET_PTR (tail q)) then 11 else 0)"
  by (simp add: inc_rank_def)

lemma moved_rank_reload [simp]: "moved_rank q (reload_tail a k) = moved_rank q k"
  by (cases k) (simp_all add: moved_rank_def)

lemma kont_rank_le: "kont_rank q k \<le> 23"
  by (cases k) (simp_all add: inc_rank_def pop_rank_def)

lemma rank_le: "rank q pc \<le> 31"
proof -
  have r: "kont_rank q (reload_tail (tail q) k) \<le> 22" for k :: "'a kont"
    by (cases k) (simp_all add: inc_rank_def pop_rank_def)
  have m: "moved_rank q k \<le> 12" for k :: "'a kont"
    by (cases k) (simp_all add: moved_rank_def pop_rank_def)
  show ?thesis
  proof (cases pc)
    case (Tail_cas k ot nt cur)
    then show ?thesis using r [of k] m [of k] by simp
  qed (auto simp: inc_rank_def pop_rank_def intro: order_trans [OF kont_rank_le])
qed

text \<open>Steps that leave head, tail and the data of the tail's node, or take the data away.\<close>

lemma kont_rank_mono:
  assumes "head q' = head q" "tail q' = tail q"
    "has_data q' (GET_PTR (tail q)) \<Longrightarrow> has_data q (GET_PTR (tail q))"
  shows "kont_rank q' k \<le> kont_rank q k"
  using assms by (cases k) (auto simp: inc_rank_def pop_rank_def)

text \<open>Every step of a thread that runs alone, without a spurious failure, comes nearer to the end.\<close>

lemma has_data_put [simp]:
  "has_data (put_node a nd q) b = (if b = a then node_data nd \<noteq> None else has_data q b)"
  by (simp add: has_data_def put_node_def)

lemma has_data_del:
  "free_node a q = Inr q' \<Longrightarrow> has_data q' b \<Longrightarrow> has_data q b"
  "free_node a q = Inr q' \<Longrightarrow> head q' = head q \<and> tail q' = tail q"
  by (auto simp: free_node_def bindE_eq_Inr has_data_def split: if_splits)

lemma has_data_alloc:
  "alloc_node ch q = Inr (a, q') \<Longrightarrow> ch_data ch = None \<Longrightarrow> has_data q' b \<Longrightarrow> has_data q b"
  "alloc_node ch q = Inr (a, q') \<Longrightarrow> head q' = head q \<and> tail q' = tail q"
  by (auto simp: alloc_node_def has_data_def new_node_def split: if_splits)

lemma put_node_sel [simp]: "head (put_node a nd q) = head q" "tail (put_node a nd q) = tail q"
  by (simp_all add: put_node_def)

lemma rank_after_count:
  assumes "kont_rank q' k \<le> m"
  shows "rank q' (after_count k p ic ec) < 3 + m"
  using assms by (simp add: after_count_def)

text \<open>The node the tail moves to has no data yet.\<close>

lemma next_tail_fresh:
  assumes ok: "lf_ok n as bs q pcs" and f: "fresh_data q"
    and nt: "nxt q (GET_PTR (tail q)) = nt" "nt \<noteq> 0"
  shows "\<not> has_data q (GET_PTR nt)"
proof -
  have sh: "lf_shape as bs q" by (rule lf_okD(1) [OF ok])
  then obtain b cs where b: "bs = b # cs" "GET_PTR (tail q) = b" by (cases bs) (auto simp: lf_shape_def)
  have "cs \<noteq> []" using sh b nt by (auto simp: lf_shape_def)
  then obtain c where c: "bs = [b, c]"
    using lf_okD(6) [OF ok] b by (cases cs) (auto simp: tail_helped_def)
  have "successively (\<lambda>a b. nxt q a \<noteq> 0 \<and> GET_PTR (nxt q a) = b) bs"
    using sh by (auto simp: lf_shape_def successively_append_iff)
  then have "GET_PTR nt = c" "nxt q c = 0" "c \<noteq> b"
    using sh b c nt by (auto simp: lf_shape_def)
  with fresh_dataD [OF f, of c] b show ?thesis
    by (auto simp: has_data_def nxt_def split: option.splits)
qed

lemma rank_tail_cas:
  assumes ok: "lf_ok n as bs q pcs" and f: "fresh_data q" and p: "pc_ok q bs (Tail_cas k ot nt cur)"
    and step: "lf_step ch (Tail_cas k ot nt cur) q = Inr (pc, q')" "\<not> ch_spurious ch"
  shows "rank q' pc < rank q (Tail_cas k ot nt cur)"
proof (cases "tail q = ot")
  case True
  with step p have s: "pc = Ext_load k ot" "q' = q\<lparr>tail := nt\<rparr>" "GET_PTR (tail q) = cur" by auto
  have "\<not> has_data q (GET_PTR nt)" by (rule next_tail_fresh [OF ok f]) (use p True in auto)
  then have "\<not> has_data q' (GET_PTR nt)" by (simp add: s has_data_def)
  then have "kont_rank q' k \<le> moved_rank q k"
    by (cases k) (auto simp: s moved_rank_def inc_rank_def pop_rank_def)
  with s True show ?thesis by simp
next
  case False
  with step p show ?thesis by auto
qed

lemma rank_step:
  assumes ok: "lf_ok n as bs q pcs" and t: "t < n" and f: "fresh_data q"
    and step: "lf_step ch (pcs t) q = Inr (pc, q')" "\<not> ch_spurious ch" "ch_data ch = None" "\<not> final (pcs t)"
  shows "rank q' pc < rank q (pcs t)"
proof -
  have p: "pc_ok q bs (pcs t)" by (rule step_thread [OF ok t])
  show ?thesis
  proof (cases "pcs t")
    case (Tail_cas k ot nt cur)
    with rank_tail_cas [OF ok f, of k ot nt cur ch pc q'] p step show ?thesis by simp
  next
    case (Push_start x)
    with step obtain a where a: "alloc_node ch q = Inr (a, q')" "pc = Push_load x (new_cnp (ch_junk ch) a)"
      by (auto simp: bindE_eq_Inr)
    then show ?thesis using has_data_alloc [OF a(1)] step(3) Push_start by auto
  next
    case (Push_realloc x nn ot)
    with step obtain a where a: "alloc_node ch q = Inr (a, q')"
      "pc = Tail_cas (K_push_again x (SET_PTR nn a) ot) ot nn (GET_PTR ot)"
      by (auto simp: bindE_eq_Inr)
    then show ?thesis using has_data_alloc [OF a(1)] step(3) Push_realloc
      by (auto simp: moved_rank_def inc_rank_def)
  next
    case (Push_next x nn ot)
    with step show ?thesis
      by (auto simp: bindE_eq_Inr moved_rank_def dest: has_data_del split: if_splits)
  next
    case (Delete k a)
    with step obtain q1 where "free_node a q = Inr q'" "pc = Count_destruct k"
      by (auto simp: bindE_eq_Inr)
    with Delete kont_rank_mono [of q' q k] has_data_del [of a q q'] show ?thesis by auto
  next
    case (Count_destruct k)
    have "kont_rank (q\<lparr>destruct_count := destruct_count q + 1\<rparr>) k \<le> kont_rank q k"
      by (rule kont_rank_mono) (simp_all add: has_data_def)
    with step Count_destruct show ?thesis by auto
  next
    case (Ext_cas k c ic ec)
    with step obtain nd where nd: "map_of (heap q) (GET_PTR c) = Some nd"
      by (auto simp: bindE_eq_Inr heap_get_Inr)
    have "kont_rank (put_node (GET_PTR c) (nd\<lparr>internal_count := i, external_counters := e\<rparr>) q) k
        \<le> kont_rank q k" for i e
      by (rule kont_rank_mono) (auto simp: has_data_def put_node_def nd split: if_splits)
    note r = rank_after_count [OF this]
    show ?thesis using nd step Ext_cas r
      by (auto simp: Let_def matches_def split: if_splits)
  next
    case (Rel_cas k a ic ec)
    with step obtain nd where nd: "map_of (heap q) a = Some nd"
      by (auto simp: bindE_eq_Inr heap_get_Inr)
    have "kont_rank (put_node a (nd\<lparr>internal_count := i\<rparr>) q) k \<le> kont_rank q k" for i
      by (rule kont_rank_mono) (auto simp: has_data_def put_node_def nd split: if_splits)
    note r = rank_after_count [OF this]
    show ?thesis using nd step Rel_cas r
      by (auto simp: Let_def matches_def split: if_splits)
  next
    case (Pop_ret r)
    with step(4) show ?thesis by simp
  qed (use step in \<open>auto simp: bindE_eq_Inr heap_get_Inr inc_rank_def pop_rank_def has_data_def
      matches_def increase_Some moved_rank_def split: if_splits option.splits\<close>)
qed

section \<open>Running alone\<close>

text \<open>Room in the packed counts and in the address space for \<open>k\<close> more steps.\<close>

definition room_for :: "nat \<Rightarrow> 'a lfq \<Rightarrow> bool" where
  "room_for k q \<longleftrightarrow> unat (GET_COUNT (head q)) + k \<le> 65535 \<and>
     unat (GET_COUNT (tail q)) + k \<le> 65535"

lemma room_count_ok:
  assumes "room_for (Suc k) q"
  shows "count_ok (head q)" "count_ok (tail q)"
  using assms by (auto simp: room_for_def count_ok_def)

lemma unat_inc_count: "count_ok c \<Longrightarrow> unat (GET_COUNT (inc_count c)) = Suc (unat (GET_COUNT c))"
proof -
  assume c: "count_ok c"
  have "uint (GET_COUNT c) < 2 ^ 16"
    by (metis GET_COUNT_cnp cnp_GET take_bit_eq_mask and_mask_lt_2p)
  then have "uint (GET_COUNT c) < 65536" by simp
  then have "int (unat (GET_COUNT c)) < 65536" by (simp only: uint_nat)
  then have "unat (GET_COUNT c) < 65536" by linarith
  then have "unat (GET_COUNT c) + unat (1 :: u64) < 2 ^ LENGTH(64)" by simp
  then have "unat (GET_COUNT c + 1) = unat (GET_COUNT c) + unat (1 :: u64)"
    by (rule iffD1 [OF unat_add_lem])
  with GET_COUNT_inc [OF c] show ?thesis by simp
qed

lemma room_step:
  assumes s: "ok_step n as bs q pcs t ch pc q'" and r: "room_for (Suc k) q" "k < 65535"
  shows "room_for k q'"
proof -
  note ok = ok_stepD(1) [OF s] and t = ok_stepD(3) [OF s] and step = ok_stepD(5) [OF s]
    and P = ok_stepD(6) [OF s] and sh = ok_stepD(7) [OF s]
  have links: "GET_COUNT (nxt q a) = 1" if "nxt q a \<noteq> 0" for a
    using sh that by (simp add: lf_shape_def)
  show ?thesis
    using step r room_count_ok [OF r(1)] P links
    by (cases "pcs t") (auto simp: room_for_def bindE_eq_Inr heap_get_Inr alloc_node_def free_node_def
      put_node_def unat_inc_count increase_Some Let_def split: if_splits option.splits)
qed

lemma heap_lengths [simp]:
  "length (heap_put a nd h) \<le> Suc (length h)" "length (heap_del a h) \<le> Suc (length h)"
  "length (heap (put_node a nd q)) \<le> Suc (length (heap q))"
  by (simp_all add: heap_put_def heap_del_def put_node_def le_SucI)

lemma heap_grows:
  "lf_step ch pc q = Inr (pc', q') \<Longrightarrow> length (heap q') \<le> Suc (length (heap q))"
  by (cases pc) (auto simp: bindE_eq_Inr alloc_node_def free_node_def Let_def
      split: if_splits option.splits)

lemma no_bad_alloc:
  "alloc_ok (heap q) (ch_addr ch) \<Longrightarrow> lf_step ch pc q \<noteq> Inl Bad_alloc"
  by (cases pc) (auto simp: bindE_def alloc_node_def free_node_def heap_get_def Let_def
    split: if_splits option.splits sum.splits)

lemma rank_zero: "rank q pc = 0 \<Longrightarrow> final pc"
  by (cases pc) (auto simp: inc_rank_def pop_rank_def split: if_splits)

lemma solo_returns:
  assumes "lf_ok n as bs q pcs" "n < 2 ^ 30" "t < n" "fresh_data q"
    and "rank q (pcs t) \<le> k" "room_for k q" "k < 65535"
    and "\<And>x. \<not> ch_spurious (env x)" "\<And>x. ch_data (env x) = None"
    and "\<And>x. length (heap x) \<le> length (heap q) + k \<Longrightarrow> alloc_ok (heap x) (ch_addr (env x))"
  shows "\<exists>pc q'. lf_exec env k (pcs t) q = Inr (pc, q') \<and> final pc \<and>
    (\<exists>as bs. lf_ok n as bs q' (pcs(t := pc)))"
  using assms
proof (induction k arbitrary: q pcs as bs)
  case 0
  then have "final (pcs t)" by (intro rank_zero) simp
  with 0(1) show ?case by (intro exI [of _ "pcs t"] exI [of _ q]) auto
next
  case (Suc k)
  show ?case
  proof (cases "final (pcs t)")
    case True
    with Suc.prems(1) show ?thesis by (intro exI [of _ "pcs t"] exI [of _ q]) auto
  next
    case False
    have "lf_step (env q) (pcs t) q \<noteq> Inl e" for e
      using step_safe [OF Suc.prems(1-3), of "env q" e] no_bad_alloc Suc.prems(10) [of q] by auto
    then obtain pc q1 where step: "lf_step (env q) (pcs t) q = Inr (pc, q1)"
      by (cases "lf_step (env q) (pcs t) q") auto
    have "no_wrap q (pcs t)" using room_count_ok [OF Suc.prems(6)]
      by (cases "pcs t") (auto simp: no_wrap_def)
    with Suc.prems step have s: "ok_step n as bs q pcs t (env q) pc q1" by (simp add: ok_step_def)
    obtain as1 bs1 where ok1: "lf_ok n as1 bs1 q1 (pcs(t := pc))" using step_ok [OF s] by blast
    have "\<exists>pc' q'. lf_exec env k ((pcs(t := pc)) t) q1 = Inr (pc', q') \<and> final pc' \<and>
      (\<exists>as bs. lf_ok n as bs q' ((pcs(t := pc))(t := pc')))"
    proof (rule Suc.IH [OF ok1 Suc.prems(2,3) fresh_data_step [OF s Suc.prems(9,4)]])
      show "rank q1 ((pcs(t := pc)) t) \<le> k"
        using rank_step [OF Suc.prems(1,3,4) step Suc.prems(8,9) False] Suc.prems(5) by simp
      show "room_for k q1" by (rule room_step [OF s Suc.prems(6)]) (use Suc.prems(7) in simp)
      show "alloc_ok (heap x) (ch_addr (env x))" if "length (heap x) \<le> length (heap q1) + k" for x
        by (rule Suc.prems(10)) (use that heap_grows [OF step] in simp)
    qed (use Suc.prems in simp_all)
    with step False show ?thesis by (simp del: final_def fun_upd_apply) (simp only: fun_upd_same)
  qed
qed

section \<open>Traces on zeroed memory\<close>

lemma event_fresh:
  assumes i: "lf_inv m" "fresh_data (fst m)" and e: "event_fits e m" "zeroed e" "lf_event e m = Inr m'"
  shows "fresh_data (fst m')"
proof -
  obtain q pcs where m: "m = (q, pcs)" by force
  show ?thesis
  proof (cases e)
    case (Step t ch)
    with e m obtain pc q' where st: "lf_step ch (pcs t) q = Inr (pc, q')" "m' = (q', pcs(t := pc))"
      and t: "t < max_threads" "no_wrap q (pcs t)" "ch_data ch = None"
      by (auto simp: bindE_eq_Inr event_fits_def zeroed_def)
    from i m obtain as bs where "lf_ok max_threads as bs q pcs" by (auto simp: lf_inv_def)
    with st t have "ok_step max_threads as bs q pcs t ch pc q'" by (simp add: ok_step_def max_threads_def)
    from fresh_data_step [OF this t(3)] i m st show ?thesis by simp
  qed (use e i m in auto)
qed

lemma trace_fresh:
  assumes "lf_inv m" "fresh_data (fst m)" "trace_fits es m" "\<forall>e \<in> set es. zeroed e" "lf_trace es m = Inr m'"
  shows "lf_inv m' \<and> fresh_data (fst m')"
  using assms
proof (induction es arbitrary: m)
  case Nil
  then show ?case by (simp add: lf_trace_def)
next
  case (Cons e es)
  then obtain m1 where m1: "lf_event e m = Inr m1" "lf_trace es m1 = Inr m'"
    by (auto simp: lf_trace_def bindE_eq_Inr)
  have e: "event_fits e m" "zeroed e" using Cons.prems by simp_all
  from Cons.IH [OF event_ok [OF Cons.prems(1) e(1) m1(1)] event_fresh [OF Cons.prems(1,2) e m1(1)] _ _ m1(2)]
    Cons.prems m1(1) show ?case by simp
qed

lemma start_fresh:
  assumes "lfq_new ch = Inr q" "ch_data ch = None"
  shows "lf_inv (q, \<lambda>_. Idle) \<and> fresh_data q"
proof
  show "lf_inv (q, \<lambda>_. Idle)" using assms(1) by (intro lf_start_ok) (auto simp: lf_start_def)
  show "fresh_data q" using assms
    by (auto simp: lfq_new_def alloc_node_def Let_def fresh_data_def new_node_def split: if_splits)
qed

section \<open>Properties\<close>

text \<open>C3: whatever the other threads have left undone, a thread that runs alone returns. From every
  state a trace of pushes and pops can reach, other threads being stopped at any of their atomic
  accesses, a thread in the middle of an operation returns within 31 of its own steps. Given are
  fewer than 2^30 threads, no wrap of a 16-bit external count so far and room in the packed counts for
  31 references more, an allocator that does not run out and hands out memory whose first word is
  null (a node that starts with junk sends \<open>push\<close> back to the start of its loop), and no spurious
  failures while the thread runs alone.\<close>

theorem lfq_obstruction_free:
  assumes "lfq_new ch = Inr q0" "ch_data ch = None" "trace_fits es (q0, \<lambda>_. Idle)" "\<forall>e \<in> set es. zeroed e"
    and "lf_trace es (q0, \<lambda>_. Idle) = Inr (q, pcs)" "t < max_threads" "room_for 31 q"
    and "\<And>x. \<not> ch_spurious (env x)" "\<And>x. ch_data (env x) = None"
    and "\<And>x. length (heap x) \<le> length (heap q) + 31 \<Longrightarrow> alloc_ok (heap x) (ch_addr (env x))"
  shows "\<exists>pc q'. lf_exec env 31 (pcs t) q = Inr (pc, q') \<and> final pc"
proof -
  have "lf_inv (q, pcs) \<and> fresh_data q"
    using trace_fresh [OF _ _ assms(3-5)] start_fresh [OF assms(1,2)] by simp
  then obtain as bs where ok: "lf_ok max_threads as bs q pcs" "fresh_data q"
    by (auto simp: lf_inv_def)
  have "max_threads < 2 ^ 30" by (simp add: max_threads_def)
  from solo_returns [OF ok(1) this assms(6) ok(2) rank_le assms(7) _ assms(8-10)] show ?thesis
    by auto
qed

text \<open>A push that has stored its data and stops before it links the next node; another push then
  finishes alone, helping it.\<close>

definition stalled_push :: "nat event list" where
  "stalled_push = [Call_push 0 10] @ steps 4 0 2 @ [Call_push 1 11]"

lemma stalled_push_fits:
  "\<exists>q0 q pcs. lfq_new (answers 1) = Inr q0 \<and> trace_fits stalled_push (q0, \<lambda>_. Idle) \<and>
     (\<forall>e \<in> set stalled_push. zeroed e) \<and>
     lf_trace stalled_push (q0, \<lambda>_. Idle) = Inr (q, pcs) \<and> pcs 1 = Push_start 11 \<and>
     room_for 31 q \<and> length (heap q) < 100"
  by (simp add: stalled_push_def zeroed_def lf_trace_def lfq_new_def alloc_node_def Let_def alloc_ok_def
      put_node_def new_node_def increase_cnp room_for_def
      cnp_eq_iff cnp_eq_0 addr48_iff fits_simps no_wrap_def max_threads_def count_ok_def) (simp add: heap_put_def)

theorem lfq_obstruction_free_witness:
  "\<exists>q0 q pcs pc q'. lfq_new (answers 1) = Inr q0 \<and>
     lf_trace stalled_push (q0, \<lambda>_. Idle) = Inr (q, pcs) \<and>
     lf_exec solo_choice 31 (pcs 1) q = Inr (pc, q') \<and> final pc"
proof -
  obtain q0 q pcs where q: "lfq_new (answers 1) = Inr q0" "trace_fits stalled_push (q0, \<lambda>_. Idle)"
    "\<forall>e \<in> set stalled_push. zeroed e"
    "lf_trace stalled_push (q0, \<lambda>_. Idle) = Inr (q, pcs)" "room_for 31 q" "length (heap q) < 100"
    using stalled_push_fits by blast
  have t: "1 < max_threads" by (simp add: max_threads_def)
  have s: "\<not> ch_spurious (solo_choice x)" "ch_data (solo_choice x) = None" for x :: "nat lfq"
    by (simp_all add: solo_choice_def)
  have z: "ch_data (answers 1 :: nat choice) = None" by simp
  have a: "alloc_ok (heap x) (ch_addr (solo_choice x))" if "length (heap x) \<le> length (heap q) + 31" for x
    unfolding solo_choice_def by (simp, rule first_fit_ok) (use that q(6) in simp)
  from lfq_obstruction_free [OF q(1) z q(2-4) t q(5) s a] q(1,4) show ?thesis by blast
qed

end
