(* ===== verification/LFQueue_Linear.thy ===== *)
theory LFQueue_Linear
  imports LFQueue_Progress
begin

text \<open>
  The functional behaviour of the lock-free queue under concurrency. \<open>lost_push\<close> shows that two
  pushes at the same time can lose an element; here one thread pushes at a time
  (\<open>one_push\<close>), any number of threads pop at any moment, and elements are shown to leave the
  queue once and in order, each operation taking effect at one atomic access. The invariant \<open>lin_inv\<close> relates the
  links of LFQueue_Inv to three histories of the trace: what was stored, what was taken by whom,
  and what was answered. One lemma per kind of step says that it is kept (\<open>step_kept\<close>).
  An answer that the queue is empty is not part of it: \<open>pop_misses_elements\<close> has one pusher.
\<close>

section \<open>What a trace shows\<close>

text \<open>Along a trace: the elements of the calls of push; the elements that a compare-exchange has stored
  in the tail's node; who takes which element where a compare-exchange of the head succeeds; and
  the elements thread \<open>u\<close> answers as it returns.\<close>

definition node_val :: "'a lfq \<Rightarrow> u64 \<Rightarrow> 'a option" where
  "node_val q a = (case map_of (heap q) a of None \<Rightarrow> None | Some nd \<Rightarrow> node_data nd)"

definition started_push :: "'a event \<Rightarrow> 'a machine \<Rightarrow> 'a list" where
  "started_push e = (\<lambda>(q, pcs). case e of
       Call_push t x \<Rightarrow> if final (pcs t) then [x] else [] | _ \<Rightarrow> [])"

definition store_point :: "'a event \<Rightarrow> 'a machine \<Rightarrow> 'a list" where
  "store_point e = (\<lambda>(q, pcs). case e of
       Step t ch \<Rightarrow> (case pcs t of
           Push_data x nn ot \<Rightarrow> if node_val q (GET_PTR ot) = None then [x] else []
         | _ \<Rightarrow> [])
     | _ \<Rightarrow> [])"

definition take_point :: "'a event \<Rightarrow> 'a machine \<Rightarrow> (nat \<times> 'a option) list" where
  "take_point e = (\<lambda>(q, pcs). case e of
       Step t ch \<Rightarrow> (case pcs t of
           Pop_cas oh nx \<Rightarrow> if head q = oh then [(t, node_val q (GET_PTR oh))] else []
         | _ \<Rightarrow> [])
     | _ \<Rightarrow> [])"

definition answer_point :: "nat \<Rightarrow> 'a event \<Rightarrow> 'a machine \<Rightarrow> 'a list" where
  "answer_point u e = (\<lambda>(q, pcs). case e of
       Step t ch \<Rightarrow>
         (if t = u \<and> \<not> final (pcs t) then case lf_step ch (pcs t) q of
              Inr (pc, _) \<Rightarrow> (case pop_answer pc of Some v \<Rightarrow> [v] | None \<Rightarrow> [])
            | Inl _ \<Rightarrow> []
          else [])
     | _ \<Rightarrow> [])"

fun along :: "('a event \<Rightarrow> 'a machine \<Rightarrow> 'b list) \<Rightarrow> 'a event list \<Rightarrow> 'a machine \<Rightarrow> 'b list" where
  "along f [] m = []"
| "along f (e # es) m =
     f e m @ (case lf_event e m of Inl _ \<Rightarrow> [] | Inr m' \<Rightarrow> along f es m')"

section \<open>One push at a time\<close>

definition push_kont :: "'a kont \<Rightarrow> bool" where
  "push_kont k = (case k of K_push_done \<Rightarrow> True | K_push_again x nn ot \<Rightarrow> True | _ \<Rightarrow> False)"

primrec in_push :: "'a pc \<Rightarrow> bool" where
  "in_push Idle = False"
| "in_push (Push_start x) = True"
| "in_push (Push_load x nn) = True"
| "in_push (Push_inc x nn ot) = True"
| "in_push (Push_data x nn ot) = True"
| "in_push (Push_next x nn ot) = True"
| "in_push (Push_help x nn ot) = True"
| "in_push (Push_realloc x nn ot) = True"
| "in_push (Tail_cas k ot nt cur) = True"
| "in_push (Ext_load k c) = push_kont k"
| "in_push (Ext_cas k c ic ec) = push_kont k"
| "in_push (Rel_load k p) = push_kont k"
| "in_push (Rel_cas k p ic ec) = push_kont k"
| "in_push (Delete k p) = push_kont k"
| "in_push (Count_destruct k) = push_kont k"
| "in_push Push_count = True"
| "in_push Push_size = True"
| "in_push Push_ret = False"
| "in_push Pop_start = False"
| "in_push (Pop_check h) = False"
| "in_push Pop_load = False"
| "in_push (Pop_inc oh) = False"
| "in_push (Pop_tail oh) = False"
| "in_push (Pop_next oh) = False"
| "in_push (Pop_cas oh nx) = False"
| "in_push (Pop_data oh) = False"
| "in_push (Pop_count r) = False"
| "in_push (Pop_size r) = False"
| "in_push (Pop_ret r) = False"

text \<open>\<open>w\<close> is the thread that called push last; another may call push once that one has returned.\<close>

definition may_push :: "nat \<Rightarrow> 'a event \<Rightarrow> 'a machine \<Rightarrow> bool" where
  "may_push w e m = (case e of Call_push t x \<Rightarrow> t = w \<or> \<not> in_push (snd m w) | _ \<Rightarrow> True)"

definition pusher :: "nat \<Rightarrow> 'a event \<Rightarrow> nat" where
  "pusher w e = (case e of Call_push t x \<Rightarrow> t | _ \<Rightarrow> w)"

fun one_push :: "nat \<Rightarrow> 'a event list \<Rightarrow> 'a machine \<Rightarrow> bool" where
  "one_push w [] m = True"
| "one_push w (e # es) m \<longleftrightarrow> may_push w e m \<and>
     (case lf_event e m of Inl _ \<Rightarrow> True | Inr m' \<Rightarrow> one_push (pusher w e) es m')"

section \<open>The links are determined by the queue\<close>

definition linked :: "'a lfq \<Rightarrow> u64 list \<Rightarrow> bool" where
  "linked q L \<longleftrightarrow> L \<noteq> [] \<and> hd L = GET_PTR (head q) \<and>
     successively (\<lambda>a b. nxt q a \<noteq> 0 \<and> GET_PTR (nxt q a) = b) L \<and> nxt q (last L) = 0"

lemma shape_linked: "lf_shape as bs q \<Longrightarrow> linked q (as @ bs)"
  by (auto simp: lf_shape_def linked_def)

lemma succ_unique:
  assumes "successively (\<lambda>a b. n a \<noteq> 0 \<and> GET_PTR (n a) = b) L" "n (last L) = 0" "L \<noteq> []"
    and "successively (\<lambda>a b. n a \<noteq> 0 \<and> GET_PTR (n a) = b) L'" "n (last L') = 0" "L' \<noteq> []"
    and "hd L = hd L'"
  shows "L = L'"
  using assms
proof (induction L arbitrary: L')
  case (Cons a L)
  then obtain L1 where L': "L' = a # L1" by (cases L') auto
  show ?case
  proof (cases L)
    case Nil
    with Cons.prems L' show ?thesis by (cases L1) auto
  next
    case (Cons b M)
    then obtain M1 where "L1 = b # M1"
      using Cons.prems L' by (cases L1) (auto split: if_splits)
    with Cons.IH [of L1] Cons.prems L' Cons show ?thesis by (auto split: if_splits)
  qed
qed simp

lemma linked_unique: "linked q L \<Longrightarrow> linked q L' \<Longrightarrow> L = L'"
  unfolding linked_def by (elim conjE) (rule succ_unique [where n = "nxt q"], simp_all)

lemma split_unique:
  assumes "distinct (as @ bs)" "as @ bs = as' @ bs'" "bs \<noteq> []" "bs' \<noteq> []" "hd bs = hd bs'"
  shows "as = as' \<and> bs = bs'"
  using assms
proof (induction as arbitrary: as')
  case Nil
  then show ?case by (cases as'; cases bs) auto
next
  case (Cons a as)
  then show ?case by (cases as'; cases bs') auto
qed

lemma shape_unique:
  assumes s: "lf_shape as' bs' q" and l: "linked q (as @ bs)" and b: "bs \<noteq> []" "hd bs = GET_PTR (tail q)"
  shows "as' = as \<and> bs' = bs"
proof (rule split_unique)
  show "as' @ bs' = as @ bs" using linked_unique [OF shape_linked [OF s] l] .
qed (use s b in \<open>auto simp: lf_shape_def\<close>)

lemma linked_frame:
  assumes l: "linked q L" and "\<forall>a \<in> set L. nxt q' a = nxt q a" "GET_PTR (head q') = GET_PTR (head q)"
  shows "linked q' L"
proof -
  have "successively (\<lambda>a b. nxt q' a \<noteq> 0 \<and> GET_PTR (nxt q' a) = b) L"
    by (rule successively_mono [where P = "\<lambda>a b. nxt q a \<noteq> 0 \<and> GET_PTR (nxt q a) = b"])
      (use assms in \<open>auto simp: linked_def\<close>)
  with assms show ?thesis by (auto simp: linked_def)
qed

section \<open>The invariant\<close>

text \<open>The node at the tail has no data yet: so it is while the pusher \<open>w\<close> is not between the
  compare-exchange of the data and the one of the tail, and then the tail is the one it has read.
  It never has to help, so it keeps no node for another round.\<close>

abbreviation tail_clear :: "'a lfq \<Rightarrow> bool" where
  "tail_clear q \<equiv> node_val q (GET_PTR (tail q)) = None"

primrec push_ok :: "'a lfq \<Rightarrow> 'a pc \<Rightarrow> bool" where
  "push_ok q Idle \<longleftrightarrow> tail_clear q"
| "push_ok q (Push_start x) \<longleftrightarrow> tail_clear q"
| "push_ok q (Push_load x nn) \<longleftrightarrow> tail_clear q"
| "push_ok q (Push_inc x nn ot) \<longleftrightarrow> tail_clear q"
| "push_ok q (Push_data x nn ot) \<longleftrightarrow> tail q = ot \<and> tail_clear q"
| "push_ok q (Push_next x nn ot) \<longleftrightarrow> tail q = ot \<and> \<not> tail_clear q"
| "push_ok q (Push_help x nn ot) \<longleftrightarrow> False"
| "push_ok q (Push_realloc x nn ot) \<longleftrightarrow> False"
| "push_ok q (Tail_cas k ot nt cur) \<longleftrightarrow> k = K_push_done \<and> tail q = ot \<and> \<not> tail_clear q"
| "push_ok q (Ext_load k c) \<longleftrightarrow> kont_owns k = None \<and> tail_clear q"
| "push_ok q (Ext_cas k c ic ec) \<longleftrightarrow> kont_owns k = None \<and> tail_clear q"
| "push_ok q (Rel_load k p) \<longleftrightarrow> kont_owns k = None \<and> tail_clear q"
| "push_ok q (Rel_cas k p ic ec) \<longleftrightarrow> kont_owns k = None \<and> tail_clear q"
| "push_ok q (Delete k p) \<longleftrightarrow> kont_owns k = None \<and> tail_clear q"
| "push_ok q (Count_destruct k) \<longleftrightarrow> kont_owns k = None \<and> tail_clear q"
| "push_ok q Push_count \<longleftrightarrow> tail_clear q"
| "push_ok q Push_size \<longleftrightarrow> tail_clear q"
| "push_ok q Push_ret \<longleftrightarrow> tail_clear q"
| "push_ok q Pop_start \<longleftrightarrow> tail_clear q"
| "push_ok q (Pop_check h) \<longleftrightarrow> tail_clear q"
| "push_ok q Pop_load \<longleftrightarrow> tail_clear q"
| "push_ok q (Pop_inc oh) \<longleftrightarrow> tail_clear q"
| "push_ok q (Pop_tail oh) \<longleftrightarrow> tail_clear q"
| "push_ok q (Pop_next oh) \<longleftrightarrow> tail_clear q"
| "push_ok q (Pop_cas oh nx) \<longleftrightarrow> tail_clear q"
| "push_ok q (Pop_data oh) \<longleftrightarrow> tail_clear q"
| "push_ok q (Pop_count r) \<longleftrightarrow> tail_clear q"
| "push_ok q (Pop_size r) \<longleftrightarrow> tail_clear q"
| "push_ok q (Pop_ret r) \<longleftrightarrow> tail_clear q"

text \<open>The node whose data a popper is about to take, the result it owes from then on, and the element
  a pusher has not stored yet.\<close>

definition taking :: "'a pc \<Rightarrow> u64 option" where
  "taking pc = (case pc of Pop_data oh \<Rightarrow> Some (GET_PTR oh) | _ \<Rightarrow> None)"

definition kont_result :: "'a kont \<Rightarrow> 'a option list" where
  "kont_result k = (case k of K_pop_done r \<Rightarrow> [r] | _ \<Rightarrow> [])"

definition owed :: "'a lfq \<Rightarrow> 'a pc \<Rightarrow> 'a option list" where
  "owed q pc = (case pc of
       Pop_data oh \<Rightarrow> [node_val q (GET_PTR oh)]
     | Ext_load k c \<Rightarrow> kont_result k | Ext_cas k c ic ec \<Rightarrow> kont_result k
     | Rel_load k p \<Rightarrow> kont_result k | Rel_cas k p ic ec \<Rightarrow> kont_result k
     | Delete k p \<Rightarrow> kont_result k | Count_destruct k \<Rightarrow> kont_result k
     | Pop_count r \<Rightarrow> [r] | Pop_size r \<Rightarrow> [r] | _ \<Rightarrow> [])"

definition unstored :: "'a pc \<Rightarrow> 'a list" where
  "unstored pc = (case pc of Push_start x \<Rightarrow> [x] | Push_load x nn \<Rightarrow> [x]
     | Push_inc x nn ot \<Rightarrow> [x] | Push_data x nn ot \<Rightarrow> [x] | _ \<Rightarrow> [])"

text \<open>The elements in the list: a node the tail has passed has data; the tail's node may.\<close>

definition stored_vals :: "'a lfq \<Rightarrow> u64 list \<Rightarrow> u64 list \<Rightarrow> 'a option list" where
  "stored_vals q as bs = map (node_val q) as @
     (if node_val q (hd bs) = None then [] else [node_val q (hd bs)])"

definition lin_ok :: "nat \<Rightarrow> nat \<Rightarrow> u64 list \<Rightarrow> u64 list \<Rightarrow> 'a lfq \<Rightarrow> (nat \<Rightarrow> 'a pc) \<Rightarrow> bool" where
  "lin_ok n w as bs q pcs \<longleftrightarrow>
     (\<forall>s. s \<noteq> w \<longrightarrow> \<not> in_push (pcs s)) \<and> (\<forall>s\<ge>n. pcs s = Idle) \<and> push_ok q (pcs w) \<and>
     (\<forall>s a. taking (pcs s) = Some a \<longrightarrow> a \<notin> set (as @ bs)) \<and>
     (\<forall>s u a. taking (pcs s) = Some a \<longrightarrow> taking (pcs u) = Some a \<longrightarrow> u = s)"


section \<open>What a step leaves alone\<close>

lemma stays_linked:
  assumes s: "ok_step n as bs q pcs t ch pc q'" and a: "a \<in> set (as @ bs)"
  shows "map_of (heap q') a \<noteq> None"
proof -
  note ok = ok_stepD(1) [OF s] and n = ok_stepD(2) [OF s] and t = ok_stepD(3) [OF s]
    and step = ok_stepD(5) [OF s]
  have al: "map_of (heap q) a \<noteq> None" using linked_alive [OF ok a] .
  show ?thesis
  proof (cases "pcs t")
    case (Delete k p)
    with step have "q' = q\<lparr>heap := heap_del p (heap q)\<rparr>" by (auto simp: bindE_eq_Inr free_node_def)
    then have "lf_ok n as bs q' (pcs(t := Count_destruct k))"
      using ok_delete [OF ok n t Delete] by simp
    then show ?thesis using linked_alive a by blast
  next
    case (Push_next x nn ot)
    then have "GET_PTR nn \<noteq> a" using owned_node(5) [OF ok t, of "GET_PTR nn"] a by auto
    with step Push_next al show ?thesis
      by (auto simp: bindE_eq_Inr free_node_def put_node_def split: if_splits)
  qed (use step al in \<open>auto simp: bindE_eq_Inr alloc_node_def put_node_def free_node_def Let_def
      split: if_splits option.splits\<close>)
qed

lemma val_frame:
  assumes "lf_step ch pc q = Inr (pc', q')" "map_of (heap q) a \<noteq> None" "map_of (heap q') a \<noteq> None"
    and "taking pc \<noteq> Some a" "\<And>x nn ot. pc = Push_data x nn ot \<Longrightarrow> GET_PTR ot \<noteq> a"
  shows "node_val q' a = node_val q a"
  using assms
  by (cases pc) (auto simp: node_val_def bindE_eq_Inr heap_get_Inr alloc_node_def alloc_ok_def
      put_node_def free_node_def Let_def taking_def split: if_splits option.splits)

lemma nxt_frame:
  assumes "lf_step ch pc q = Inr (pc', q')" "map_of (heap q) a \<noteq> None" "map_of (heap q') a \<noteq> None"
    and "\<And>x nn ot. pc = Push_next x nn ot \<Longrightarrow> GET_PTR ot \<noteq> a"
    and "\<And>x nn ot. pc \<noteq> Push_help x nn ot"
  shows "nxt q' a = nxt q a"
  using assms
  by (cases pc) (auto simp: nxt_def bindE_eq_Inr heap_get_Inr alloc_node_def alloc_ok_def
      put_node_def free_node_def Let_def split: if_splits option.splits)

lemma ends_frame:
  assumes "lf_step ch pc q = Inr (pc', q')"
  shows "\<not> in_push pc \<Longrightarrow> tail q' = tail q"
    and "\<forall>k ot nt cur. pc \<noteq> Tail_cas k ot nt cur \<Longrightarrow> GET_PTR (tail q') = GET_PTR (tail q)"
    and "\<forall>oh nx. pc \<noteq> Pop_cas oh nx \<Longrightarrow> GET_PTR (head q') = GET_PTR (head q)"
  using assms
  by (cases pc; auto simp: bindE_eq_Inr heap_get_Inr alloc_node_def put_node_def free_node_def Let_def
      increase_Some split: if_splits option.splits)+

lemma taking_alive:
  "lf_ok n as bs q pcs \<Longrightarrow> t < n \<Longrightarrow> taking (pcs t) = Some a \<Longrightarrow> map_of (heap q) a \<noteq> None"
  using reads_alive [of n as bs q pcs t a]
  by (auto simp: taking_def reads_def pays_def split: pc.splits)


section \<open>Steps\<close>

text \<open>What a step is shown to do: it keeps \<open>lin_ok\<close> for the new links \<open>as1\<close> and \<open>bs1\<close>; the list loses
  what the step takes and gains what it stores; and the result a thread owes is what it has taken
  and not answered.\<close>

definition goes_on ::
  "nat \<Rightarrow> nat \<Rightarrow> u64 list \<Rightarrow> u64 list \<Rightarrow> 'a lfq \<Rightarrow> (nat \<Rightarrow> 'a pc) \<Rightarrow> nat \<Rightarrow> 'a choice \<Rightarrow>
    'a pc \<Rightarrow> 'a lfq \<Rightarrow> bool" where
  "goes_on n w as bs q pcs t ch pc q' \<longleftrightarrow> ok_step n as bs q pcs t ch pc q' \<and>
     lin_ok n w as bs q pcs \<and> fresh_data q \<and> None \<notin> set (owed q (pcs t)) \<and>
     None \<notin> set (stored_vals q as bs)"

definition kept ::
  "nat \<Rightarrow> nat \<Rightarrow> u64 list \<Rightarrow> u64 list \<Rightarrow> 'a lfq \<Rightarrow> (nat \<Rightarrow> 'a pc) \<Rightarrow> nat \<Rightarrow> 'a choice \<Rightarrow>
    'a pc \<Rightarrow> 'a lfq \<Rightarrow> u64 list \<Rightarrow> u64 list \<Rightarrow> bool" where
  "kept n w as bs q pcs t ch pc q' as1 bs1 \<longleftrightarrow>
     lin_ok n w as1 bs1 q' (pcs(t := pc)) \<and>
     stored_vals q as bs @ map Some (store_point (Step t ch) (q, pcs)) =
       map snd (take_point (Step t ch) (q, pcs)) @ stored_vals q' as1 bs1 \<and>
     (\<forall>u. u \<noteq> t \<longrightarrow> owed q' (pcs u) = owed q (pcs u)) \<and>
     owed q (pcs t) @ map snd (take_point (Step t ch) (q, pcs)) =
       map Some (answer_point t (Step t ch) (q, pcs)) @ owed q' pc \<and>
     unstored (pcs w) = store_point (Step t ch) (q, pcs) @ unstored ((pcs(t := pc)) w)"

lemma goes_onD:
  assumes "goes_on n w as bs q pcs t ch pc q'"
  shows "ok_step n as bs q pcs t ch pc q'" "lin_ok n w as bs q pcs"
    "lf_ok n as bs q pcs" "t < n" "lf_step ch (pcs t) q = Inr (pc, q')" "lf_shape as bs q"
    "in_push (pcs t) \<Longrightarrow> t = w" "push_ok q (pcs w)"
    "taking (pcs s) = Some a \<Longrightarrow> a \<notin> set (as @ bs) \<and> s < n"
    "taking (pcs s) = Some a \<Longrightarrow> taking (pcs u) = Some a \<Longrightarrow> u = s"
    "GET_PTR (tail q) \<in> set bs" "hd bs = GET_PTR (tail q)" "bs \<noteq> []"
    "None \<notin> set (owed q (pcs t))" "None \<notin> set (stored_vals q as bs)"
    "fresh_data q"
proof -
  have ok: "ok_step n as bs q pcs t ch pc q'" and lin: "lin_ok n w as bs q pcs"
    using assms by (simp_all add: goes_on_def)
  show sh: "lf_shape as bs q" using ok_stepD(7) [OF ok] .
  show "taking (pcs s) = Some a \<Longrightarrow> a \<notin> set (as @ bs) \<and> s < n"
    using lin by (cases "n \<le> s") (auto simp: lin_ok_def taking_def)
  show "in_push (pcs t) \<Longrightarrow> t = w" "push_ok q (pcs w)"
    "taking (pcs s) = Some a \<Longrightarrow> taking (pcs u) = Some a \<Longrightarrow> u = s"
    using lin unfolding lin_ok_def by blast+
  show "GET_PTR (tail q) \<in> set bs" "hd bs = GET_PTR (tail q)" "bs \<noteq> []"
    using sh by (auto simp: lf_shape_def)
  show "None \<notin> set (owed q (pcs t))" "None \<notin> set (stored_vals q as bs)" "fresh_data q"
    using assms by (simp_all add: goes_on_def)
qed (use assms in \<open>simp_all add: goes_on_def ok_step_def\<close>)

lemma resume_facts [simp]:
  "in_push (resume k) = push_kont k" "taking (resume k) = None"
  "owed q (resume k) = kont_result k"
  by (cases k; simp add: push_kont_def taking_def owed_def kont_result_def)+

lemma push_ok_resume [simp]:
  "push_ok q (resume k) \<longleftrightarrow> node_val q (GET_PTR (tail q)) = None"
  by (cases k) simp_all

lemma unstored_resume: "kont_owns k = None \<Longrightarrow> unstored (resume k) = []"
  by (cases k) (simp_all add: unstored_def)

lemma push_kont_simps [simp]: "push_kont K_push_done" "\<not> push_kont K_pop_empty"
  "\<not> push_kont (K_pop_again oh)" "\<not> push_kont (K_pop_done r)" "push_kont (K_push_again x nn ot)"
  by (simp_all add: push_kont_def)

lemma stays_out:
  "lf_step ch pc q = Inr (pc', q') \<Longrightarrow> \<not> in_push pc \<Longrightarrow> \<not> in_push pc'"
  by (cases pc) (auto simp: bindE_eq_Inr after_count_def Let_def split: if_splits option.splits)

lemma push_ok_frame:
  assumes "tail q' = tail q" "node_val q' (GET_PTR (tail q)) = node_val q (GET_PTR (tail q))"
  shows "push_ok q' pc = push_ok q pc"
  using assms by (cases pc) simp_all

lemma others_owed:
  assumes g: "goes_on n w as bs q pcs t ch pc q'" and ok1: "lf_ok n as1 bs1 q' (pcs(t := pc))"
    and u: "u \<noteq> t"
  shows "owed q' (pcs u) = owed q (pcs u)"
proof (cases "taking (pcs u)")
  case (Some a)
  note d = goes_onD [OF g]
  have un: "u < n" "a \<notin> set (as @ bs)" using d(9) [OF Some] by auto
  have "map_of (heap q') a \<noteq> None" using taking_alive [OF ok1, of u a] un u Some by simp
  moreover have "taking (pcs t) \<noteq> Some a" using d(10) [OF Some, of t] u by auto
  moreover have "GET_PTR ot \<noteq> a" if "pcs t = Push_data x nn ot" for x nn ot
    using that d(7,8,11) un by auto
  ultimately have "node_val q' a = node_val q a"
    using val_frame [OF d(5) taking_alive [OF d(3) un(1) Some]] by blast
  with Some show ?thesis by (cases "pcs u") (auto simp: owed_def taking_def)
qed (cases "pcs u"; simp add: owed_def taking_def)

text \<open>A step of a popper leaves the pusher as it is.\<close>

lemma popper_push_ok:
  assumes g: "goes_on n w as bs q pcs t ch pc q'" and "t \<noteq> w"
  shows "push_ok q' (pcs w)"
proof -
  note d = goes_onD [OF g]
  have ip: "\<not> in_push (pcs t)" using d(7) assms(2) by blast
  have tl: "tail q' = tail q" using ends_frame(1) [OF d(5) ip] .
  have a: "map_of (heap q) (GET_PTR (tail q)) \<noteq> None" "map_of (heap q') (GET_PTR (tail q)) \<noteq> None"
    using linked_alive [OF d(3)] stays_linked [OF d(1)] d(11) by auto
  have "taking (pcs t) \<noteq> Some (GET_PTR (tail q))" using d(9) [of t] d(11) by auto
  moreover have "GET_PTR ot \<noteq> b" if "pcs t = Push_data x nn ot" for x nn ot b using ip that by simp
  ultimately have "node_val q' (GET_PTR (tail q)) = node_val q (GET_PTR (tail q))"
    using val_frame [OF d(5) a] by blast
  with push_ok_frame [OF tl] d(8) show ?thesis by blast
qed

lemma lin_okI:
  assumes g: "goes_on n w as bs q pcs t ch pc q'"
    and p: "t = w \<Longrightarrow> push_ok q' pc"
    and s: "\<And>a. taking pc = Some a \<Longrightarrow> a \<notin> set (as1 @ bs1) \<and> (\<forall>u. u \<noteq> t \<longrightarrow> taking (pcs u) \<noteq> Some a)"
    and o: "\<And>u a. u \<noteq> t \<Longrightarrow> taking (pcs u) = Some a \<Longrightarrow> a \<notin> set (as1 @ bs1)"
  shows "lin_ok n w as1 bs1 q' (pcs(t := pc))"
proof -
  note d = goes_onD [OF g]
  have lin: "\<And>s. s \<noteq> w \<Longrightarrow> \<not> in_push (pcs s)" "\<And>s. n \<le> s \<Longrightarrow> pcs s = Idle"
    using d(2) by (auto simp: lin_ok_def)
  have "\<not> in_push ((pcs(t := pc)) s)" if "s \<noteq> w" for s
    using lin(1) [OF that] stays_out [OF d(5)] by auto
  moreover have "(pcs(t := pc)) s = Idle" if "n \<le> s" for s using lin(2) [OF that] d(4) that by auto
  moreover have "push_ok q' ((pcs(t := pc)) w)"
    using p popper_push_ok [OF g] by (cases "t = w") auto
  moreover have "a \<notin> set (as1 @ bs1)" if "taking ((pcs(t := pc)) s) = Some a" for s a
    using that s o [of s a] by (cases "s = t") auto
  moreover have "u = s" if "taking ((pcs(t := pc)) s) = Some a" "taking ((pcs(t := pc)) u) = Some a" for s u a
    using that s d(10) [of s a u] by (cases "s = t"; cases "u = t") auto
  ultimately show ?thesis unfolding lin_ok_def by blast
qed


section \<open>Steps that leave the list alone\<close>

definition quiet :: "'a pc \<Rightarrow> bool" where
  "quiet pc \<longleftrightarrow> (case pc of Push_data x nn ot \<Rightarrow> False | Push_next x nn ot \<Rightarrow> False
     | Tail_cas k ot nt cur \<Rightarrow> False | Pop_cas oh nx \<Rightarrow> False | Pop_data oh \<Rightarrow> False | _ \<Rightarrow> True)"

lemma GET_PTR_inc [simp]: "GET_PTR (inc_count c) = GET_PTR c"
  using increase_same [of c] by simp

lemma quiet_same_list:
  assumes g: "goes_on n w as bs q pcs t ch pc q'" and ok1: "lf_ok n as1 bs1 q' (pcs(t := pc))"
    and nl: "\<And>x nn ot. pcs t \<noteq> Push_next x nn ot" "\<And>k ot nt cur. pcs t \<noteq> Tail_cas k ot nt cur"
      "\<And>oh nx. pcs t \<noteq> Pop_cas oh nx"
  shows "as1 = as \<and> bs1 = bs"
proof (rule shape_unique [OF lf_okD(1) [OF ok1]])
  note d = goes_onD [OF g]
  have nh: "pcs t \<noteq> Push_help x nn ot" for x nn ot using d(7,8) by auto
  have "nxt q' a = nxt q a" if "a \<in> set (as @ bs)" for a
    by (rule nxt_frame [OF d(5) linked_alive [OF d(3) that] stays_linked [OF d(1) that]])
      (use nl nh in blast)+
  then show "linked q' (as @ bs)"
    using linked_frame [OF shape_linked [OF d(6)]] ends_frame(3) [OF d(5)] nl by blast
  show "hd bs = GET_PTR (tail q')" using ends_frame(2) [OF d(5)] nl d(12) by simp
  show "bs \<noteq> []" using d(13) .
qed

lemma stored_vals_cong:
  assumes "\<And>a. a \<in> set (as @ bs) \<Longrightarrow> node_val q' a = node_val q a" "bs \<noteq> []"
  shows "stored_vals q' as bs = stored_vals q as bs"
  using assms by (auto simp: stored_vals_def)

lemma linked_vals:
  assumes g: "goes_on n w as bs q pcs t ch pc q'" and a: "a \<in> set (as @ bs)"
    and nd: "\<And>x nn ot. pcs t = Push_data x nn ot \<Longrightarrow> GET_PTR ot \<noteq> a"
  shows "node_val q' a = node_val q a"
proof -
  note d = goes_onD [OF g]
  have "taking (pcs t) \<noteq> Some a" using d(9) [of t] a by auto
  then show ?thesis
    using val_frame [OF d(5) linked_alive [OF d(3) a] stays_linked [OF d(1) a]] nd by blast
qed

lemma quiet_push_ok:
  assumes "lf_step ch pc q = Inr (pc', q')" "quiet pc" "push_ok q pc"
    and "node_val q' (GET_PTR (tail q)) = node_val q (GET_PTR (tail q))"
  shows "push_ok q' pc'"
proof -
  have "GET_PTR (tail q') = GET_PTR (tail q)"
    by (rule ends_frame(2) [OF assms(1)]) (use assms(2) in \<open>auto simp: quiet_def\<close>)
  then have v: "node_val q (GET_PTR (tail q)) = node_val q' (GET_PTR (tail q'))"
    using assms(4) by simp
  with assms(1-3) show ?thesis
    by (cases pc) (auto simp: quiet_def bindE_eq_Inr after_count_def Let_def
      increase_Some increase_None split: if_splits option.splits)
qed

lemma kont_facts:
  assumes "push_kont k \<Longrightarrow> kont_owns k = None"
  shows "unstored (resume k) = []"
    "map Some (case pop_answer (resume k) of Some v \<Rightarrow> [v] | None \<Rightarrow> []) = []"
  using assms by (cases k; simp add: unstored_def)+

lemma quiet_effects:
  assumes s: "lf_step ch pc q = Inr (pc', q')" "quiet pc" and p: "in_push pc \<Longrightarrow> push_ok q pc"
  shows "unstored pc' = unstored pc" "taking pc' = None"
    and "None \<notin> set (owed q pc) \<Longrightarrow> owed q pc = map Some (if final pc then [] else
       case pop_answer pc' of Some v \<Rightarrow> [v] | None \<Rightarrow> []) @ owed q' pc'"
proof -
  show "taking pc' = None"
    using s by (cases pc) (auto simp: quiet_def taking_def bindE_eq_Inr after_count_def Let_def
      increase_Some resume_facts(2) [unfolded taking_def] split: if_splits option.splits)
  show "unstored pc' = unstored pc"
    using s p by (cases pc) (auto simp: quiet_def unstored_def bindE_eq_Inr after_count_def Let_def
      increase_Some kont_facts(1) [unfolded unstored_def] split: if_splits option.splits)
  show "owed q pc = map Some (if final pc then [] else
       case pop_answer pc' of Some v \<Rightarrow> [v] | None \<Rightarrow> []) @ owed q' pc'" if "None \<notin> set (owed q pc)"
    using s p that by (cases pc) (auto simp: quiet_def owed_def bindE_eq_Inr after_count_def Let_def
      increase_Some resume_facts(3) [unfolded owed_def] kont_result_def split: if_splits option.splits kont.splits)
qed

lemma quiet_points:
  assumes "quiet (pcs t)"
  shows "store_point (Step t ch) (q, pcs) = []" "take_point (Step t ch) (q, pcs) = []"
  using assms by (cases "pcs t"; simp add: quiet_def store_point_def take_point_def)+

lemma answer_point_step:
  "lf_step ch (pcs t) q = Inr (pc, q') \<Longrightarrow> answer_point t (Step t ch) (q, pcs) =
     (if final (pcs t) then [] else case pop_answer pc of Some v \<Rightarrow> [v] | None \<Rightarrow> [])"
  by (simp add: answer_point_def)

lemma step_quiet:
  assumes g: "goes_on n w as bs q pcs t ch pc q'" and ok1: "lf_ok n as1 bs1 q' (pcs(t := pc))"
    and qt: "quiet (pcs t)"
  shows "kept n w as bs q pcs t ch pc q' as bs \<and> as1 = as \<and> bs1 = bs"
proof -
  note d = goes_onD [OF g]
  have l: "as1 = as \<and> bs1 = bs"
    by (rule quiet_same_list [OF g ok1]) (use qt in \<open>auto simp: quiet_def\<close>)
  have vals: "node_val q' a = node_val q a" if "a \<in> set (as @ bs)" for a
    by (rule linked_vals [OF g that]) (use qt in \<open>auto simp: quiet_def\<close>)
  have p: "push_ok q (pcs t)" if "in_push (pcs t)" using d(7,8) that by blast
  note e = quiet_effects [OF d(5) qt p]
  have "lin_ok n w as bs q' (pcs(t := pc))"
  proof (rule lin_okI [OF g])
    show "push_ok q' pc" if "t = w"
      using quiet_push_ok [OF d(5) qt] d(8,11) that vals by simp
  qed (use e(2) d(9) in auto)
  moreover have "stored_vals q' as bs = stored_vals q as bs"
    by (rule stored_vals_cong [OF vals d(13)])
  moreover have "unstored (pcs w) = unstored ((pcs(t := pc)) w)" using e(1) by simp
  moreover have "owed q (pcs t) = map Some (answer_point t (Step t ch) (q, pcs)) @ owed q' pc"
    unfolding answer_point_step [where pcs = pcs and t = t, OF d(5)] using e(3) d(14) by blast
  ultimately show ?thesis
    using others_owed [OF g ok1] l unfolding kept_def by (simp add: quiet_points [where pcs = pcs and t = t, OF qt])
qed


section \<open>Steps that change the list\<close>

lemma keptI:
  assumes g: "goes_on n w as bs q pcs t ch pc q'" and ok1: "lf_ok n as1 bs1 q' (pcs(t := pc))"
    and "lin_ok n w as1 bs1 q' (pcs(t := pc))"
    and "store_point (Step t ch) (q, pcs) = st" "take_point (Step t ch) (q, pcs) = tk"
    and "stored_vals q as bs @ map Some st = map snd tk @ stored_vals q' as1 bs1"
    and "owed q (pcs t) @ map snd tk = owed q' pc" "pop_answer pc = None"
    and "unstored (pcs w) = st @ unstored ((pcs(t := pc)) w)"
  shows "kept n w as bs q pcs t ch pc q' as1 bs1"
proof -
  have "answer_point t (Step t ch) (q, pcs) = []"
    using answer_point_step [where pcs = pcs and t = t, OF goes_onD(5) [OF g]] assms(8) by simp
  with assms(3-7,9) others_owed [OF g ok1] show ?thesis by (simp add: kept_def)
qed

lemma step_store:
  assumes g: "goes_on n w as bs q pcs t ch pc q'" and ok1: "lf_ok n as1 bs1 q' (pcs(t := pc))"
    and pt: "pcs t = Push_data x nn ot"
  shows "kept n w as bs q pcs t ch pc q' as bs \<and> as1 = as \<and> bs1 = bs"
proof -
  note d = goes_onD [OF g]
  have l: "as1 = as \<and> bs1 = bs" by (rule quiet_same_list [OF g ok1]) (use pt in auto)
  have t: "t = w" and ot: "tail q = ot" "node_val q (GET_PTR ot) = None" using d(7,8) pt by auto
  obtain nd where nd: "map_of (heap q) (GET_PTR ot) = Some nd"
    using linked_alive [OF d(3), of "GET_PTR ot"] d(11) ot by auto
  with d(5) pt ot have s: "pc = Push_next x nn ot" "q' = put_node (GET_PTR ot) (nd\<lparr>node_data := Some x\<rparr>) q"
    by (auto simp: node_val_def)
  have v: "node_val q' = (node_val q)(GET_PTR ot := Some x)"
    by (auto simp: s node_val_def put_node_def fun_eq_iff)
  have "lin_ok n w as bs q' (pcs(t := pc))"
  proof (rule lin_okI [OF g])
    show "push_ok q' pc" using ot v by (simp add: s(1)) (simp add: s(2))
  qed (use d(9) in \<open>auto simp: s(1) taking_def\<close>)
  moreover have "stored_vals q' as bs = stored_vals q as bs @ [Some x]"
  proof -
    have "GET_PTR ot \<notin> set as" using d(6,11) ot by (auto simp: lf_shape_def)
    then have "map (node_val q') as = map (node_val q) as" by (simp add: v)
    then show ?thesis using d(12) ot by (simp add: stored_vals_def v)
  qed
  ultimately have "kept n w as bs q pcs t ch pc q' as1 bs1"
    using l ot pt t by (intro keptI [OF g ok1, where st = "[x]" and tk = "[]"])
      (simp_all add: s(1) store_point_def take_point_def owed_def unstored_def)
  with l show ?thesis by simp
qed

lemma link_pending:
  assumes g: "goes_on n w as bs q pcs t ch pc q'" and pt: "pcs t = Push_next x nn ot"
  shows "nxt q (GET_PTR ot) = 0"
proof (rule ccontr)
  note d = goes_onD [OF g]
  have ot: "tail q = ot" and t: "t = w" using d(7,8) pt by auto
  assume "nxt q (GET_PTR ot) \<noteq> 0"
  then have "tl bs \<noteq> []" using d(6,12,13) ot by (cases bs) (auto simp: lf_shape_def)
  then obtain u where u: "u < n" "moves_tail (pcs u) = Some (hd bs)"
    using lf_okD(6) [OF d(3)] by (auto simp: tail_helped_def)
  then have "in_push (pcs u)" by (cases "pcs u") (auto simp: moves_tail_def)
  then have "u = w" using d(2) by (auto simp: lin_ok_def)
  with u pt t show False by (simp add: moves_tail_def)
qed

lemma taking_paying: "taking pc = Some a \<Longrightarrow> paying a pc"
  by (cases pc) (auto simp: taking_def paying_def pays_def)

lemma step_link:
  assumes g: "goes_on n w as bs q pcs t ch pc q'" and ok1: "lf_ok n as1 bs1 q' (pcs(t := pc))"
    and pt: "pcs t = Push_next x nn ot"
  shows "kept n w as bs q pcs t ch pc q' as (bs @ [GET_PTR nn]) \<and> as1 = as \<and> bs1 = bs @ [GET_PTR nn]"
proof -
  note d = goes_onD [OF g]
  have t: "t = w" and ot: "tail q = ot" "node_val q (GET_PTR ot) \<noteq> None" using d(7,8) pt by auto
  obtain nd where nd: "map_of (heap q) (GET_PTR ot) = Some nd"
    using linked_alive [OF d(3), of "GET_PTR ot"] d(11) ot by auto
  have z: "node_next nd = 0" using link_pending [OF g pt] by (simp add: nxt_eq [OF nd])
  with d(5) pt nd have s: "pc = Tail_cas K_push_done ot nn (GET_PTR ot)"
    "q' = put_node (GET_PTR ot) (nd\<lparr>node_next := nn\<rparr>) q" by simp_all
  have p: "GET_COUNT nn = 1" using ok_stepD(6) [OF d(1)] pt by simp
  then have "nn \<noteq> 0" by auto
  then have "lf_ok n as (bs @ [GET_PTR nn]) q' (pcs(t := pc))"
    using p ok_stepD(6) [OF d(1)] by (intro ok_link [OF d(3,4) nd z s(2)])
      (simp_all add: s pt pc_views nxt_def put_node_def)
  then have l: "as1 = as \<and> bs1 = bs @ [GET_PTR nn]"
    by (intro shape_unique [OF lf_okD(1) [OF ok1] shape_linked [OF lf_okD(1)]])
      (use d(12,13) in \<open>simp_all add: s(2) hd_append\<close>)
  have v: "node_val q' = node_val q"
    by (auto simp: s(2) node_val_def put_node_def fun_eq_iff nd)
  have own: "owns (pcs t) = Some (GET_PTR nn)" using pt by simp
  have fresh: "taking (pcs u) \<noteq> Some (GET_PTR nn)" for u
  proof
    assume a: "taking (pcs u) = Some (GET_PTR nn)"
    then have "1 \<le> payers n pcs (GET_PTR nn)"
      using d(9) by (intro thread_count_ge_1) (auto intro: taking_paying)
    with owned_node(3) [OF d(3,4) own] show False by simp
  qed
  have "lin_ok n w as (bs @ [GET_PTR nn]) q' (pcs(t := pc))"
    by (rule lin_okI [OF g]) (use d(9) fresh ot in \<open>auto simp: s(1) taking_def v, simp_all add: s(2)\<close>)
  moreover have "stored_vals q' as (bs @ [GET_PTR nn]) = stored_vals q as bs"
    using d(13) by (simp add: stored_vals_def v)
  ultimately have "kept n w as bs q pcs t ch pc q' as1 bs1"
    using l pt t by (intro keptI [OF g ok1, where st = "[]" and tk = "[]"])
      (simp_all add: s(1) store_point_def take_point_def owed_def unstored_def)
  with l show ?thesis by simp
qed


lemma same_queue_kept:
  assumes g: "goes_on n w as bs q pcs t ch pc q" and ok1: "lf_ok n as1 bs1 q (pcs(t := pc))"
    and "store_point (Step t ch) (q, pcs) = []" "take_point (Step t ch) (q, pcs) = []"
    and "t = w \<Longrightarrow> push_ok q pc" "taking pc = None" "owed q (pcs t) = owed q pc"
    and "pop_answer pc = None" "unstored (pcs t) = unstored pc"
  shows "kept n w as bs q pcs t ch pc q as bs \<and> as1 = as \<and> bs1 = bs"
proof -
  note d = goes_onD [OF g]
  have l: "as1 = as \<and> bs1 = bs"
    by (rule shape_unique [OF lf_okD(1) [OF ok1] shape_linked [OF d(6)] d(13,12)])
  have "lin_ok n w as bs q (pcs(t := pc))"
    by (rule lin_okI [OF g]) (use d(9) assms(5,6) in auto)
  with l have "kept n w as bs q pcs t ch pc q as1 bs1"
    using assms(3-) by (intro keptI [OF g ok1, where st = "[]" and tk = "[]"]) simp_all
  with l show ?thesis by simp
qed

lemma step_move_tail:
  assumes g: "goes_on n w as bs q pcs t ch pc q'" and ok1: "lf_ok n as1 bs1 q' (pcs(t := pc))"
    and pt: "pcs t = Tail_cas k ot nt cur"
  shows "kept n w as bs q pcs t ch pc q' as1 bs1"
proof -
  note d = goes_onD [OF g]
  have t: "t = w" and ot: "tail q = ot" "node_val q (GET_PTR ot) \<noteq> None" "k = K_push_done"
    using d(7,8) pt by auto
  have p: "GET_PTR ot = cur" "nxt q cur = nt" "nt \<noteq> 0" using ok_stepD(6) [OF d(1)] pt by simp_all
  show ?thesis
  proof (cases "ch_spurious ch")
    case True
    with d(5) pt ot p have s: "pc = pcs t" "q' = q" by auto
    have "kept n w as bs q pcs t ch (pcs t) q as bs \<and> as1 = as \<and> bs1 = bs"
      by (rule same_queue_kept [OF g [unfolded s] ok1 [unfolded s]])
        (use pt d(8) ot t in \<open>simp_all add: store_point_def take_point_def taking_def owed_def\<close>)
    with s show ?thesis by simp
  next
    case False
    with d(5) pt ot have s: "pc = Ext_load K_push_done ot" "q' = q\<lparr>tail := nt\<rparr>" by auto
    have "lf_ok n (as @ [hd bs]) (tl bs) q' (pcs(t := pc))"
      using p ot by (intro ok_move_tail [OF d(3,4) _ _ s(2)]) (simp_all add: s pt pc_views)
    note ok2 = lf_okD(1) [OF this]
    have l: "as1 = as @ [hd bs] \<and> bs1 = tl bs"
      by (rule shape_unique [OF lf_okD(1) [OF ok1] shape_linked [OF ok2]])
        (use ok2 in \<open>simp_all add: lf_shape_def\<close>)
    have v: "node_val q' = node_val q" by (simp add: s(2) node_val_def fun_eq_iff)
    have "\<not> has_data q (GET_PTR nt)" by (rule next_tail_fresh [OF d(3,16)]) (use p ot in auto)
    then have nv: "node_val q (GET_PTR nt) = None"
      by (auto simp: has_data_def node_val_def split: option.splits)
    have h: "hd (tl bs) = GET_PTR nt" using ok2 by (simp add: lf_shape_def s(2))
    have bs: "set (as @ [hd bs]) \<union> set (tl bs) = set (as @ bs)" using d(13) by (cases bs) auto
    have "lin_ok n w as1 bs1 q' (pcs(t := pc))"
      by (rule lin_okI [OF g]) (use d(9) nv l bs v [unfolded s(2)] in \<open>auto simp: s taking_def\<close>)
    then show ?thesis using l ot pt t d(12,13) nv h
      by (intro keptI [OF g ok1, where st = "[]" and tk = "[]"])
        (simp_all add: s(1) v store_point_def take_point_def owed_def kont_result_def unstored_def
          stored_vals_def)
  qed
qed

lemma step_take:
  assumes g: "goes_on n w as bs q pcs t ch pc q'" and ok1: "lf_ok n as1 bs1 q' (pcs(t := pc))"
    and pt: "pcs t = Pop_cas oh nx"
  shows "kept n w as bs q pcs t ch pc q' as1 bs1"
proof (cases "head q = oh")
  note d = goes_onD [OF g]
  case False
  with d(5) pt have s: "pc = Rel_load (K_pop_again (head q)) (GET_PTR oh)" "q' = q" by auto
  have "kept n w as bs q pcs t ch pc q as bs \<and> as1 = as \<and> bs1 = bs"
    by (rule same_queue_kept) (use g ok1 pt s False d(8) in \<open>simp_all add: store_point_def
      take_point_def taking_def owed_def kont_result_def unstored_def\<close>)
  with s show ?thesis by simp
next
  note d = goes_onD [OF g]
  case True
  with d(5) pt have s: "pc = Pop_data oh" "q' = q\<lparr>head := nx\<rparr>" by auto
  have p: "nxt q (GET_PTR oh) = nx" "nx \<noteq> 0" "GET_PTR oh \<notin> set bs"
    using ok_stepD(6) [OF d(1)] pt by simp_all
  then have "as \<noteq> []" using d(6,13) True by (auto simp: lf_shape_def)
  then obtain as' where as: "as = GET_PTR oh # as'" using d(6) True by (cases as) (auto simp: lf_shape_def)
  have "lf_ok n (tl as) bs q' (pcs(t := pc))"
    using p True by (intro ok_move_head [OF d(3,4) _ _ s(2)]) (simp_all add: s pt pc_views)
  note ok2 = lf_okD(1) [OF this]
  have l: "as1 = as' \<and> bs1 = bs"
    by (rule shape_unique [OF lf_okD(1) [OF ok1]])
      (use ok2 as in \<open>simp_all add: lf_shape_def shape_linked\<close>)
  have v: "node_val q' = node_val q" by (simp add: s(2) node_val_def fun_eq_iff)
  have "GET_PTR oh \<notin> set (as' @ bs)" using d(6) as by (simp add: lf_shape_def)
  then have "lin_ok n w as1 bs1 q' (pcs(t := pc))"
    by (intro lin_okI [OF g]) (use d(8,9) l pt as v [unfolded s(2)] in \<open>auto simp: s taking_def\<close>)
  then show ?thesis using l pt True
    by (intro keptI [OF g ok1, where st = "[]" and tk = "[(t, node_val q (GET_PTR oh))]"])
      (simp_all add: s(1) v as store_point_def take_point_def owed_def unstored_def stored_vals_def)
qed

lemma step_clear:
  assumes g: "goes_on n w as bs q pcs t ch pc q'" and ok1: "lf_ok n as1 bs1 q' (pcs(t := pc))"
    and pt: "pcs t = Pop_data oh"
  shows "kept n w as bs q pcs t ch pc q' as1 bs1"
proof -
  note d = goes_onD [OF g]
  have l: "as1 = as \<and> bs1 = bs" by (rule quiet_same_list [OF g ok1]) (use pt in auto)
  obtain nd where nd: "map_of (heap q) (GET_PTR oh) = Some nd"
    using taking_alive [OF d(3,4), of "GET_PTR oh"] pt by (auto simp: taking_def)
  with d(5) pt have s: "pc = Ext_load (K_pop_done (node_data nd)) oh"
    "q' = put_node (GET_PTR oh) (nd\<lparr>node_data := None\<rparr>) q" by simp_all
  have vals: "node_val q' a = node_val q a" if "a \<in> set (as @ bs)" for a
    by (rule linked_vals [OF g that]) (use pt in auto)
  have "node_val q' (GET_PTR (tail q)) = node_val q (GET_PTR (tail q))"
    by (rule vals) (use d(11) in simp)
  then have "push_ok q' pc" if "t = w" using d(8) that pt by (simp add: s(1)) (simp add: s(2))
  then have "lin_ok n w as1 bs1 q' (pcs(t := pc))"
    by (intro lin_okI [OF g]) (use d(9) l in \<open>auto simp: s(1) taking_def\<close>)
  moreover have "stored_vals q' as bs = stored_vals q as bs" by (rule stored_vals_cong [OF vals d(13)])
  moreover have "node_val q (GET_PTR oh) = node_data nd" by (simp add: node_val_def nd)
  ultimately show ?thesis using l pt
    by (intro keptI [OF g ok1, where st = "[]" and tk = "[]"])
      (simp_all add: s(1) store_point_def take_point_def owed_def unstored_def kont_result_def)
qed

lemma step_kept:
  assumes g: "goes_on n w as bs q pcs t ch pc q'" and ok1: "lf_ok n as1 bs1 q' (pcs(t := pc))"
  shows "kept n w as bs q pcs t ch pc q' as1 bs1"
proof (cases "pcs t")
  case (Push_data x nn ot)
  with step_store [OF g ok1] show ?thesis by blast
next
  case (Push_next x nn ot)
  with step_link [OF g ok1] show ?thesis by blast
qed (use step_move_tail [OF g ok1] step_take [OF g ok1] step_clear [OF g ok1] step_quiet [OF g ok1] in
  \<open>simp_all add: quiet_def\<close>)


section \<open>What the list holds\<close>

lemma null_step:
  "lf_step ch pc q = Inr (pc', q') \<Longrightarrow> map_of (heap q) 0 = None \<Longrightarrow> map_of (heap q') 0 = None"
  by (cases pc) (auto simp: bindE_eq_Inr heap_get_Inr alloc_node_def alloc_ok_def put_node_def
      free_node_def Let_def split: if_splits option.splits)

lemma walk_linked:
  assumes "successively (\<lambda>a b. nxt q a \<noteq> 0 \<and> GET_PTR (nxt q a) = b) L" "L \<noteq> []" "length L \<le> n"
    and "nxt q (last L) = 0" "map_of (heap q) 0 = None"
  shows "map Some (walk n (heap q) (hd L)) = takeWhile (\<lambda>v. v \<noteq> None) (map (node_val q) L)"
  using assms
proof (induction L arbitrary: n)
  case (Cons a L)
  then obtain m where n: "n = Suc m" by (cases n) auto
  show ?case
  proof (cases L)
    case Nil
    have "walk k (heap q) (GET_PTR 0) = []" for k using Cons.prems(5) by (cases k) (simp_all add: GET_PTR_def)
    with Nil Cons.prems(4) n show ?thesis by (auto simp: node_val_def nxt_def split: option.splits)
  next
    case (Cons b M)
    with Cons.prems Cons.IH [of m] n show ?thesis
      by (auto simp: node_val_def nxt_def split: option.splits if_splits)
  qed
qed simp

lemma stored_contents:
  assumes ok: "lf_ok n as bs q pcs" and f: "fresh_data q" and z: "map_of (heap q) 0 = None"
    and s: "None \<notin> set (stored_vals q as bs)"
  shows "stored_vals q as bs = map Some (lfq_contents q)"
proof -
  have sh: "lf_shape as bs q" by (rule lf_okD(1) [OF ok])
  have "length (as @ bs) = card (set (as @ bs))" using sh by (simp only: lf_shape_def distinct_card)
  also have "\<dots> \<le> card (dom (map_of (heap q)))" by (rule card_mono) (use sh in \<open>auto simp: lf_shape_def finite_dom_map_of\<close>)
  also have "\<dots> \<le> length (heap q)" by (simp add: dom_map_of_conv_image_fst card_length [of "map fst (heap q)", simplified])
  finally have len: "length (as @ bs) \<le> length (heap q)" .
  have w: "map Some (lfq_contents q) = takeWhile (\<lambda>v. v \<noteq> None) (map (node_val q) (as @ bs))"
    unfolding lfq_contents_def
    using walk_linked [of q "as @ bs", OF _ _ len _ z] sh by (auto simp: lf_shape_def)
  obtain b cs where b: "bs = b # cs" using sh by (cases bs) (auto simp: lf_shape_def)
  have as: "v \<in> set (map (node_val q) as) \<Longrightarrow> v \<noteq> None" for v
    using s unfolding stored_vals_def by (metis UnI1 set_append)
  have "takeWhile (\<lambda>v. v \<noteq> None) (map (node_val q) cs) = []"
  proof (cases cs)
    case (Cons c ds)
    then have "ds = []" using lf_okD(6) [OF ok] b by (auto simp: tail_helped_def)
    with sh b Cons have "nxt q c = 0" "c \<noteq> GET_PTR (tail q)" by (auto simp: lf_shape_def)
    with fresh_dataD [OF f, of c] have "node_val q c = None"
      by (auto simp: node_val_def nxt_def split: option.splits)
    with Cons show ?thesis by simp
  qed simp
  moreover have "takeWhile (\<lambda>v. v \<noteq> None) (map (node_val q) as @ map (node_val q) bs) =
      map (node_val q) as @ takeWhile (\<lambda>v. v \<noteq> None) (map (node_val q) bs)"
    by (rule takeWhile_append2) (rule as)
  ultimately show ?thesis using w b by (simp add: stored_vals_def)
qed

section \<open>Traces\<close>

definition lin_inv ::
  "nat \<Rightarrow> 'a machine \<Rightarrow> 'a list \<Rightarrow> (nat \<times> 'a option) list \<Rightarrow> (nat \<Rightarrow> 'a list) \<Rightarrow> 'a list \<Rightarrow> bool" where
  "lin_inv w m S T A U \<longleftrightarrow> (case m of (q, pcs) \<Rightarrow> \<exists>as bs.
     lf_ok max_threads as bs q pcs \<and> lin_ok max_threads w as bs q pcs \<and> fresh_data q \<and>
     map_of (heap q) 0 = None \<and> map Some S = map snd T @ stored_vals q as bs \<and>
     (\<forall>t. map snd (filter (\<lambda>d. fst d = t) T) = map Some (A t) @ owed q (pcs t)) \<and>
     U = S @ unstored (pcs w))"

lemma filter_taken:
  "map snd (filter (\<lambda>d. fst d = u) (take_point (Step t ch) (q, pcs))) =
     (if u = t then map snd (take_point (Step t ch) (q, pcs)) else [])"
  by (auto simp: take_point_def split: pc.splits)

lemma lin_step:
  assumes inv: "lin_inv w (q, pcs) S T A U" and e: "event_fits (Step t ch) (q, pcs)"
    and z: "ch_data ch = None"
    and s: "lf_step ch (pcs t) q = Inr (pc, q')"
  shows "lin_inv w (q', pcs(t := pc)) (S @ store_point (Step t ch) (q, pcs))
    (T @ take_point (Step t ch) (q, pcs)) (\<lambda>u. A u @ answer_point u (Step t ch) (q, pcs)) U"
proof -
  obtain as bs where ok: "lf_ok max_threads as bs q pcs" and lin: "lin_ok max_threads w as bs q pcs"
    and f: "fresh_data q" "map_of (heap q) 0 = None" and S: "map Some S = map snd T @ stored_vals q as bs"
    and A: "\<And>t. map snd (filter (\<lambda>d. fst d = t) T) = map Some (A t) @ owed q (pcs t)"
    and U: "U = S @ unstored (pcs w)"
    using inv by (auto simp: lin_inv_def)
  have ST: "None \<notin> set (map snd T)" "None \<notin> set (stored_vals q as bs)"
    using arg_cong [OF S, of set] by auto
  have "set (owed q (pcs t)) \<subseteq> set (map snd T)"
    using arg_cong [OF A [of t], of set] by auto
  with ST have ow: "None \<notin> set (owed q (pcs t))" by blast
  have st: "ok_step max_threads as bs q pcs t ch pc q'"
    using ok e s by (simp add: ok_step_def event_fits_def max_threads_def)
  then have g: "goes_on max_threads w as bs q pcs t ch pc q'"
    using lin f ow ST by (simp add: goes_on_def)
  obtain as1 bs1 where ok1: "lf_ok max_threads as1 bs1 q' (pcs(t := pc))" using step_ok [OF st] by blast
  have k: "kept max_threads w as bs q pcs t ch pc q' as1 bs1" by (rule step_kept [OF g ok1])
  have S': "map Some (S @ store_point (Step t ch) (q, pcs)) =
      map snd (T @ take_point (Step t ch) (q, pcs)) @ stored_vals q' as1 bs1"
    using k S by (simp add: kept_def)
  have A': "map snd (filter (\<lambda>d. fst d = u) (T @ take_point (Step t ch) (q, pcs))) =
      map Some (A u @ answer_point u (Step t ch) (q, pcs)) @ owed q' ((pcs(t := pc)) u)" for u
  proof (cases "u = t")
    case True
    with k A [of t] show ?thesis by (simp add: kept_def filter_taken)
  next
    case False
    then have "answer_point u (Step t ch) (q, pcs) = []" by (simp add: answer_point_def)
    with False k A [of u] show ?thesis by (simp add: kept_def filter_taken)
  qed
  have "U = (S @ store_point (Step t ch) (q, pcs)) @ unstored ((pcs(t := pc)) w)"
    using k U by (simp add: kept_def)
  then show ?thesis using ok1 k S' A' fresh_data_step [OF st z f(1)] null_step [OF s f(2)]
    unfolding lin_inv_def prod.case by (intro exI [of _ as1] exI [of _ bs1] conjI allI) (auto simp: kept_def)
qed


lemma no_owner: "\<not> push_kont k \<Longrightarrow> kont_owns k = None"
  by (cases k) simp_all

lemma push_ok_out:
  "\<not> in_push pc \<Longrightarrow> push_ok q pc \<longleftrightarrow> node_val q (GET_PTR (tail q)) = None"
  using no_owner by (cases pc) auto

lemma unstored_out: "\<not> in_push pc \<Longrightarrow> unstored pc = []"
  by (cases pc) (simp_all add: unstored_def)

lemma final_out: "final pc \<Longrightarrow> \<not> in_push pc \<and> taking pc = None \<and> owed q pc = []"
  by (cases pc) (simp_all add: taking_def owed_def)

text \<open>A call: the machine's queue stays, and the caller's control point becomes the start.\<close>

lemma lin_call:
  assumes inv: "lin_inv w (q, pcs) S T A U" and t: "t < max_threads" "final (pcs t)"
    and pc: "pc = Pop_start \<and> w' = w \<or> pc = Push_start x \<and> w' = t \<and> (t = w \<or> \<not> in_push (pcs w))"
  shows "lin_inv w' (q, pcs(t := pc)) S T A (U @ unstored pc)"
proof -
  obtain as bs where ok: "lf_ok max_threads as bs q pcs" and lin: "lin_ok max_threads w as bs q pcs"
    and f: "fresh_data q" "map_of (heap q) 0 = None" and S: "map Some S = map snd T @ stored_vals q as bs"
    and A: "\<And>t. map snd (filter (\<lambda>d. fst d = t) T) = map Some (A t) @ owed q (pcs t)"
    and U: "U = S @ unstored (pcs w)"
    using inv by (auto simp: lin_inv_def)
  note fo = final_out [OF t(2)]
  have "lf_ok max_threads as bs q (pcs(t := pc))"
    by (rule ok_silent [OF ok t(1)]) (use pc in \<open>auto simp: final_view [OF t(2)]\<close>)
  moreover have pv: "taking pc = None" "owed q pc = []" using pc by (auto simp: taking_def owed_def)
  have "lin_ok max_threads w' as bs q (pcs(t := pc))"
  proof -
    have w: "s \<noteq> w \<Longrightarrow> \<not> in_push (pcs s)" "push_ok q (pcs w)" for s using lin by (auto simp: lin_ok_def)
    have out: "\<not> in_push (pcs w)" if "pc = Push_start x" using pc that fo by auto
    have "\<not> in_push ((pcs(t := pc)) s)" if "s \<noteq> w'" for s
      using that w(1) [of s] out pc fo by (cases "s = w") auto
    moreover have "push_ok q ((pcs(t := pc)) w')"
    proof -
      have "node_val q (GET_PTR (tail q)) = None" if "\<not> in_push (pcs w)"
        using w(2) push_ok_out [OF that] by blast
      then show ?thesis using w(2) pc fo by (cases "t = w") auto
    qed
    ultimately show ?thesis using lin t pv by (auto simp: lin_ok_def)
  qed
  moreover have "U @ unstored pc = S @ unstored ((pcs(t := pc)) w')"
    using U pc unstored_out [of "pcs w"] fo by (auto simp: unstored_def)
  moreover have "map snd (filter (\<lambda>d. fst d = u) T) = map Some (A u) @ owed q ((pcs(t := pc)) u)" for u
    using A [of u] fo pv by (cases "u = t") auto
  ultimately show ?thesis using f S unfolding lin_inv_def prod.case by blast
qed

lemma lin_same:
  assumes inv: "lin_inv w (q, pcs) S T A U" and t: "t = w \<or> \<not> in_push (pcs w)"
  shows "lin_inv t (q, pcs) S T A U"
proof (cases "t = w")
  case False
  have "lin_ok max_threads t as bs q pcs" if l: "lin_ok max_threads w as bs q pcs" for as bs
  proof -
    have out: "\<not> in_push (pcs s)" for s using l False t by (cases "s = w") (auto simp: lin_ok_def)
    then have "push_ok q (pcs t)" using l push_ok_out [OF out] by (auto simp: lin_ok_def)
    with out l show ?thesis by (simp add: lin_ok_def)
  qed
  moreover have "unstored (pcs w) = []" "unstored (pcs t) = []"
    if "lin_ok max_threads w as bs q pcs" for as bs
    using that False t by (auto simp: lin_ok_def intro!: unstored_out)
  ultimately show ?thesis using inv unfolding lin_inv_def prod.case by metis
qed (use inv in simp)

lemma lin_event:
  assumes inv: "lin_inv w m S T A U" and e: "event_fits e m" "may_push w e m" "lf_event e m = Inr m'"
    and z: "zeroed e"
  shows "lin_inv (pusher w e) m' (S @ store_point e m) (T @ take_point e m)
    (\<lambda>u. A u @ answer_point u e m) (U @ started_push e m)"
proof -
  obtain q pcs where m: "m = (q, pcs)" by force
  show ?thesis
  proof (cases e)
    case (Call_push t x)
    with e m have t: "t < max_threads" "t = w \<or> \<not> in_push (pcs w)"
      and m': "m' = (q, if final (pcs t) then pcs(t := Push_start x) else pcs)"
      by (auto simp: event_fits_def may_push_def)
    show ?thesis
    proof (cases "final (pcs t)")
      case True
      with lin_call [of w q pcs S T A U t "Push_start x" t x] inv m m' t Call_push show ?thesis
        by (simp add: pusher_def store_point_def take_point_def answer_point_def started_push_def unstored_def del: final_def)
    next
      case False
      with lin_same [of w q pcs S T A U t] inv m m' t Call_push show ?thesis
        by (simp add: pusher_def store_point_def take_point_def answer_point_def started_push_def del: final_def)
    qed
  next
    case (Call_pop t)
    with e m have t: "t < max_threads"
      and m': "m' = (q, if final (pcs t) then pcs(t := Pop_start) else pcs)"
      by (auto simp: event_fits_def)
    with lin_call [of w q pcs S T A U t "Pop_start" w] inv m Call_pop show ?thesis
      by (auto simp: pusher_def store_point_def take_point_def answer_point_def started_push_def
        unstored_def simp del: final_def)
  next
    case (Step t ch)
    with e m obtain pc q' where s: "lf_step ch (pcs t) q = Inr (pc, q')" "m' = (q', pcs(t := pc))"
      by (auto simp: bindE_eq_Inr)
    have "ch_data ch = None" using z Step by (simp add: zeroed_def)
    from lin_step [OF inv [unfolded m] e(1) [unfolded m Step] this s(1)] s(2) m Step show ?thesis
      by (simp add: pusher_def started_push_def)
  qed
qed

lemma lin_trace:
  assumes "lin_inv w m S T A U" "trace_fits es m" "one_push w es m" "lf_trace es m = Inr m'"
    and "\<forall>e \<in> set es. zeroed e"
  shows "\<exists>w'. lin_inv w' m' (S @ along store_point es m) (T @ along take_point es m)
    (\<lambda>u. A u @ along (answer_point u) es m) (U @ along started_push es m)"
  using assms
proof (induction es arbitrary: w m S T A U)
  case Nil
  then show ?case by (auto simp: lf_trace_def)
next
  case (Cons e es)
  then obtain m1 where m1: "lf_event e m = Inr m1" "lf_trace es m1 = Inr m'"
    by (auto simp: lf_trace_def bindE_eq_Inr)
  with Cons.prems have "lin_inv (pusher w e) m1 (S @ store_point e m) (T @ take_point e m)
    (\<lambda>u. A u @ answer_point u e m) (U @ started_push e m)"
    by (intro lin_event) auto
  from Cons.IH [OF this _ _ m1(2)] Cons.prems m1 show ?case by simp
qed

lemma lin_start:
  assumes "lfq_new ch = Inr q" "ch_data ch = None"
  shows "lin_inv w (q, \<lambda>_. Idle) [] [] (\<lambda>_. []) []"
proof -
  have m: "lf_start (q, \<lambda>_. Idle)" using assms(1) by (auto simp: lf_start_def)
  then obtain as bs where ok: "lf_ok max_threads as bs q (\<lambda>_. Idle)"
    using lf_start_ok [OF m] by (auto simp: lf_inv_def)
  from assms have h: "map_of (heap q) = [ch_addr ch \<mapsto> new_node None]" "ch_addr ch \<noteq> 0"
    by (auto simp: lfq_new_def alloc_node_def alloc_ok_def Let_def heap_put_def split: if_splits)
  have v: "node_val q a = None" for a by (simp add: node_val_def h new_node_def)
  have "distinct (as @ bs)" "set (as @ bs) \<subseteq> {ch_addr ch}" "bs \<noteq> []"
    using lf_okD(1) [OF ok] h by (auto simp: lf_shape_def)
  then have "as = []" by (cases as; cases bs) auto
  moreover have "fresh_data q" using h by (auto simp: fresh_data_def new_node_def split: if_splits)
  ultimately have "lf_ok max_threads [] bs q (\<lambda>_. Idle) \<and> lin_ok max_threads w [] bs q (\<lambda>_. Idle) \<and>
      fresh_data q \<and> map_of (heap q) 0 = None \<and> stored_vals q [] bs = []"
    using ok v h by (simp add: lin_ok_def stored_vals_def taking_def)
  then show ?thesis unfolding lin_inv_def prod.case
    by (intro exI [of _ "[]"] exI [of _ bs]) (simp add: owed_def unstored_def)
qed


text \<open>C4: with one push at a time, and any number of threads that pop at the same time, elements leave the
  queue once and in the order in which they came. A push takes effect where its compare-exchange
  of the data succeeds, a pop that takes an element where its compare-exchange of \<open>head\<close>
  succeeds: in every state a trace reaches, the elements
  stored so far, in order, are the elements taken so far, in order, followed by the contents; a
  thread that has returned has answered exactly the elements it took, in that order; and when all
  threads have returned, the elements stored are those of the calls of push, in the order of the
  calls. So no element is lost, answered twice or overtaken, unlike with two concurrent pushes
  (\<open>lost_push\<close>). Nothing is said of the pops that answer that the queue is empty, and such an
  answer can be wrong even with one pusher (\<open>pop_misses_elements\<close>): the queue is not linearizable.
  Assumed are nodes in zeroed memory, fewer than 2^30 threads and no wrap of an external count.\<close>

theorem lfq_single_pusher_fifo:
  assumes "lfq_new ch = Inr q0" "ch_data ch = None"
    and "trace_fits es (q0, \<lambda>_. Idle)" "one_push w es (q0, \<lambda>_. Idle)" "\<forall>e \<in> set es. zeroed e"
    and "lf_trace es (q0, \<lambda>_. Idle) = Inr (q, pcs)"
  shows "map Some (along store_point es (q0, \<lambda>_. Idle)) =
      map snd (along take_point es (q0, \<lambda>_. Idle)) @ map Some (lfq_contents q) \<and>
    (\<forall>t. final (pcs t) \<longrightarrow> map Some (along (answer_point t) es (q0, \<lambda>_. Idle)) =
      map snd (filter (\<lambda>d. fst d = t) (along take_point es (q0, \<lambda>_. Idle)))) \<and>
    ((\<forall>t. final (pcs t)) \<longrightarrow>
      along store_point es (q0, \<lambda>_. Idle) = along started_push es (q0, \<lambda>_. Idle))"
proof -
  obtain w' as bs where l: "lf_ok max_threads as bs q pcs" "fresh_data q" "map_of (heap q) 0 = None"
      "map Some (along store_point es (q0, \<lambda>_. Idle)) =
         map snd (along take_point es (q0, \<lambda>_. Idle)) @ stored_vals q as bs"
      "\<And>t. map snd (filter (\<lambda>d. fst d = t) (along take_point es (q0, \<lambda>_. Idle))) =
         map Some (along (answer_point t) es (q0, \<lambda>_. Idle)) @ owed q (pcs t)"
      "along started_push es (q0, \<lambda>_. Idle) = along store_point es (q0, \<lambda>_. Idle) @ unstored (pcs w')"
    using lin_trace [OF lin_start [OF assms(1,2)] assms(3,4,6,5)] by (auto simp: lin_inv_def)
  have "None \<notin> set (stored_vals q as bs)" using arg_cong [OF l(4), of set] by auto
  then have c: "stored_vals q as bs = map Some (lfq_contents q)" by (rule stored_contents [OF l(1-3)])
  have f: "owed q pc = [] \<and> unstored pc = []" if "final pc" for pc :: "'a pc"
    using final_out [OF that] unstored_out by blast
  show ?thesis using l(4-6) f c by simp
qed

text \<open>The schedule of \<open>pop_misses_elements\<close>: one thread pushes and two pop.\<close>

definition one_pusher_schedule :: "nat event list" where
  "one_pusher_schedule = two_pushed_schedule 11 12 2 3 @ stale_head_schedule 13 1"

lemma one_pusher_fits:
  "\<exists>q0 q. lfq_new (answers 1) = Inr q0 \<and>
     trace_fits one_pusher_schedule (q0, \<lambda>_. Idle) \<and> one_push 1 one_pusher_schedule (q0, \<lambda>_. Idle) \<and>
     (\<forall>e \<in> set one_pusher_schedule. zeroed e) \<and>
     lf_trace one_pusher_schedule (q0, \<lambda>_. Idle) =
       Inr (q, (\<lambda>_. Idle)(0 := Pop_ret None, 2 := Pop_ret (Some 11), 1 := Push_ret)) \<and>
     along (answer_point 2) one_pusher_schedule (q0, \<lambda>_. Idle) = [11]"
  by (simp add: one_pusher_schedule_def two_pushed_schedule_def stale_head_schedule_def run_defs
      addr48_iff fits_simps no_wrap_def max_threads_def count_ok_def may_push_def pusher_def zeroed_def
      answer_point_def fun_upd_twist)

theorem lfq_single_pusher_fifo_witness:
  "\<exists>q0 q pcs. lfq_new (answers 1) = Inr q0 \<and>
     lf_trace one_pusher_schedule (q0, \<lambda>_. Idle) = Inr (q, pcs) \<and>
     map Some (along store_point one_pusher_schedule (q0, \<lambda>_. Idle)) =
       map snd (along take_point one_pusher_schedule (q0, \<lambda>_. Idle)) @ map Some (lfq_contents q)"
proof -
  obtain q0 q where q: "lfq_new (answers 1) = Inr q0" "trace_fits one_pusher_schedule (q0, \<lambda>_. Idle)"
    "one_push 1 one_pusher_schedule (q0, \<lambda>_. Idle)" "\<forall>e \<in> set one_pusher_schedule. zeroed e"
    and t: "lf_trace one_pusher_schedule (q0, \<lambda>_. Idle) =
      Inr (q, (\<lambda>_. Idle)(0 := Pop_ret None, 2 := Pop_ret (Some 11), 1 := Push_ret))"
    using one_pusher_fits by blast
  have "ch_data (answers 1 :: nat choice) = None" by simp
  from lfq_single_pusher_fifo [OF q(1) this q(2-4) t] q(1) t show ?thesis by blast
qed

end
