(* ===== verification/Parking.thy ===== *)
theory Parking
  imports Prelude
begin

text \<open>
  How a consumer thread goes to sleep and is woken. The same protocol is written twice in the
  source: \<open>Start\<close>, \<open>Wait\<close>, \<open>WakeUp\<close>, \<open>AddTask\<close> and \<open>Stop\<close> of
  \<open>processer/processer.cpp\<close> (flag \<open>status_ == waiting\<close>), and \<open>IOSubmitThread\<close>,
  \<open>WakeUpIOSubmit\<close>, \<open>IOSubmit\<close> and \<open>Stop\<close> of \<open>scheduler/scheduler.cpp\<close> (flag
  \<open>ioWait_\<close>). They differ in one place: a woken processer pops once more before it goes
  back to the top of its loop (\<open>Run_queue\<close>), the I/O thread goes straight back
  (\<open>Io_queue\<close>); and only a processer's queue is stolen from. Each rule of \<open>pk_step\<close>
  is one access of a shared variable by the consumer or by one of any number of callers; the
  queue is a list whose push and pop are single steps, and the wait on the condition variable
  may end spuriously. Accesses are sequentially consistent.
\<close>

section \<open>State\<close>

datatype kind = Run_queue | Io_queue

datatype 'a consumer =
    C_start | C_loop | C_pop | C_lock | C_set | C_pop2 | C_back 'a | C_pred | C_block | C_asleep | C_wake
  | C_woken | C_unlock "'a option" | C_run 'a | C_exit

datatype 'a caller =
    P_idle | P_push 'a | P_check | P_stop | P_lock | P_test | P_unlock

datatype owner = Consumer | Caller nat

record 'a park =
  pk_stop :: bool
  pk_waiting :: bool
  pk_queue :: "'a list"
  pk_owner :: "owner option"
  pk_consumer :: "'a consumer"
  pk_caller :: "nat \<Rightarrow> 'a caller"

text \<open>
  A processer is created with \<open>status_\<close> = waiting, which the first line of \<open>Start\<close>
  sets to running without the mutex; the I/O thread starts with \<open>ioWait_\<close> = false.
\<close>

definition pk_init :: "kind \<Rightarrow> 'a park \<Rightarrow> bool" where
  "pk_init k s \<longleftrightarrow> s = \<lparr>pk_stop = False, pk_waiting = (k = Run_queue), pk_queue = [],
     pk_owner = None, pk_consumer = C_start, pk_caller = (\<lambda>_. P_idle)\<rparr>"

definition set_caller :: "nat \<Rightarrow> 'a caller \<Rightarrow> 'a park \<Rightarrow> 'a park" where
  "set_caller i c s = s\<lparr>pk_caller := (pk_caller s)(i := c)\<rparr>"

section \<open>Steps\<close>

inductive pk_step :: "kind \<Rightarrow> 'a park \<Rightarrow> 'a park \<Rightarrow> bool" for k where
  start: "pk_consumer s = C_start \<Longrightarrow>
    pk_step k s (s\<lparr>pk_consumer := C_loop, pk_waiting := (k = Io_queue \<and> pk_waiting s)\<rparr>)"
| loop_stop: "pk_consumer s = C_loop \<Longrightarrow> pk_stop s \<Longrightarrow> pk_step k s (s\<lparr>pk_consumer := C_exit\<rparr>)"
| loop_go: "pk_consumer s = C_loop \<Longrightarrow> \<not> pk_stop s \<Longrightarrow> pk_step k s (s\<lparr>pk_consumer := C_pop\<rparr>)"
| pop_some: "pk_consumer s = C_pop \<Longrightarrow> pk_queue s = x # xs \<Longrightarrow>
    pk_step k s (s\<lparr>pk_consumer := C_run x, pk_queue := xs\<rparr>)"
| pop_none: "pk_consumer s = C_pop \<Longrightarrow> pk_queue s = [] \<Longrightarrow> pk_step k s (s\<lparr>pk_consumer := C_lock\<rparr>)"
| lock_wait: "pk_consumer s = C_lock \<Longrightarrow> pk_owner s = None \<Longrightarrow>
    pk_step k s (s\<lparr>pk_consumer := C_set, pk_owner := Some Consumer\<rparr>)"
| set_waiting: "pk_consumer s = C_set \<Longrightarrow> pk_step k s (s\<lparr>pk_consumer := C_pop2, pk_waiting := True\<rparr>)"
| pop2_some: "pk_consumer s = C_pop2 \<Longrightarrow> pk_queue s = x # xs \<Longrightarrow>
    pk_step k s (s\<lparr>pk_consumer := C_back x, pk_queue := xs\<rparr>)"
| pop2_none: "pk_consumer s = C_pop2 \<Longrightarrow> pk_queue s = [] \<Longrightarrow> pk_step k s (s\<lparr>pk_consumer := C_pred\<rparr>)"
| back_running: "pk_consumer s = C_back x \<Longrightarrow>
    pk_step k s (s\<lparr>pk_consumer := C_unlock (Some x), pk_waiting := False\<rparr>)"
| pred_true: "pk_consumer s = C_pred \<Longrightarrow> \<not> pk_waiting s \<Longrightarrow> pk_step k s (s\<lparr>pk_consumer := C_woken\<rparr>)"
| pred_false: "pk_consumer s = C_pred \<Longrightarrow> pk_waiting s \<Longrightarrow> pk_step k s (s\<lparr>pk_consumer := C_block\<rparr>)"
| block: "pk_consumer s = C_block \<Longrightarrow>
    pk_step k s (s\<lparr>pk_consumer := C_asleep, pk_owner := None\<rparr>)"
| spurious: "pk_consumer s = C_asleep \<Longrightarrow> pk_step k s (s\<lparr>pk_consumer := C_wake\<rparr>)"
| wake: "pk_consumer s = C_wake \<Longrightarrow> pk_owner s = None \<Longrightarrow>
    pk_step k s (s\<lparr>pk_consumer := C_pred, pk_owner := Some Consumer\<rparr>)"
| woken_some: "pk_consumer s = C_woken \<Longrightarrow> k = Run_queue \<Longrightarrow> pk_queue s = x # xs \<Longrightarrow>
    pk_step k s (s\<lparr>pk_consumer := C_unlock (Some x), pk_queue := xs\<rparr>)"
| woken_none: "pk_consumer s = C_woken \<Longrightarrow> k = Io_queue \<or> pk_queue s = [] \<Longrightarrow>
    pk_step k s (s\<lparr>pk_consumer := C_unlock None\<rparr>)"
| unlock: "pk_consumer s = C_unlock r \<Longrightarrow>
    pk_step k s (s\<lparr>pk_consumer := (case r of None \<Rightarrow> C_loop | Some x \<Rightarrow> C_run x), pk_owner := None\<rparr>)"
| run: "pk_consumer s = C_run x \<Longrightarrow> pk_step k s (s\<lparr>pk_consumer := C_loop\<rparr>)"
| steal: "k = Run_queue \<Longrightarrow> pk_queue s = x # xs \<Longrightarrow> pk_step k s (s\<lparr>pk_queue := xs\<rparr>)"
| call_add: "pk_caller s i = P_idle \<Longrightarrow> pk_step k s (set_caller i (P_push x) s)"
| call_stop: "pk_caller s i = P_idle \<Longrightarrow> pk_step k s (set_caller i P_stop s)"
| push: "pk_caller s i = P_push x \<Longrightarrow>
    pk_step k s (set_caller i P_check (s\<lparr>pk_queue := pk_queue s @ [x]\<rparr>))"
| check_waiting: "pk_caller s i = P_check \<Longrightarrow> pk_waiting s \<Longrightarrow> pk_step k s (set_caller i P_lock s)"
| check_running: "pk_caller s i = P_check \<Longrightarrow> \<not> pk_waiting s \<Longrightarrow> pk_step k s (set_caller i P_idle s)"
| stop: "pk_caller s i = P_stop \<Longrightarrow> pk_step k s (set_caller i P_lock (s\<lparr>pk_stop := True\<rparr>))"
| lock_wakeup: "pk_caller s i = P_lock \<Longrightarrow> pk_owner s = None \<Longrightarrow>
    pk_step k s (set_caller i P_test (s\<lparr>pk_owner := Some (Caller i)\<rparr>))"
| test_waiting: "pk_caller s i = P_test \<Longrightarrow> pk_waiting s \<Longrightarrow>
    pk_step k s (set_caller i P_unlock (s\<lparr>pk_waiting := False,
      pk_consumer := (if pk_consumer s = C_asleep then C_wake else pk_consumer s)\<rparr>))"
| test_running: "pk_caller s i = P_test \<Longrightarrow> \<not> pk_waiting s \<Longrightarrow> pk_step k s (set_caller i P_unlock s)"
| unlock_wakeup: "pk_caller s i = P_unlock \<Longrightarrow>
    pk_step k s (set_caller i P_idle (s\<lparr>pk_owner := None\<rparr>))"

section \<open>Invariant\<close>

text \<open>The control points at which the mutex is held, and those of a caller still to wake.\<close>

primrec c_holds :: "'a consumer \<Rightarrow> bool" where
  "c_holds C_start = False" | "c_holds C_loop = False" | "c_holds C_pop = False"
| "c_holds C_lock = False" | "c_holds C_set = True" | "c_holds C_pop2 = True"
| "c_holds (C_back x) = True" | "c_holds C_pred = True" | "c_holds C_block = True"
| "c_holds C_asleep = False" | "c_holds C_wake = False" | "c_holds C_woken = True"
| "c_holds (C_unlock r) = True" | "c_holds (C_run x) = False" | "c_holds C_exit = False"

primrec p_holds :: "'a caller \<Rightarrow> bool" where
  "p_holds P_idle = False" | "p_holds (P_push x) = False" | "p_holds P_check = False"
| "p_holds P_stop = False" | "p_holds P_lock = False" | "p_holds P_test = True"
| "p_holds P_unlock = True"

primrec pending :: "'a caller \<Rightarrow> bool" where
  "pending P_idle = False" | "pending (P_push x) = False" | "pending P_check = True"
| "pending P_stop = False" | "pending P_lock = True" | "pending P_test = True"
| "pending P_unlock = False"

definition parked :: "'a consumer \<Rightarrow> bool" where
  "parked c \<longleftrightarrow> c = C_pred \<or> c = C_block \<or> c = C_asleep \<or> c = C_wake"

definition lock_inv :: "'a park \<Rightarrow> bool" where
  "lock_inv s \<longleftrightarrow> (c_holds (pk_consumer s) \<longleftrightarrow> pk_owner s = Some Consumer) \<and>
     (\<forall>i. p_holds (pk_caller s i) \<longleftrightarrow> pk_owner s = Some (Caller i))"

definition block_inv :: "'a park \<Rightarrow> bool" where
  "block_inv s \<longleftrightarrow> pk_consumer s = C_block \<or> pk_consumer s = C_asleep \<longrightarrow> pk_waiting s"

definition wake_inv :: "'a park \<Rightarrow> bool" where
  "wake_inv s \<longleftrightarrow> parked (pk_consumer s) \<and> pk_waiting s \<and> pk_queue s \<noteq> [] \<longrightarrow>
     (\<exists>i. pending (pk_caller s i))"

definition pk_inv :: "'a park \<Rightarrow> bool" where
  "pk_inv s \<longleftrightarrow> lock_inv s \<and> block_inv s \<and> wake_inv s"

lemma pk_inv_init: "pk_init k s \<Longrightarrow> pk_inv s"
  by (simp add: pk_init_def pk_inv_def lock_inv_def block_inv_def wake_inv_def parked_def)

text \<open>A step of a caller that neither takes nor gives back the mutex.\<close>

lemma lock_inv_caller:
  "\<lbrakk>lock_inv s; p_holds (pk_caller s i) = p_holds c; c_holds (pk_consumer t) = c_holds (pk_consumer s);
    pk_owner t = pk_owner s; pk_caller t = pk_caller s\<rbrakk> \<Longrightarrow> lock_inv (set_caller i c t)"
  by (auto simp: lock_inv_def set_caller_def)

lemma lock_inv_consumer:
  "\<lbrakk>lock_inv s; c_holds (pk_consumer t) = c_holds (pk_consumer s);
    pk_owner t = pk_owner s; pk_caller t = pk_caller s\<rbrakk> \<Longrightarrow> lock_inv t"
  by (auto simp: lock_inv_def)

lemma lock_inv_step: "pk_step k s t \<Longrightarrow> lock_inv s \<Longrightarrow> lock_inv t"
proof (induction rule: pk_step.induct)
  case (lock_wait s) then show ?case by (auto simp: lock_inv_def)
next
  case (block s) then show ?case by (auto simp: lock_inv_def)
next
  case (wake s) then show ?case by (auto simp: lock_inv_def)
next
  case (unlock s r) then show ?case by (cases r) (auto simp: lock_inv_def)
next
  case (lock_wakeup s i) then show ?case by (auto simp: lock_inv_def set_caller_def)
next
  case (unlock_wakeup s i)
  then have "pk_owner s = Some (Caller i)" by (metis lock_inv_def p_holds.simps(7))
  with unlock_wakeup show ?case by (auto simp: lock_inv_def set_caller_def)
qed (erule lock_inv_caller lock_inv_consumer; simp; fail)+

lemma block_inv_step: "pk_step k s t \<Longrightarrow> lock_inv s \<Longrightarrow> block_inv s \<Longrightarrow> block_inv t"
proof (induction rule: pk_step.induct)
  case (test_waiting s i)
  then have "pk_owner s = Some (Caller i)" by (metis lock_inv_def p_holds.simps(6))
  with test_waiting show ?case by (auto simp: block_inv_def lock_inv_def set_caller_def)
qed (auto simp: block_inv_def set_caller_def split: option.splits)

lemma wake_inv_caller:
  "\<lbrakk>wake_inv s; pending (pk_caller s i) \<longrightarrow> pending c; pk_consumer t = pk_consumer s;
    pk_waiting t = pk_waiting s; pk_queue t = pk_queue s; pk_caller t = pk_caller s\<rbrakk>
   \<Longrightarrow> wake_inv (set_caller i c t)"
  by (auto simp: wake_inv_def set_caller_def)

lemma wake_inv_step: "pk_step k s t \<Longrightarrow> wake_inv s \<Longrightarrow> wake_inv t"
proof (induction rule: pk_step.induct)
  case (push s i x) then show ?case by (auto simp: wake_inv_def set_caller_def)
next
  case (check_running s i) then show ?case by (auto simp: wake_inv_def set_caller_def)
next
  case (test_waiting s i) then show ?case by (auto simp: wake_inv_def set_caller_def)
next
  case (test_running s i) then show ?case by (auto simp: wake_inv_def set_caller_def)
next
  case (unlock s r) then show ?case by (cases r) (auto simp: wake_inv_def parked_def)
qed (auto intro!: wake_inv_caller, auto simp: wake_inv_def parked_def)

interpretation pk: inductive_invariant "pk_init k" "pk_step k" pk_inv for k
proof unfold_locales
  fix s :: "'a park" assume "pk_init k s" then show "pk_inv s" by (rule pk_inv_init)
next
  fix s t :: "'a park" assume "pk_inv s" "pk_step k s t"
  then show "pk_inv t"
    by (auto simp: pk_inv_def intro: lock_inv_step block_inv_step wake_inv_step)
qed

section \<open>Finishing a wake-up\<close>

text \<open>
  From a sleeping consumer with nobody holding the mutex, a caller that is still to wake it can
  run to the end of \<open>WakeUp\<close>, after which the consumer can get past its wait.
\<close>

definition awake :: "'a park \<Rightarrow> bool" where
  "awake s \<longleftrightarrow> pk_consumer s = C_woken \<and> \<not> pk_waiting s \<and> pk_owner s = Some Consumer"

lemma wake_to_awake:
  assumes "pk_consumer s = C_wake" "\<not> pk_waiting s" "pk_owner s = None"
  shows "\<exists>t. (pk_step k)\<^sup>*\<^sup>* s t \<and> awake t \<and> pk_queue t = pk_queue s"
proof -
  let ?u = "s\<lparr>pk_consumer := C_pred, pk_owner := Some Consumer\<rparr>"
  have "pk_step k s ?u" by (rule wake) (use assms in auto)
  moreover have "pk_step k ?u (?u\<lparr>pk_consumer := C_woken\<rparr>)" by (rule pred_true) (use assms in auto)
  ultimately have "(pk_step k)\<^sup>*\<^sup>* s (?u\<lparr>pk_consumer := C_woken\<rparr>)" by auto
  moreover have "awake (?u\<lparr>pk_consumer := C_woken\<rparr>)" using assms by (simp add: awake_def)
  moreover have "pk_queue (?u\<lparr>pk_consumer := C_woken\<rparr>) = pk_queue s" by simp
  ultimately show ?thesis by blast
qed

lemma test_to_awake:
  assumes "pk_caller s i = P_test" "pk_waiting s" "pk_consumer s = C_asleep"
  shows "\<exists>t. (pk_step k)\<^sup>*\<^sup>* s t \<and> awake t \<and> pk_queue t = pk_queue s"
proof -
  let ?u = "set_caller i P_unlock (s\<lparr>pk_waiting := False,
      pk_consumer := (if pk_consumer s = C_asleep then C_wake else pk_consumer s)\<rparr>)"
  let ?v = "set_caller i P_idle (?u\<lparr>pk_owner := None\<rparr>)"
  have 1: "pk_step k s ?u" by (rule test_waiting) (use assms in auto)
  have 2: "pk_step k ?u ?v" by (rule unlock_wakeup) (simp add: set_caller_def)
  have "\<exists>t. (pk_step k)\<^sup>*\<^sup>* ?v t \<and> awake t \<and> pk_queue t = pk_queue ?v"
    by (rule wake_to_awake) (use assms in \<open>auto simp: set_caller_def\<close>)
  moreover have "pk_queue ?v = pk_queue s" by (simp add: set_caller_def)
  ultimately show ?thesis using 1 2 by (metis converse_rtranclp_into_rtranclp)
qed

lemma lock_to_awake:
  assumes "pk_caller s i = P_lock" "pk_waiting s" "pk_consumer s = C_asleep" "pk_owner s = None"
  shows "\<exists>t. (pk_step k)\<^sup>*\<^sup>* s t \<and> awake t \<and> pk_queue t = pk_queue s"
proof -
  let ?u = "set_caller i P_test (s\<lparr>pk_owner := Some (Caller i)\<rparr>)"
  have 1: "pk_step k s ?u" by (rule lock_wakeup) (use assms in auto)
  have "\<exists>t. (pk_step k)\<^sup>*\<^sup>* ?u t \<and> awake t \<and> pk_queue t = pk_queue ?u"
    by (rule test_to_awake [of _ i]) (use assms in \<open>auto simp: set_caller_def\<close>)
  moreover have "pk_queue ?u = pk_queue s" by (simp add: set_caller_def)
  ultimately show ?thesis using 1 by (metis converse_rtranclp_into_rtranclp)
qed

lemma pending_to_awake:
  assumes "pending (pk_caller s i)" "pk_waiting s" "pk_consumer s = C_asleep" "pk_owner s = None"
    and "lock_inv s"
  shows "\<exists>t. (pk_step k)\<^sup>*\<^sup>* s t \<and> awake t \<and> pk_queue t = pk_queue s"
proof (cases "pk_caller s i")
  case P_check
  let ?u = "set_caller i P_lock s"
  have 1: "pk_step k s ?u" by (rule check_waiting) (use assms P_check in auto)
  have "\<exists>t. (pk_step k)\<^sup>*\<^sup>* ?u t \<and> awake t \<and> pk_queue t = pk_queue ?u"
    by (rule lock_to_awake [of _ i]) (use assms in \<open>auto simp: set_caller_def\<close>)
  moreover have "pk_queue ?u = pk_queue s" by (simp add: set_caller_def)
  ultimately show ?thesis using 1 by (metis converse_rtranclp_into_rtranclp)
next
  case P_test
  then show ?thesis using assms test_to_awake by blast
qed (use assms lock_to_awake in auto)

lemma asleep_to_awake:
  assumes "pk_inv s" "pk_consumer s = C_asleep" "pk_queue s \<noteq> []"
  shows "\<exists>t. (pk_step k)\<^sup>*\<^sup>* s t \<and> awake t \<and> pk_queue t = pk_queue s"
proof -
  have w: "pk_waiting s" using assms by (simp add: pk_inv_def block_inv_def)
  obtain i where i: "pending (pk_caller s i)"
    using assms w by (auto simp: pk_inv_def wake_inv_def parked_def)
  have l: "lock_inv s" using assms by (simp add: pk_inv_def)
  then have noc: "pk_owner s \<noteq> Some Consumer" using assms by (auto simp: lock_inv_def)
  show ?thesis
  proof (cases "pk_owner s")
    case None
    then show ?thesis using pending_to_awake assms i w l by blast
  next
    case (Some ow)
    then obtain j where j: "pk_owner s = Some (Caller j)" using noc by (cases ow) auto
    then have "p_holds (pk_caller s j)" using l by (simp add: lock_inv_def)
    then consider "pk_caller s j = P_test" | "pk_caller s j = P_unlock"
      by (cases "pk_caller s j") auto
    then show ?thesis
    proof cases
      case 1
      then show ?thesis using test_to_awake assms w by blast
    next
      case 2
      let ?u = "set_caller j P_idle (s\<lparr>pk_owner := None\<rparr>)"
      have st: "pk_step k s ?u" by (rule unlock_wakeup) (rule 2)
      have "lock_inv ?u" using st l by (rule lock_inv_step)
      moreover have "pending (pk_caller ?u i)" using i 2 by (auto simp: set_caller_def)
      ultimately have "\<exists>t. (pk_step k)\<^sup>*\<^sup>* ?u t \<and> awake t \<and> pk_queue t = pk_queue ?u"
        by (intro pending_to_awake [of _ i]) (use assms w in \<open>auto simp: set_caller_def\<close>)
      moreover have "pk_queue ?u = pk_queue s" by (simp add: set_caller_def)
      ultimately show ?thesis using st by (metis converse_rtranclp_into_rtranclp)
    qed
  qed
qed

section \<open>Two schedules\<close>

text \<open>A consumer asleep with nothing queued, before and after a \<open>Stop\<close> that came too early.\<close>

definition pk_asleep :: "bool \<Rightarrow> 'a park" where
  "pk_asleep b = \<lparr>pk_stop = b, pk_waiting = True, pk_queue = [], pk_owner = None,
     pk_consumer = C_asleep, pk_caller = (\<lambda>_. P_idle)\<rparr>"

definition pk_at :: "bool \<Rightarrow> bool \<Rightarrow> owner option \<Rightarrow> 'a consumer \<Rightarrow> 'a caller \<Rightarrow> 'a park" where
  "pk_at b w o' c p = \<lparr>pk_stop = b, pk_waiting = w, pk_queue = [], pk_owner = o',
     pk_consumer = c, pk_caller = (\<lambda>_. P_idle)(0 := p)\<rparr>"

lemma pk_at_fields [simp]:
  "pk_stop (pk_at b w o' c p) = b" "pk_waiting (pk_at b w o' c p) = w"
  "pk_queue (pk_at b w o' c p) = []" "pk_owner (pk_at b w o' c p) = o'"
  "pk_consumer (pk_at b w o' c p) = c" "pk_caller (pk_at b w o' c p) 0 = p"
  by (simp_all add: pk_at_def)

lemma pk_at_update:
  "pk_step k s t \<Longrightarrow> s = pk_at b w o' c p \<Longrightarrow> t = pk_at b2 w2 o2 c2 p2 \<Longrightarrow>
     pk_step k (pk_at b w o' c p) (pk_at b2 w2 o2 c2 p2)"
  by simp

text \<open>The consumer's way from its empty queue to sleep, whatever \<open>stop_\<close> is by now.\<close>

lemma pk_at_falls_asleep:
  "(pk_step k)\<^sup>*\<^sup>* (pk_at b False None C_lock P_idle) (pk_asleep b)"
proof -
  have e: "pk_asleep b = pk_at b True None C_asleep P_idle"
    by (auto simp: pk_asleep_def pk_at_def)
  have "pk_step k (pk_at b False None C_lock P_idle) (pk_at b False (Some Consumer) C_set P_idle)"
    by (rule pk_at_update [OF lock_wait]) (auto simp: pk_at_def)
  moreover have "pk_step k \<dots> (pk_at b True (Some Consumer) C_pop2 P_idle)"
    by (rule pk_at_update [OF set_waiting]) (auto simp: pk_at_def)
  moreover have "pk_step k \<dots> (pk_at b True (Some Consumer) C_pred P_idle)"
    by (rule pk_at_update [OF pop2_none]) (auto simp: pk_at_def)
  moreover have "pk_step k \<dots> (pk_at b True (Some Consumer) C_block P_idle)"
    by (rule pk_at_update [OF pred_false]) (auto simp: pk_at_def)
  moreover have "pk_step k \<dots> (pk_at b True None C_asleep P_idle)"
    by (rule pk_at_update [OF block]) (auto simp: pk_at_def)
  ultimately show ?thesis unfolding e by (meson converse_rtranclp_into_rtranclp rtranclp.rtrancl_refl)
qed

lemma pk_at_finds_nothing:
  "\<exists>s. pk_init k s \<and> (pk_step k)\<^sup>*\<^sup>* s (pk_at False False None C_lock P_idle)"
proof -
  have 0: "pk_init k (pk_at False (k = Run_queue) None C_start P_idle)"
    by (auto simp: pk_init_def pk_at_def)
  have "pk_step k (pk_at False (k = Run_queue) None C_start P_idle)
      (pk_at False False None C_loop P_idle)"
    by (rule pk_at_update [OF start]) (auto simp: pk_at_def)
  moreover have "pk_step k \<dots> (pk_at False False None C_pop P_idle)"
    by (rule pk_at_update [OF loop_go]) (auto simp: pk_at_def)
  moreover have "pk_step k \<dots> (pk_at False False None C_lock P_idle)"
    by (rule pk_at_update [OF pop_none]) (auto simp: pk_at_def)
  ultimately show ?thesis
    using 0 by (meson converse_rtranclp_into_rtranclp rtranclp.rtrancl_refl)
qed

lemma pk_at_stop_too_early:
  "(pk_step k)\<^sup>*\<^sup>* (pk_at False False None C_lock P_idle) (pk_at True False None C_lock P_idle)"
proof -
  have "pk_step k (pk_at False False None C_lock P_idle) (pk_at False False None C_lock P_stop)"
    by (rule pk_at_update [OF call_stop [of _ 0]]) (auto simp: pk_at_def set_caller_def)
  moreover have "pk_step k \<dots> (pk_at True False None C_lock P_lock)"
    by (rule pk_at_update [OF stop [of _ 0]]) (auto simp: pk_at_def set_caller_def)
  moreover have "pk_step k \<dots> (pk_at True False (Some (Caller 0)) C_lock P_test)"
    by (rule pk_at_update [OF lock_wakeup [of _ 0]]) (auto simp: pk_at_def set_caller_def)
  moreover have "pk_step k \<dots> (pk_at True False (Some (Caller 0)) C_lock P_unlock)"
    by (rule pk_at_update [OF test_running [of _ 0]]) (auto simp: pk_at_def set_caller_def)
  moreover have "pk_step k \<dots> (pk_at True False None C_lock P_idle)"
    by (rule pk_at_update [OF unlock_wakeup [of _ 0]]) (auto simp: pk_at_def set_caller_def)
  ultimately show ?thesis by (meson converse_rtranclp_into_rtranclp rtranclp.rtrancl_refl)
qed

lemma pk_asleep_reachable: "reach (pk_init k) (pk_step k) (pk_asleep b :: 'a park)"
proof -
  obtain s :: "'a park" where s: "pk_init k s" "(pk_step k)\<^sup>*\<^sup>* s (pk_at False False None C_lock P_idle)"
    using pk_at_finds_nothing by blast
  have "(pk_step k)\<^sup>*\<^sup>* (pk_at False False None C_lock P_idle) (pk_at b False None C_lock P_idle)"
    using pk_at_stop_too_early by (cases b) auto
  then have "(pk_step k)\<^sup>*\<^sup>* s (pk_asleep b)"
    using s(2) pk_at_falls_asleep [of k b] by (meson rtranclp_trans)
  then show ?thesis using s(1) by (rule reach_steps)
qed

text \<open>Steps of the consumer alone, its wait ending spuriously included.\<close>

definition own_step :: "kind \<Rightarrow> 'a park \<Rightarrow> 'a park \<Rightarrow> bool" where
  "own_step k s t \<longleftrightarrow> pk_step k s t \<and> pk_caller t = pk_caller s"

definition stuck :: "'a park \<Rightarrow> bool" where
  "stuck s \<longleftrightarrow> pk_waiting s \<and> pk_queue s = [] \<and> parked (pk_consumer s) \<and>
     (\<forall>i. pk_caller s i = P_idle)"

lemma stuck_step: "pk_step k s t \<Longrightarrow> pk_caller t = pk_caller s \<Longrightarrow> stuck s \<Longrightarrow> stuck t"
  by (induction rule: pk_step.induct)
    (auto simp: stuck_def parked_def set_caller_def fun_eq_iff split: if_splits)

lemma stuck_steps: "(own_step k)\<^sup>*\<^sup>* s t \<Longrightarrow> stuck s \<Longrightarrow> stuck t"
  by (induction rule: rtranclp_induct) (auto simp: own_step_def intro: stuck_step)

section \<open>Properties\<close>

text \<open>
  C7: no wake-up is lost. Whatever the interleaving of the consumer with any number of calls of
  \<open>AddTask\<close>/\<open>IOSubmit\<close>, \<open>Stop\<close> and \<open>Steal\<close>, a consumer that sleeps although its queue is
  not empty has its waiting flag set and some caller is still on the way to wake it. In other
  words, publishing the flag before popping again closes the gap between an empty pop and the
  sleep.
\<close>

theorem park_no_lost_wakeup:
  assumes "reach (pk_init k) (pk_step k) s"
    and "pk_consumer s = C_asleep" "pk_queue s \<noteq> []"
  shows "pk_waiting s \<and> (\<exists>i. pending (pk_caller s i))"
  using pk.inv_reach [OF assms(1)] assms(2,3)
  by (auto simp: pk_inv_def block_inv_def wake_inv_def parked_def)

definition pk_nap :: "nat park" where
  "pk_nap = set_caller 0 P_check (pk_asleep False\<lparr>pk_queue := [7]\<rparr>)"

lemma pk_nap_reachable: "reach (pk_init Run_queue) (pk_step Run_queue) pk_nap"
proof -
  have "pk_step Run_queue (pk_asleep False) (set_caller 0 (P_push 7) (pk_asleep False))"
    by (rule call_add) (simp add: pk_asleep_def)
  moreover have "pk_step Run_queue (set_caller 0 (P_push 7) (pk_asleep False)) pk_nap"
    using push [of "set_caller 0 (P_push 7) (pk_asleep False)" 0 7 Run_queue]
    by (simp add: pk_nap_def pk_asleep_def set_caller_def)
  ultimately show ?thesis using pk_asleep_reachable reach_step by metis
qed

theorem park_no_lost_wakeup_witness:
  "pk_waiting pk_nap \<and> (\<exists>i. pending (pk_caller pk_nap i))"
  by (rule park_no_lost_wakeup [OF pk_nap_reachable])
    (simp_all add: pk_nap_def pk_asleep_def set_caller_def)

text \<open>
  A wake-up can always be finished. From every reachable state whose consumer sleeps on a
  non-empty queue, some run of the callers and the consumer takes the consumer past its wait,
  with the flag cleared and the queue untouched: no lock is held for good on that path.
\<close>

theorem park_wakeup_completes:
  assumes "reach (pk_init k) (pk_step k) s"
    and "pk_consumer s = C_asleep" "pk_queue s \<noteq> []"
  shows "\<exists>t. (pk_step k)\<^sup>*\<^sup>* s t \<and> pk_consumer t = C_woken \<and> \<not> pk_waiting t \<and>
           pk_queue t = pk_queue s"
  using asleep_to_awake [OF pk.inv_reach [OF assms(1)] assms(2,3)] by (auto simp: awake_def)

theorem park_wakeup_completes_witness:
  "\<exists>t. (pk_step Run_queue)\<^sup>*\<^sup>* pk_nap t \<and> pk_consumer t = C_woken \<and> \<not> pk_waiting t \<and>
     pk_queue t = [7]"
  using park_wakeup_completes [OF pk_nap_reachable]
  by (simp add: pk_nap_def pk_asleep_def set_caller_def)

text \<open>
  C36: a stop can be lost. \<open>Stop\<close> sets \<open>stop_\<close> and wakes the consumer once; a consumer that
  has read \<open>stop_\<close> as false and found its queue empty, but has not yet taken the mutex, misses
  that wake-up and sleeps. A state with \<open>stop_\<close> set and every call returned is reachable from
  which no run of the consumer, spurious wake-ups included, ever leaves its loop: the processer
  thread (and likewise the I/O submit thread) hangs.
\<close>

theorem stop_can_be_lost:
  "\<exists>s :: 'a park. reach (pk_init k) (pk_step k) s \<and> pk_stop s \<and>
     (\<forall>i. pk_caller s i = P_idle) \<and>
     (\<nexists>t. (own_step k)\<^sup>*\<^sup>* s t \<and> (pk_consumer t = C_exit \<or> pk_consumer t = C_loop))"
proof (intro exI conjI)
  show "reach (pk_init k) (pk_step k) (pk_asleep True :: 'a park)"
    by (rule pk_asleep_reachable)
  have "stuck (pk_asleep True :: 'a park)"
    by (simp add: stuck_def pk_asleep_def parked_def)
  then have "stuck t" if "(own_step k)\<^sup>*\<^sup>* (pk_asleep True) t" for t :: "'a park"
    using stuck_steps that by blast
  then show "\<nexists>t. (own_step k)\<^sup>*\<^sup>* (pk_asleep True :: 'a park) t \<and>
      (pk_consumer t = C_exit \<or> pk_consumer t = C_loop)"
    by (fastforce simp: stuck_def parked_def)
qed (simp_all add: pk_asleep_def)

end
