(* ===== verification/Stack_Mem.thy ===== *)
theory Stack_Mem
  imports Prelude
begin

unbundle bit_operations_syntax

text \<open>
  Coroutine stacks and contexts: \<open>context/stack.cpp\<close>, \<open>context/stack.hpp\<close> and
  \<open>context/context.cpp\<close>. Sizes and addresses are 64-bit words, \<open>getpagesize\<close> and the
  other system calls are arguments: \<open>pg\<close> is the page size (an \<open>int\<close>), \<open>mmap\<close> maps
  a length to an address (\<open>MAP_FAILED\<close> is -1), \<open>mprotect\<close> maps an address and a
  length to its return code, and \<open>mincore\<close> answers with the residency bytes it writes, or
  with nothing when it fails.
\<close>

section \<open>Stack\<close>

record stack =
  alloc_ptr :: u64
  alloc_size :: u64
  stack_ptr :: u64
  stack_size :: u64

definition Stack_new :: stack where
  "Stack_new = \<lparr>alloc_ptr = 0, alloc_size = 0, stack_ptr = 0, stack_size = 0\<rparr>"

definition MAP_FAILED :: u64 where
  "MAP_FAILED = - 1"

definition Stack_init ::
  "(u64 \<Rightarrow> u64) \<Rightarrow> (u64 \<Rightarrow> u64 \<Rightarrow> i32) \<Rightarrow> i32 \<Rightarrow> u64 \<Rightarrow> stack \<Rightarrow> bool \<times> stack" where
  "Stack_init mmap mprotect pg sz s =
     (let protecte_page_num = 1 :: i32;
          ssz = (sz + scast pg - 1) AND scast (NOT (pg - 1));
          asz = ssz + scast (pg * protecte_page_num);
          p = mmap asz;
          s1 = s\<lparr>stack_size := ssz, alloc_size := asz, alloc_ptr := p\<rparr>
      in if p = MAP_FAILED then (False, s1)
         else let s2 = s1\<lparr>stack_ptr := p + scast (pg * protecte_page_num)\<rparr>
              in if mprotect p (scast (pg * protecte_page_num)) = - 1 then (False, s2)
                 else (True, s2))"

text \<open>The destructor: the arguments of the munmap call it makes, if it makes one.\<close>

definition Stack_destroy :: "stack \<Rightarrow> (u64 \<times> u64) option" where
  "Stack_destroy s = (if alloc_ptr s \<noteq> 0 then Some (alloc_ptr s, alloc_size s) else None)"

definition is_page_in_memory :: "8 word \<Rightarrow> bool" where
  "is_page_in_memory b \<longleftrightarrow> b AND 1 \<noteq> 0"

text \<open>
  \<open>vec\<close> has \<open>num + 1\<close> elements, so the index \<open>num + 1\<close> of the last test is one past
  its end; \<open>&&\<close> reads it only when the first page is in memory.
\<close>

definition vec_read :: "8 word list \<Rightarrow> nat \<Rightarrow> fault + 8 word" where
  "vec_read vec i = (if i < length vec then Inr (vec ! i) else Inl Out_of_bounds)"

definition check_stack_used ::
  "(u64 \<Rightarrow> u64 \<Rightarrow> 8 word list option) \<Rightarrow> i32 \<Rightarrow> u64 \<Rightarrow> stack \<Rightarrow> fault + bool" where
  "check_stack_used mincore pg num s =
     (let sz = scast pg * (num + 1);
          start = stack_ptr s + stack_size s - sz
      in case mincore start sz of
           None \<Rightarrow> Inr False
         | Some written \<Rightarrow>
             let vec = take (unat (num + 1)) written
             in bindE (vec_read vec 0) (\<lambda>low.
                  if is_page_in_memory low
                  then bindE (vec_read vec (unat (num + 1))) (\<lambda>high.
                         Inr (\<not> is_page_in_memory high))
                  else Inr False))"

section \<open>Context\<close>

record 'f ucontext =
  ss_sp :: u64
  ss_size :: u64
  entry :: "'f option"

record 'f coro_context =
  ctx :: "'f ucontext"
  stk :: stack

text \<open>
  The constructor. Its caller passes no \<open>next_ctx\<close> anywhere in the program, so
  \<open>uc_link\<close> stays what getcontext left there and is not kept in the model.
\<close>

definition Context_new ::
  "(u64 \<Rightarrow> u64) \<Rightarrow> (u64 \<Rightarrow> u64 \<Rightarrow> i32) \<Rightarrow> i32 \<Rightarrow> 'f \<Rightarrow> i32 \<Rightarrow> fault + 'f coro_context" where
  "Context_new mmap mprotect pg func ssize =
     bindE (check Assert_fail (0 <s ssize)) (\<lambda>_.
       case Stack_init mmap mprotect pg (scast ssize) Stack_new of
         (False, _) \<Rightarrow> Inl (Thrown ''stack init failed'')
       | (True, s) \<Rightarrow>
           Inr \<lparr>ctx = \<lparr>ss_sp = stack_ptr s, ss_size = stack_size s, entry = Some func\<rparr>, stk = s\<rparr>)"

text \<open>\<open>Context::Check_stack_used\<close> drops the answer and has no return statement.\<close>

definition Context_Check_stack_used ::
  "(u64 \<Rightarrow> u64 \<Rightarrow> 8 word list option) \<Rightarrow> i32 \<Rightarrow> u64 \<Rightarrow> 'f coro_context \<Rightarrow> fault + bool" where
  "Context_Check_stack_used mincore pg num c =
     bindE (check_stack_used mincore pg num (stk c)) (\<lambda>_. Inl Missing_return)"

definition Context_Reset :: "'f \<Rightarrow> 'f coro_context \<Rightarrow> 'f coro_context" where
  "Context_Reset func c = c\<lparr>ctx := (ctx c)\<lparr>entry := Some func\<rparr>\<rparr>"

section \<open>Rounding a size up to whole pages\<close>

lemma scast_not_mask:
  assumes "k < 31"
  shows "scast (NOT (2 ^ k - 1 :: i32)) = (NOT (mask k) :: u64)"
proof -
  have "scast (NOT (mask k :: i32)) = (NOT (mask k) :: u64)"
    using assms by (intro bit_word_eqI) (auto simp: bit_simps min_def)
  then show ?thesis by (simp add: mask_eq_decr_exp)
qed

lemma and_not_mask_shift: "(w :: u64) AND NOT (mask k) = push_bit k (drop_bit k w)"
  by (rule bit_word_eqI) (auto simp: bit_simps)

lemma unat_and_not_mask: "unat ((w :: u64) AND NOT (mask k)) = unat w div 2 ^ k * 2 ^ k"
proof -
  have "unat w div 2 ^ k * 2 ^ k \<le> unat w" by (rule div_times_less_eq_dividend)
  also have "\<dots> < 2 ^ 64" using unsigned_less [of w, where 'a = nat] by simp
  finally have lt: "unat w div 2 ^ k * 2 ^ k < 2 ^ 64" .
  have "unat (push_bit k (drop_bit k w)) = take_bit 64 (unat w div 2 ^ k * 2 ^ k)"
    unfolding unsigned_push_bit_eq unsigned_drop_bit_eq
    using unsigned_less [of w, where 'a = nat]
    by (simp add: push_bit_nat_def drop_bit_nat_def take_bit_nat_eq_self)
  with lt show ?thesis
    by (simp add: and_not_mask_shift take_bit_nat_eq_self)
qed

lemma scast_pow2: "k < 31 \<Longrightarrow> scast (2 ^ k :: i32) = (2 ^ k :: u64)"
proof -
  assume "k < 31"
  then have "scast (push_bit k 1 :: i32) = (push_bit k 1 :: u64)"
    by (intro bit_word_eqI) (auto simp: bit_simps min_def)
  then show ?thesis by (simp add: push_bit_eq_mult)
qed

lemma unat_pow2: "k < 31 \<Longrightarrow> unat (2 ^ k :: u64) = 2 ^ k"
proof -
  assume "k < 31"
  then have "(2 :: nat) ^ k < 2 ^ 64" by (intro power_strict_increasing) auto
  then show ?thesis
    using unat_of_nat_u64 [of "2 ^ k"] by simp
qed

lemma unat_plus_u64:
  fixes a b :: u64
  assumes "unat a + unat b < 2 ^ 64"
  shows "unat (a + b) = unat a + unat b"
  using assms by (simp add: unat_word_ariths)

lemma round_up_page:
  fixes sz :: u64
  assumes k: "k < 31" and sz: "unat sz + 2 ^ k \<le> 2 ^ 64"
  shows "unat ((sz + scast (2 ^ k :: i32) - 1) AND scast (NOT (2 ^ k - 1 :: i32)))
    = (unat sz + 2 ^ k - 1) div 2 ^ k * 2 ^ k"
proof -
  have "unat (2 ^ k - 1 :: u64) = 2 ^ k - 1"
    using unat_sub_if' [of "2 ^ k :: u64" 1] unat_pow2 [OF k] by simp
  then have "unat (sz + (2 ^ k - 1)) = unat sz + (2 ^ k - 1)"
    using sz unat_plus_u64 [of sz "2 ^ k - 1"] by (simp add: less_le_trans less_imp_diff_less)
  then show ?thesis
    using k by (simp add: scast_pow2 scast_not_mask unat_and_not_mask add_diff_eq)
qed

lemma round_up_bounds:
  fixes n p :: nat
  assumes "0 < p"
  shows "p dvd (n + p - 1) div p * p" "n \<le> (n + p - 1) div p * p" "(n + p - 1) div p * p < n + p"
proof -
  show "p dvd (n + p - 1) div p * p" by simp
  have "(n + p - 1) div p * p + (n + p - 1) mod p = n + p - 1" by (rule div_mult_mod_eq)
  moreover have "(n + p - 1) mod p < p" using assms by simp
  ultimately show "n \<le> (n + p - 1) div p * p" "(n + p - 1) div p * p < n + p"
    using assms by linarith+
qed


lemma Stack_init_sizes:
  assumes "k < 31" "unat sz + 2 ^ (k + 1) \<le> 2 ^ 64" "Stack_init mmap mprotect (2 ^ k) sz s = (r, s')"
  shows "unat (stack_size s') = (unat sz + 2 ^ k - 1) div 2 ^ k * 2 ^ k"
    and "alloc_size s' = stack_size s' + 2 ^ k"
    and "alloc_ptr s' = mmap (alloc_size s')"
    and "r \<Longrightarrow> stack_ptr s' = alloc_ptr s' + 2 ^ k"
  using assms round_up_page [of k sz]
  by (auto simp: Stack_init_def Let_def scast_pow2 split: if_splits)

lemma stack_layout:
  assumes k: "k < 31" and sz: "unat sz + 2 ^ (k + 1) \<le> 2 ^ 64"
    and ok: "Stack_init mmap mprotect (2 ^ k) sz s = (True, s')"
  shows "2 ^ k dvd unat (stack_size s') \<and>
    unat sz \<le> unat (stack_size s') \<and> unat (stack_size s') < unat sz + 2 ^ k \<and>
    unat (alloc_size s') = unat (stack_size s') + 2 ^ k \<and>
    stack_ptr s' = alloc_ptr s' + 2 ^ k \<and>
    stack_ptr s' + stack_size s' = alloc_ptr s' + alloc_size s'"
proof -
  note init = Stack_init_sizes [OF k sz ok]
  have up: "2 ^ k dvd unat (stack_size s')" "unat sz \<le> unat (stack_size s')"
    "unat (stack_size s') < unat sz + 2 ^ k"
    unfolding init(1) using round_up_bounds [of "2 ^ k" "unat sz"] by simp_all
  then have "unat (alloc_size s') = unat (stack_size s') + 2 ^ k"
    unfolding init(2) using sz unat_pow2 [OF k] by (simp add: unat_plus_u64)
  with up init show ?thesis by (simp add: algebra_simps)
qed

lemma unat_scast_pos:
  assumes "0 <s (n :: i32)"
  shows "unat (scast n :: u64) = nat (sint n)" "nat (sint n) < 2 ^ 31"
proof -
  have n: "0 < sint n" "sint n < 2 ^ 31"
    using assms sint_lt [of n] by (auto simp: word_sless_alt)
  have "uint (scast n :: u64) = sint n mod 2 ^ LENGTH(64)"
    unfolding scast_eq by (rule uint_word_of_int)
  also have "\<dots> = sint n"
    by (rule mod_pos_pos_trivial) (use n in auto)
  finally have "uint (scast n :: u64) = sint n" .
  then show "unat (scast n :: u64) = nat (sint n)" by (simp only: unat_eq_nat_uint)
  show "nat (sint n) < 2 ^ 31" using n by (simp add: nat_less_iff)
qed

section \<open>Properties\<close>

text \<open>\<open>Stack::init\<close> with a page size that is a power of two (at most 2^30) and no
  overflow: the stack size is the least multiple of the page size that is not below the
  requested size, one guard page is allocated on top of it, the usable stack starts right
  behind the guard page and ends where the allocation ends.\<close>

theorem stack_init_layout:
  assumes k: "k < 31" and sz: "unat sz + 2 ^ (k + 1) \<le> 2 ^ 64"
    and ok: "Stack_init mmap mprotect (2 ^ k) sz s = (True, s')"
  shows "2 ^ k dvd unat (stack_size s') \<and>
    unat sz \<le> unat (stack_size s') \<and> unat (stack_size s') < unat sz + 2 ^ k \<and>
    unat (alloc_size s') = unat (stack_size s') + 2 ^ k \<and>
    stack_ptr s' = alloc_ptr s' + 2 ^ k \<and>
    stack_ptr s' + stack_size s' = alloc_ptr s' + alloc_size s'"
  by (rule stack_layout [OF assms])

theorem stack_init_layout_witness:
  "\<exists>s'. Stack_init (\<lambda>_. 0x10000) (\<lambda>_ _. 0) (2 ^ 12) 5000 Stack_new = (True, s') \<and>
    2 ^ 12 dvd unat (stack_size s')"
proof -
  obtain r s' where s': "Stack_init (\<lambda>_. 0x10000) (\<lambda>_ _. 0) (2 ^ 12) 5000 Stack_new = (r, s')"
    by fastforce
  then have r by (auto simp: Stack_init_def Let_def MAP_FAILED_def)
  with s' have "Stack_init (\<lambda>_. 0x10000) (\<lambda>_ _. 0) (2 ^ 12) 5000 Stack_new = (True, s')" by simp
  from stack_init_layout [OF _ _ this] this show ?thesis by auto
qed

text \<open>A size within one page of 2^64 wraps around: \<open>Stack::init\<close> then sets up a stack
  of size 0 whose whole allocation is the guard page, and still reports success.\<close>

theorem stack_init_overflow:
  "Stack_init (\<lambda>_. 0x10000) (\<lambda>_ _. 0) 4096 (2 ^ 64 - 1) Stack_new =
    (True, \<lparr>alloc_ptr = 0x10000, alloc_size = 4096, stack_ptr = 0x11000, stack_size = 0\<rparr>)"
  by (simp add: Stack_init_def Let_def MAP_FAILED_def Stack_new_def)

text \<open>When mmap fails, \<open>init\<close> has already stored MAP_FAILED in \<open>alloc_ptr\<close>, so the
  destructor of the failed stack calls munmap on MAP_FAILED.\<close>

theorem stack_init_failure_munmaps:
  "\<not> fst (Stack_init (\<lambda>_. MAP_FAILED) mprotect pg sz s) \<and>
   Stack_destroy (snd (Stack_init (\<lambda>_. MAP_FAILED) mprotect pg sz s)) =
     Some (MAP_FAILED, alloc_size (snd (Stack_init (\<lambda>_. MAP_FAILED) mprotect pg sz s)))"
  by (simp add: Stack_init_def Let_def Stack_destroy_def MAP_FAILED_def)

text \<open>\<open>check_stack_used\<close> never answers that the stack is small, and the member
  function of \<open>Context\<close> around it never returns at all: it either reads past the end of
  \<open>vec\<close> or falls off its own end without a return statement.\<close>

theorem check_stack_used_never_true:
  "check_stack_used mincore pg num s \<noteq> Inr True \<and>
   Context_Check_stack_used mincore pg num c \<in> {Inl Out_of_bounds, Inl Missing_return}"
  by (auto simp: check_stack_used_def Context_Check_stack_used_def vec_read_def bindE_def Let_def
      split: option.splits sum.splits if_splits)

text \<open>The read past the end happens exactly when it matters: with the lowest of the
  \<open>num + 1\<close> pages in memory the check faults, with that page not in memory it answers
  false.\<close>

theorem check_stack_used_faults:
  assumes "mincore (stack_ptr s + stack_size s - scast pg * (num + 1)) (scast pg * (num + 1))
      = Some vec"
    and "length vec = unat (num + 1)" and "num \<noteq> - 1"
  shows "check_stack_used mincore pg num s =
    (if is_page_in_memory (vec ! 0) then Inl Out_of_bounds else Inr False)"
proof -
  have "num + 1 \<noteq> 0" using assms(3) by (metis add.right_inverse add_right_imp_eq add.commute)
  then have "0 < unat (num + 1)" by (simp add: unat_gt_0)
  with assms(2) have "vec \<noteq> []" by auto
  with assms show ?thesis by (simp add: check_stack_used_def vec_read_def Let_def)
qed

theorem check_stack_used_faults_witness:
  "check_stack_used (\<lambda>_ _. Some [1, 1, 1]) 4096 2
     \<lparr>alloc_ptr = 0x10000, alloc_size = 0x5000, stack_ptr = 0x11000, stack_size = 0x4000\<rparr>
   = Inl Out_of_bounds"
  by (subst check_stack_used_faults [where vec = "[1, 1, 1]"]) (simp_all add: is_page_in_memory_def)

text \<open>A context that the constructor delivers runs on a stack at least as large as asked
  for, whole pages long, that starts one page above the mapping, so that an overflow hits the
  guard page; its entry point is the function given. A size that is not positive and a mapping
  that fails give an assertion failure and an exception instead.\<close>

theorem context_stack_fits:
  assumes k: "k < 31" and n: "0 <s n" and c: "Context_new mmap mprotect (2 ^ k) func n = Inr c"
  shows "nat (sint n) \<le> unat (ss_size (ctx c)) \<and> 2 ^ k dvd unat (ss_size (ctx c)) \<and>
    ss_sp (ctx c) = alloc_ptr (stk c) + 2 ^ k \<and> entry (ctx c) = Some func"
proof -
  obtain s where s: "Stack_init mmap mprotect (2 ^ k) (scast n) Stack_new = (True, s)"
    and c': "c = \<lparr>ctx = \<lparr>ss_sp = stack_ptr s, ss_size = stack_size s, entry = Some func\<rparr>, stk = s\<rparr>"
    using n c by (auto simp: Context_new_def split: prod.splits bool.splits)
  have "(2 :: nat) ^ (k + 1) \<le> 2 ^ 31" using k by (intro power_increasing) auto
  then have "unat (scast n :: u64) + 2 ^ (k + 1) \<le> 2 ^ 64"
    using unat_scast_pos [OF n] by simp
  from stack_layout [OF k this s] unat_scast_pos [OF n] c' show ?thesis by simp
qed

theorem context_stack_fits_witness:
  "\<exists>c. Context_new (\<lambda>_. 0x10000) (\<lambda>_ _. 0) (2 ^ 12) (7 :: nat) 5000 = Inr c \<and>
    5000 \<le> unat (ss_size (ctx c))"
proof -
  obtain c where c: "Context_new (\<lambda>_. 0x10000) (\<lambda>_ _. 0) (2 ^ 12) (7 :: nat) 5000 = Inr c"
    by (simp add: Context_new_def Stack_init_def Let_def MAP_FAILED_def word_sless_alt)
  from context_stack_fits [OF _ _ c] c show ?thesis by (auto simp: word_sless_alt)
qed

end
