(* ===== verification/Task_Pool.thy ===== *)
theory Task_Pool
  imports LFQueue_Solo Stack_Mem
begin

text \<open>
  Coroutine objects and their pool: \<open>processer/task.hpp\<close>, \<open>processer/task.cpp\<close> and
  \<open>processer/task_pool.hpp\<close>. A task is named by its address (\<open>tptr\<close>); the record
  \<open>pool\<close> holds the pool's own fields, the heap of task objects (\<open>store\<close>) and the static
  id counter of \<open>Task\<close>. The idle queue is the lock-free queue of \<open>LFQueue\<close>.
  \<open>std::make_unique<Task>(tk)\<close> on a \<open>Task*\<close> is read as taking ownership of \<open>tk\<close>.
\<close>

section \<open>Tasks\<close>

datatype task_status = Runnable | Block | Done

datatype task_entry = TaskFunc

type_synonym tptr = nat

record 'f task =
  tctx :: "task_entry coro_context"
  realFunc :: "'f option"
  status :: task_status
  task_id :: u64

text \<open>The system calls a task's stack needs.\<close>

record os =
  os_mmap :: "u64 \<Rightarrow> u64"
  os_mprotect :: "u64 \<Rightarrow> u64 \<Rightarrow> i32"
  os_mincore :: "u64 \<Rightarrow> u64 \<Rightarrow> 8 word list option"
  os_pagesize :: i32

record 'f pool =
  stack_size_of :: i32
  maxIdleTask :: u64
  pool_count :: u64
  taskQueue :: "tptr lfq"
  low_page :: u64
  store :: "tptr \<rightharpoonup> 'f task"
  taskID :: u64

definition Task_new :: "os \<Rightarrow> task_entry \<Rightarrow> i32 \<Rightarrow> u64 \<Rightarrow> fault + ('f task \<times> u64)" where
  "Task_new env func ssize next_id =
     bindE (Context_new (os_mmap env) (os_mprotect env) (os_pagesize env) func ssize) (\<lambda>c.
       Inr (\<lparr>tctx = c, realFunc = None, status = Runnable, task_id = next_id\<rparr>, next_id + 1))"

definition get_task :: "tptr \<Rightarrow> 'f pool \<Rightarrow> fault + 'f task" where
  "get_task t p = (case store p t of None \<Rightarrow> Inl Dangling | Some tk \<Rightarrow> Inr tk)"

definition put_task :: "tptr \<Rightarrow> 'f task \<Rightarrow> 'f pool \<Rightarrow> 'f pool" where
  "put_task t tk p = p\<lparr>store := (store p)(t \<mapsto> tk)\<rparr>"

definition Task_Check_stack_used :: "os \<Rightarrow> tptr \<Rightarrow> u64 \<Rightarrow> 'f pool \<Rightarrow> fault + bool" where
  "Task_Check_stack_used env t num p =
     bindE (get_task t p) (\<lambda>tk.
       Context_Check_stack_used (os_mincore env) (os_pagesize env) num (tctx tk))"

section \<open>The pool\<close>

text \<open>\<open>count_\<close> has no initialiser; \<open>junk\<close> is what it starts with.\<close>

definition TaskPool_new :: "tptr choice \<Rightarrow> u64 \<Rightarrow> i32 \<Rightarrow> u64 \<Rightarrow> fault + 'f pool" where
  "TaskPool_new ch junk ssize max_idle =
     bindE (lfq_new ch) (\<lambda>q.
       Inr \<lparr>stack_size_of = ssize, maxIdleTask = max_idle, pool_count = junk, taskQueue = q,
            low_page = 2, store = Map.empty, taskID = 0\<rparr>)"

text \<open>\<open>new Task(func, stack_size_)\<close>, at the address \<open>t\<close> the allocator answers with.\<close>

definition Create :: "os \<Rightarrow> tptr \<Rightarrow> task_entry \<Rightarrow> 'f pool \<Rightarrow> fault + (tptr \<times> 'f pool)" where
  "Create env t func p =
     bindE (check Bad_alloc (store p t = None)) (\<lambda>_.
     bindE (Task_new env func (stack_size_of p) (taskID p)) (\<lambda>(tk, next_id).
       Inr (t, (put_task t tk p)\<lparr>taskID := next_id\<rparr>)))"

definition Delete_task :: "tptr \<Rightarrow> 'f pool \<Rightarrow> fault + 'f pool" where
  "Delete_task t p = bindE (get_task t p) (\<lambda>_. Inr (p\<lparr>store := (store p)(t := None)\<rparr>))"

definition Put :: "tptr \<Rightarrow> 'f pool \<Rightarrow> fault + 'f pool" where
  "Put t p =
     (let c = pool_count p + 1; p1 = p\<lparr>pool_count := c\<rparr>
      in if maxIdleTask p < c
         then Delete_task t (p1\<lparr>pool_count := pool_count p1 - 1\<rparr>)
         else bindE (lfq_push t (taskQueue p1)) (\<lambda>q. Inr (p1\<lparr>taskQueue := q\<rparr>)))"

text \<open>
  \<open>Release\<close>: what it does with the answer of the stack check, and the function as it is,
  with the check it calls.
\<close>

definition Release_checked :: "bool \<Rightarrow> tptr \<Rightarrow> 'f pool \<Rightarrow> fault + 'f pool" where
  "Release_checked small t p = (if \<not> small then Delete_task t p else Put t p)"

definition Release :: "os \<Rightarrow> tptr \<Rightarrow> 'f pool \<Rightarrow> fault + 'f pool" where
  "Release env t p =
     bindE (Task_Check_stack_used env t (low_page p) p) (\<lambda>small. Release_checked small t p)"

text \<open>The common part of the two \<open>Get\<close>: an idle task, or a new one at address \<open>fresh\<close>.\<close>

definition pop_or_create :: "os \<Rightarrow> tptr \<Rightarrow> task_entry \<Rightarrow> 'f pool \<Rightarrow> fault + (tptr \<times> 'f pool)" where
  "pop_or_create env fresh taskFunc p =
     bindE (lfq_pop (taskQueue p)) (\<lambda>(r, q).
       let p1 = p\<lparr>taskQueue := q\<rparr>
       in case r of
            None \<Rightarrow> Create env fresh taskFunc p1
          | Some t \<Rightarrow> Inr (t, p1))"

text \<open>
  \<open>void Get(Task* out, ...)\<close>: \<open>out\<close> is a by-value parameter, so the address the
  function assigns to it dies with the call and the caller's variable stays as it was
  (\<open>out\<close> is passed in and handed back).
\<close>

definition Get_out :: "os \<Rightarrow> tptr \<Rightarrow> 'o \<Rightarrow> 'f \<Rightarrow> task_entry \<Rightarrow> 'f pool \<Rightarrow> fault + ('o \<times> 'f pool)" where
  "Get_out env fresh out f taskFunc p =
     bindE (pop_or_create env fresh taskFunc p) (\<lambda>(t, p1).
     bindE (get_task t p1) (\<lambda>tk.
       Inr (out, put_task t (tk\<lparr>realFunc := Some f\<rparr>) p1)))"

text \<open>The overload that returns a shared pointer (whose deleter is \<open>Release\<close>).\<close>

definition Get_shared :: "os \<Rightarrow> tptr \<Rightarrow> 'f \<Rightarrow> task_entry \<Rightarrow> 'f pool \<Rightarrow> fault + (tptr \<times> 'f pool)" where
  "Get_shared env fresh f taskFunc p =
     bindE (pop_or_create env fresh taskFunc p) (\<lambda>(t, p1).
     bindE (get_task t p1) (\<lambda>tk.
       Inr (t, put_task t (tk\<lparr>realFunc := Some f, status := Runnable\<rparr>) p1)))"

text \<open>\<open>Out\<close> makes the shared pointer, a task and its use count; the last owner that lets go runs the
  deleter, which is \<open>Release\<close>. A null pointer stays null.\<close>

definition Out :: "tptr option \<Rightarrow> (tptr \<times> nat) option" where
  "Out tk = (case tk of None \<Rightarrow> None | Some t \<Rightarrow> Some (t, 1))"

definition drop_ref ::
  "(tptr \<Rightarrow> 'f pool \<Rightarrow> fault + 'f pool) \<Rightarrow> tptr \<times> nat \<Rightarrow> 'f pool \<Rightarrow> fault + ((tptr \<times> nat) option \<times> 'f pool)" where
  "drop_ref release = (\<lambda>(t, n) p.
     if 1 < n then Inr (Some (t, n - 1), p) else bindE (release t p) (\<lambda>p'. Inr (None, p')))"

section \<open>Invariant\<close>

text \<open>Idle tasks are distinct live objects; the idle queue is well formed and has room.\<close>

definition pool_inv :: "'f pool \<Rightarrow> bool" where
  "pool_inv p \<longleftrightarrow>
     lfq_invar (taskQueue p) \<and> distinct (lfq_contents (taskQueue p)) \<and>
     set (lfq_contents (taskQueue p)) \<subseteq> dom (store p)"

definition idle :: "'f pool \<Rightarrow> tptr list" where
  "idle p = lfq_contents (taskQueue p)"

lemma get_task_Inr [simp]: "get_task t p = Inr tk \<longleftrightarrow> store p t = Some tk"
  by (auto simp: get_task_def split: option.splits)

lemma put_task_fields [simp]:
  "taskQueue (put_task t tk p) = taskQueue p" "pool_count (put_task t tk p) = pool_count p"
  "maxIdleTask (put_task t tk p) = maxIdleTask p" "store (put_task t tk p) = (store p)(t \<mapsto> tk)"
  by (simp_all add: put_task_def)

lemma Delete_task_inv:
  assumes "pool_inv p" "t \<notin> set (idle p)" "store p t \<noteq> None"
  shows "\<exists>p'. Delete_task t p = Inr p' \<and> pool_inv p' \<and> idle p' = idle p \<and>
    store p' = (store p)(t := None)"
  using assms by (auto simp: Delete_task_def get_task_def pool_inv_def idle_def)

lemma Put_inv:
  assumes "pool_inv p" "t \<notin> set (idle p)" "store p t \<noteq> None" "length (idle p) < lfq_room"
  shows "\<exists>p'. Put t p = Inr p' \<and> pool_inv p' \<and>
    (if maxIdleTask p < pool_count p + 1
     then idle p' = idle p \<and> store p' = (store p)(t := None) \<and> pool_count p' = pool_count p
     else idle p' = idle p @ [t] \<and> store p' = store p \<and> pool_count p' = pool_count p + 1)"
proof (cases "maxIdleTask p < pool_count p + 1")
  case True
  have eq: "Put t p = Delete_task t (p\<lparr>pool_count := pool_count p\<rparr>)"
    using True by (simp add: Put_def Let_def)
  from assms(3) obtain tk where "store p t = Some tk" by blast
  with True assms(1,2) show ?thesis
    by (auto simp: eq Delete_task_def get_task_def pool_inv_def idle_def)
next
  case False
  have "lfq_invar (taskQueue p)" "length (lfq_contents (taskQueue p)) < lfq_room"
    using assms by (auto simp: pool_inv_def idle_def)
  from lfq.push_law [OF this, of t]
  obtain q where "lfq_push t (taskQueue p) = Inr q" "lfq_invar q" "lfq_contents q = idle p @ [t]"
    by (auto simp: idle_def)
  with assms False show ?thesis by (auto simp: Put_def Let_def idle_def pool_inv_def)
qed


lemma pop_or_create_idle:
  assumes "pool_inv p" "idle p = u # us"
  shows "\<exists>q. pop_or_create env fresh tf p = Inr (u, p\<lparr>taskQueue := q\<rparr>) \<and>
    pool_inv (p\<lparr>taskQueue := q\<rparr>) \<and> idle (p\<lparr>taskQueue := q\<rparr>) = us \<and> store p u \<noteq> None \<and> u \<notin> set us"
proof -
  have inv: "lfq_invar (taskQueue p)" and c: "lfq_contents (taskQueue p) = u # us"
    using assms by (auto simp: pool_inv_def idle_def)
  from lfq.pop_Cons_law [OF inv c] obtain q where
    "lfq_pop (taskQueue p) = Inr (Some u, q)" "lfq_invar q" "lfq_contents q = us" by auto
  with assms show ?thesis by (auto simp: pop_or_create_def Let_def pool_inv_def idle_def)
qed

lemma pool_inv_put_task: "pool_inv p \<Longrightarrow> pool_inv (put_task t tk p)"
  by (auto simp: pool_inv_def)

lemma idle_put_task [simp]: "idle (put_task t tk p) = idle p"
  by (simp add: idle_def)

lemma Get_shared_idle:
  assumes "pool_inv p" "idle p = u # us"
  shows "\<exists>tk p'. store p u = Some tk \<and> Get_shared env fresh f tf p = Inr (u, p') \<and>
    pool_inv p' \<and> idle p' = us \<and> pool_count p' = pool_count p \<and> maxIdleTask p' = maxIdleTask p \<and>
    store p' = (store p)(u \<mapsto> tk\<lparr>realFunc := Some f, status := Runnable\<rparr>)"
proof -
  from pop_or_create_idle [OF assms, of env fresh tf] obtain q tk where
    q: "pop_or_create env fresh tf p = Inr (u, p\<lparr>taskQueue := q\<rparr>)"
    "pool_inv (p\<lparr>taskQueue := q\<rparr>)" "idle (p\<lparr>taskQueue := q\<rparr>) = us" "store p u = Some tk" by auto
  then show ?thesis by (auto simp: Get_shared_def get_task_def pool_inv_put_task)
qed

lemma Get_out_idle:
  assumes "pool_inv p" "idle p = u # us"
  shows "\<exists>tk p'. store p u = Some tk \<and> Get_out env fresh out f tf p = Inr (out, p') \<and>
    pool_inv p' \<and> idle p' = us \<and> u \<notin> set us \<and>
    store p' = (store p)(u \<mapsto> tk\<lparr>realFunc := Some f\<rparr>)"
proof -
  from pop_or_create_idle [OF assms, of env fresh tf] obtain q tk where
    q: "pop_or_create env fresh tf p = Inr (u, p\<lparr>taskQueue := q\<rparr>)"
    "pool_inv (p\<lparr>taskQueue := q\<rparr>)" "idle (p\<lparr>taskQueue := q\<rparr>) = us" "store p u = Some tk"
    "u \<notin> set us" by auto
  then show ?thesis by (auto simp: Get_out_def get_task_def pool_inv_put_task)
qed

text \<open>No \<open>Get\<close> touches the counter.\<close>

lemma Create_count: "Create env t func p = Inr (r, p') \<Longrightarrow> pool_count p' = pool_count p"
  unfolding Create_def by (clarsimp simp: bindE_eq_Inr)

lemma pop_or_create_count:
  assumes "pop_or_create env fresh tf p = Inr (r, p')"
  shows "pool_count p' = pool_count p"
proof -
  obtain t q where "lfq_pop (taskQueue p) = Inr (t, q)"
    using assms by (auto simp: pop_or_create_def bindE_eq_Inr)
  with assms show ?thesis
    by (cases t) (auto simp: pop_or_create_def dest: Create_count)
qed

lemma Get_shared_count:
  assumes "Get_shared env fresh f tf p = Inr (r, p')"
  shows "pool_count p' = pool_count p"
proof -
  obtain t p1 where p1: "pop_or_create env fresh tf p = Inr (t, p1)"
    using assms by (auto simp: Get_shared_def bindE_eq_Inr)
  moreover from assms p1 obtain tk where "store p1 t = Some tk"
    by (auto simp: Get_shared_def bindE_eq_Inr)
  ultimately show ?thesis using assms pop_or_create_count [OF p1]
    by (auto simp: Get_shared_def get_task_def)
qed

section \<open>Sample states\<close>

text \<open>A pool with given idle tasks, counter and limit, in which every address is a task.\<close>

definition sample_task :: "task_status \<Rightarrow> nat task" where
  "sample_task st = \<lparr>tctx = \<lparr>ctx = \<lparr>ss_sp = 0, ss_size = 0, entry = Some TaskFunc\<rparr>,
     stk = Stack_new\<rparr>, realFunc = Some 0, status = st, task_id = 0\<rparr>"

definition sample_os :: os where
  "sample_os = \<lparr>os_mmap = (\<lambda>n. 0x100000), os_mprotect = (\<lambda>a n. 0),
     os_mincore = (\<lambda>a n. Some [0, 0, 0]), os_pagesize = 4096\<rparr>"

definition sample_pool :: "tptr list \<Rightarrow> u64 \<Rightarrow> u64 \<Rightarrow> (tptr \<Rightarrow> task_status) \<Rightarrow> nat pool" where
  "sample_pool ts c m st = \<lparr>stack_size_of = 4096, maxIdleTask = m, pool_count = c,
     taskQueue = lfq_of ts, low_page = 2, store = (\<lambda>t. Some (sample_task (st t))), taskID = 0\<rparr>"

lemma sample_pool_inv:
  assumes "distinct ts" "length ts \<le> lfq_room"
  shows "pool_inv (sample_pool ts c m st)" "idle (sample_pool ts c m st) = ts"
  using assms by (auto simp: pool_inv_def sample_pool_def idle_def)

lemma sample_pool_sel [simp]:
  "store (sample_pool ts c m st) t = Some (sample_task (st t))"
  "pool_count (sample_pool ts c m st) = c" "maxIdleTask (sample_pool ts c m st) = m"
  "status (sample_task s) = s"
  by (simp_all add: sample_pool_def sample_task_def)

section \<open>Properties\<close>

text \<open>A task put into a pool that has no idle task and has not used up its limit is the
  task the next \<open>Get\<close> hands out, runnable and with the new function; the pool is then as
  empty as before, but its counter has gone up by one.\<close>

theorem pool_recycles_task:
  assumes "pool_inv p" "idle p = []" "store p t = Some tk" "\<not> maxIdleTask p < pool_count p + 1"
  shows "\<exists>p1 p2. Put t p = Inr p1 \<and> Get_shared env fresh f TaskFunc p1 = Inr (t, p2) \<and>
    store p2 t = Some (tk\<lparr>realFunc := Some f, status := Runnable\<rparr>) \<and>
    pool_inv p2 \<and> idle p2 = [] \<and> pool_count p2 = pool_count p + 1"
proof -
  from Put_inv [OF assms(1), of t] assms obtain p1 where
    p1: "Put t p = Inr p1" "pool_inv p1" "idle p1 = [t]" "store p1 = store p"
    "pool_count p1 = pool_count p + 1"
    by (auto simp: lfq_room_def)
  from Get_shared_idle [OF p1(2,3), of env fresh f TaskFunc] p1 assms(3) show ?thesis
    by auto
qed

theorem pool_recycles_task_witness:
  "\<exists>p1 p2. Put 7 (sample_pool [] 0 1 (\<lambda>_. Done)) = Inr p1 \<and>
    Get_shared sample_os 9 (3 :: nat) TaskFunc p1 = Inr (7, p2) \<and> pool_count p2 = 1"
proof -
  have "pool_inv (sample_pool [] 0 1 (\<lambda>_. Done))" "idle (sample_pool [] 0 1 (\<lambda>_. Done)) = []"
    by (simp_all add: sample_pool_inv)
  from pool_recycles_task [OF this, of 7 _ sample_os 9 3] show ?thesis by auto
qed

text \<open>The counter limits the number of tasks ever put back, not the number of idle ones:
  once it has reached the limit, every further put deletes the task, however empty the pool is,
  and no \<open>Get\<close> lowers the counter.\<close>

theorem pool_saturates:
  assumes "pool_inv p" "pool_count p = maxIdleTask p" "maxIdleTask p \<noteq> - 1"
    and "t \<notin> set (idle p)" "store p t \<noteq> None" "length (idle p) < lfq_room"
  shows "\<exists>p'. Put t p = Inr p' \<and> idle p' = idle p \<and> store p' t = None \<and>
    pool_count p' = maxIdleTask p \<and>
    (\<forall>env fresh f tf r p2. Get_shared env fresh f tf p' = Inr (r, p2) \<longrightarrow>
      pool_count p2 = pool_count p')"
proof -
  have "maxIdleTask p < pool_count p + 1"
    using assms(3) inc_less_eq_self_iff_eq [of "maxIdleTask p"] unfolding assms(2)
    by (metis not_le)
  with Put_inv [OF assms(1,4,5,6)] assms(2) obtain p' where
    "Put t p = Inr p'" "idle p' = idle p" "store p' = (store p)(t := None)"
    "pool_count p' = maxIdleTask p" by auto
  then show ?thesis
    using Get_shared_count [where p = p'] by (intro exI [of _ p'] conjI allI impI) auto
qed

theorem pool_saturates_witness:
  "\<exists>p'. Put 7 (sample_pool [] 1 1 (\<lambda>_. Done)) = Inr p' \<and> idle p' = [] \<and> store p' 7 = None"
proof -
  have "pool_inv (sample_pool [] 1 1 (\<lambda>_. Done))" "idle (sample_pool [] 1 1 (\<lambda>_. Done)) = []"
    by (simp_all add: sample_pool_inv)
  from pool_saturates [OF this(1), of 7] this(2) show ?thesis by fastforce
qed

text \<open>The overload of \<open>Get\<close> with an output parameter takes the first idle task out of
  the pool and gives the caller nothing: the caller's variable keeps its old value, the task
  is neither idle any more nor known to anyone, and its status is whatever it was.\<close>

theorem get_out_loses_task:
  assumes "pool_inv p" "idle p = u # us"
  shows "\<exists>tk p'. store p u = Some tk \<and> Get_out env fresh out f TaskFunc p = Inr (out, p') \<and>
    u \<notin> set (idle p') \<and> store p' u = Some (tk\<lparr>realFunc := Some f\<rparr>)"
  using Get_out_idle [OF assms, of env fresh out f TaskFunc] by auto

theorem get_out_loses_task_witness:
  "\<exists>p'. Get_out sample_os 9 (None :: tptr option) (3 :: nat) TaskFunc
      (sample_pool [5] 1 1 (\<lambda>_. Done)) = Inr (None, p') \<and>
    5 \<notin> set (idle p') \<and> (\<exists>tk. store p' 5 = Some tk \<and> status tk = Done)"
proof -
  have "pool_inv (sample_pool [5] 1 1 (\<lambda>_. Done))" "idle (sample_pool [5] 1 1 (\<lambda>_. Done)) = [5]"
    by (simp_all add: sample_pool_inv)
  from get_out_loses_task [OF this, of sample_os 9 None 3] show ?thesis by auto
qed

text \<open>\<open>Release\<close> as written never completes: its stack check faults on every task.\<close>

theorem release_never_returns:
  "\<exists>e. Release env t p = Inl e \<and> e \<in> {Dangling, Out_of_bounds, Missing_return}"
  by (auto simp: Release_def Task_Check_stack_used_def get_task_def Context_Check_stack_used_def
      check_stack_used_def vec_read_def bindE_def Let_def split: option.splits sum.splits if_splits)

text \<open>With a stack check that answers, a task taken through the shared \<open>Get\<close> goes to the end of the
  idle queue when its last owner lets go, and not before; the round raises the pool's counter.\<close>

theorem shared_task_returns:
  assumes "pool_inv p" "idle p = u # us" "\<not> maxIdleTask p < pool_count p + 1" "Suc (length us) \<le> lfq_room"
  shows "\<exists>p1 p2. Get_shared env fresh f TaskFunc p = Inr (u, p1) \<and> Out (Some u) = Some (u, 1) \<and>
    drop_ref (Release_checked True) (u, 2) p1 = Inr (Some (u, 1), p1) \<and> idle p1 = us \<and>
    drop_ref (Release_checked True) (u, 1) p1 = Inr (None, p2) \<and> idle p2 = us @ [u] \<and>
    pool_count p2 = pool_count p + 1"
proof -
  obtain tk p1 where p1: "Get_shared env fresh f TaskFunc p = Inr (u, p1)" "pool_inv p1" "idle p1 = us"
    "store p1 = (store p)(u \<mapsto> tk\<lparr>realFunc := Some f, status := Runnable\<rparr>)"
    "maxIdleTask p1 = maxIdleTask p" "pool_count p1 = pool_count p"
    using Get_shared_idle [OF assms(1,2), of env fresh f TaskFunc] by blast
  have "u \<notin> set us" using assms(1,2) by (simp add: pool_inv_def idle_def)
  with Put_inv [OF p1(2), of u] p1 assms(3,4) obtain p2 where
    "Put u p1 = Inr p2" "idle p2 = us @ [u]" "pool_count p2 = pool_count p + 1" by auto
  with p1 show ?thesis by (auto simp: Out_def drop_ref_def Release_checked_def)
qed

theorem shared_task_returns_witness:
  "\<exists>p1 p2. Get_shared sample_os 9 (3 :: nat) TaskFunc (sample_pool [5, 6] 0 1 (\<lambda>_. Done)) = Inr (5, p1) \<and>
    drop_ref (Release_checked True) (5, 1) p1 = Inr (None, p2) \<and> idle p2 = [6, 5]"
proof -
  have "pool_inv (sample_pool [5, 6] 0 1 (\<lambda>_. Done))" "idle (sample_pool [5, 6] 0 1 (\<lambda>_. Done)) = [5, 6]"
    by (simp_all add: sample_pool_inv lfq_room_def)
  moreover have "\<not> maxIdleTask (sample_pool [5, 6] 0 1 (\<lambda>_. Done)) < pool_count (sample_pool [5, 6] 0 1 (\<lambda>_. Done)) + 1"
    "Suc (length [6 :: tptr]) \<le> lfq_room" by (simp_all add: lfq_room_def)
  ultimately show ?thesis using shared_task_returns [of "sample_pool [5, 6] 0 1 (\<lambda>_. Done)" 5 "[6]" sample_os 9 3]
    unfolding append.simps by blast
qed

end
