(* ===== verification/Co_Mutex.thy ===== *)
theory Co_Mutex
  imports LFQueue_Solo Task_Pool
begin

text \<open>
  The coroutine mutex of \<open>sync/co_mutex.hpp\<close>. \<open>mState\<close> is one atomic word with a locked
  bit and a 31-bit number of waiters; \<open>cm_step\<close> is one atomic access of \<open>lock\<close>,
  \<open>unlock\<close> or \<open>try_lock\<close>, the third component of its result being the tasks handed to
  \<open>AddTask\<close>. A task that suspends in \<open>lock\<close> is at \<open>L_suspended\<close> until somebody adds it
  to a run queue again; the closure it leaves behind, which puts it into \<open>waiterQueue_\<close>, is
  \<open>L_todo\<close>. \<open>cm_mstep b\<close> lets any number of tasks call the three operations in any
  interleaving; \<open>b\<close> says whether \<open>lock\<close> is among the calls.
\<close>

section \<open>State and operations\<close>

record cm_state =
  locked :: "1 word"
  waiters :: "31 word"

record comutex =
  mState :: cm_state
  waiterQueue :: "tptr lfq"

datatype cm_pc =
    M_out
  | L_load
  | L_cas cm_state cm_state
  | L_todo
  | L_suspended
  | M_in
  | U_load
  | U_cas cm_state
  | U_test cm_state
  | U_pop
  | T_load
  | T_cas cm_state cm_state
  | T_ret bool

primrec cm_step :: "tptr \<Rightarrow> cm_pc \<Rightarrow> comutex \<Rightarrow> fault + (cm_pc \<times> comutex \<times> tptr list)" where
  "cm_step t L_load m =
     (let oldS = mState m;
          newS = (if locked oldS = 0 then oldS\<lparr>locked := 1\<rparr>
                  else oldS\<lparr>waiters := waiters oldS + 1\<rparr>)
      in Inr (L_cas oldS newS, m, []))"
| "cm_step t (L_cas oldS newS) m =
     (if mState m = oldS
      then Inr (if locked newS = 1 then M_in else L_todo, m\<lparr>mState := newS\<rparr>, [])
      else Inr (L_load, m, []))"
| "cm_step t L_todo m =
     bindE (lfq_push t (waiterQueue m)) (\<lambda>q. Inr (L_suspended, m\<lparr>waiterQueue := q\<rparr>, []))"
| "cm_step t U_load m = Inr (U_cas (mState m), m, [])"
| "cm_step t (U_cas oldS) m =
     (if mState m = oldS
      then Inr (U_test (oldS\<lparr>locked := 0\<rparr>), m\<lparr>mState := \<lparr>locked = 0, waiters = waiters oldS\<rparr>\<rparr>, [])
      else Inr (U_cas (mState m), m, []))"
| "cm_step t (U_test oldS) m =
     (if 0 < waiters oldS \<and> mState m = oldS
      then Inr (U_pop, m\<lparr>mState := \<lparr>locked = locked oldS, waiters = waiters oldS - 1\<rparr>\<rparr>, [])
      else Inr (M_out, m, []))"
| "cm_step t U_pop m =
     bindE (lfq_pop (waiterQueue m)) (\<lambda>(r, q).
       let m' = m\<lparr>waiterQueue := q\<rparr>
       in case r of None \<Rightarrow> Inr (U_pop, m', []) | Some u \<Rightarrow> Inr (M_out, m', [u]))"
| "cm_step t T_load m =
     (let oldS = mState m
      in if locked oldS = 0
         then Inr (T_cas oldS \<lparr>locked = 1, waiters = waiters oldS\<rparr>, m, [])
         else Inl Missing_return)"
| "cm_step t (T_cas oldS newS) m =
     (if mState m = oldS then Inr (T_ret True, m\<lparr>mState := newS\<rparr>, [])
      else Inr (T_ret False, m, []))"
| "cm_step t M_out m = Inr (M_out, m, [])"
| "cm_step t L_suspended m = Inr (L_suspended, m, [])"
| "cm_step t M_in m = Inr (M_in, m, [])"
| "cm_step t (T_ret b) m = Inr (T_ret b, m, [])"

definition comutex_new :: "tptr choice \<Rightarrow> fault + comutex" where
  "comutex_new ch =
     bindE (lfq_new ch) (\<lambda>q. Inr \<lparr>mState = \<lparr>locked = 0, waiters = 0\<rparr>, waiterQueue = q\<rparr>)"

text \<open>One task running an operation alone, for at most \<open>fuel\<close> steps.\<close>

definition cm_ready :: "cm_pc \<Rightarrow> bool" where
  "cm_ready pc \<longleftrightarrow> pc = M_out \<or> pc = M_in \<or> pc = L_suspended \<or> (\<exists>b. pc = T_ret b)"

lemma cm_ready_simps [simp]:
  "cm_ready M_out" "cm_ready M_in" "cm_ready L_suspended" "cm_ready (T_ret b)"
  "\<not> cm_ready L_load" "\<not> cm_ready (L_cas x y)" "\<not> cm_ready L_todo" "\<not> cm_ready U_load"
  "\<not> cm_ready (U_cas x)" "\<not> cm_ready (U_test x)" "\<not> cm_ready U_pop" "\<not> cm_ready T_load"
  "\<not> cm_ready (T_cas x y)"
  by (simp_all add: cm_ready_def)

fun cm_exec :: "nat \<Rightarrow> tptr \<Rightarrow> cm_pc \<Rightarrow> comutex \<Rightarrow> fault + (cm_pc \<times> comutex \<times> tptr list)" where
  "cm_exec 0 t pc m = (if cm_ready pc then Inr (pc, m, []) else Inl Diverges)"
| "cm_exec (Suc n) t pc m =
     (if cm_ready pc then Inr (pc, m, [])
      else bindE (cm_step t pc m) (\<lambda>(pc', m', ts).
        bindE (cm_exec n t pc' m') (\<lambda>(pc'', m'', ts'). Inr (pc'', m'', ts @ ts'))))"

section \<open>Tasks sharing one mutex\<close>

record cm_machine =
  mutex :: comutex
  pcs :: "tptr \<Rightarrow> cm_pc"

text \<open>A task added to a run queue resumes after its suspension, at the top of the loop.\<close>

fun resume_tasks :: "tptr list \<Rightarrow> (tptr \<Rightarrow> cm_pc) \<Rightarrow> tptr \<Rightarrow> cm_pc" where
  "resume_tasks [] f = f"
| "resume_tasks (t # ts) f = resume_tasks ts (f(t := L_load))"

inductive cm_mstep :: "bool \<Rightarrow> cm_machine \<Rightarrow> cm_machine \<Rightarrow> bool" for b where
  call_lock: "b \<Longrightarrow> pcs s t \<in> {M_out, T_ret False} \<Longrightarrow>
    cm_mstep b s (s\<lparr>pcs := (pcs s)(t := L_load)\<rparr>)"
| call_try: "pcs s t \<in> {M_out, T_ret False} \<Longrightarrow> cm_mstep b s (s\<lparr>pcs := (pcs s)(t := T_load)\<rparr>)"
| call_unlock: "pcs s t \<in> {M_in, T_ret True} \<Longrightarrow> cm_mstep b s (s\<lparr>pcs := (pcs s)(t := U_load)\<rparr>)"
| access: "cm_step t (pcs s t) (mutex s) = Inr (pc, m, ts) \<Longrightarrow>
    cm_mstep b s (s\<lparr>mutex := m, pcs := resume_tasks ts ((pcs s)(t := pc))\<rparr>)"

definition cm_init :: "cm_machine \<Rightarrow> bool" where
  "cm_init s \<longleftrightarrow> (\<exists>ch. comutex_new ch = Inr (mutex s)) \<and> pcs s = (\<lambda>_. M_out)"

text \<open>The tasks inside the critical section, the beginning of their unlock included.\<close>

primrec holds :: "cm_pc \<Rightarrow> bool" where
  "holds M_out = False" | "holds L_load = False" | "holds (L_cas x y) = False"
| "holds L_todo = False" | "holds L_suspended = False" | "holds M_in = True"
| "holds U_load = True" | "holds (U_cas x) = True" | "holds (U_test x) = False"
| "holds U_pop = False" | "holds T_load = False" | "holds (T_cas x y) = False"
| "holds (T_ret b) = b"

section \<open>Nobody ever waits\<close>

primrec unqueued_pc :: "cm_pc \<Rightarrow> bool" where
  "unqueued_pc M_out = True" | "unqueued_pc L_load = True"
| "unqueued_pc (L_cas x y) = (locked y = 1)"
| "unqueued_pc L_todo = False" | "unqueued_pc L_suspended = False" | "unqueued_pc M_in = True"
| "unqueued_pc U_load = True" | "unqueued_pc (U_cas x) = True" | "unqueued_pc (U_test x) = True"
| "unqueued_pc U_pop = True" | "unqueued_pc T_load = True" | "unqueued_pc (T_cas x y) = True"
| "unqueued_pc (T_ret b) = True"

definition unqueued :: "cm_machine \<Rightarrow> bool" where
  "unqueued s \<longleftrightarrow> (\<exists>ch. lfq_new ch = Inr (waiterQueue (mutex s))) \<and> (\<forall>t. unqueued_pc (pcs s t))"

lemma bit1_cases: "(x :: 1 word) \<noteq> 0 \<Longrightarrow> x = 1"
proof -
  assume "x \<noteq> 0"
  moreover have "unat x < 2" using unsigned_less [of x, where 'a = nat] by simp
  moreover have "unat x \<noteq> 0" using \<open>x \<noteq> 0\<close> by (simp add: unat_eq_zero)
  ultimately have "unat x = unat (1 :: 1 word)" by simp
  then show ?thesis by (simp only: word_unat_eq_iff)
qed

lemma cm_step_unqueued:
  assumes "cm_step t pc m = Inr (pc', m', ts)" "unqueued_pc pc"
    and "lfq_new ch = Inr (waiterQueue m)"
  shows "unqueued_pc pc' \<and> waiterQueue m' = waiterQueue m \<and> ts = []"
  using assms(1,2) bit1_cases lfq_pop_new [OF assms(3)]
  by (cases pc) (auto simp: Let_def split: if_splits)

lemma unqueued_step: "cm_mstep b s s' \<Longrightarrow> unqueued s \<Longrightarrow> unqueued s'"
proof (induction rule: cm_mstep.induct)
  case (access t s pc m ts)
  then obtain ch where "lfq_new ch = Inr (waiterQueue (mutex s))" "unqueued_pc (pcs s t)"
    by (auto simp: unqueued_def)
  from cm_step_unqueued [OF access(1) this(2,1)] this access show ?case by (auto simp: unqueued_def)
qed (auto simp: unqueued_def)

lemma comutex_new_result:
  "comutex_new ch = Inr m \<Longrightarrow> mState m = \<lparr>locked = 0, waiters = 0\<rparr> \<and> lfq_new ch = Inr (waiterQueue m)"
  by (auto simp: comutex_new_def bindE_eq_Inr)

lemma unqueued_init: "cm_init s \<Longrightarrow> unqueued s"
  by (auto simp: cm_init_def unqueued_def dest: comutex_new_result)

interpretation cmq: inductive_invariant cm_init "cm_mstep b" unqueued for b
  by unfold_locales (auto intro: unqueued_init unqueued_step)

text \<open>A task at the pop loop of \<open>unlock\<close> stays there.\<close>

lemma spin_step: "cm_mstep b s s' \<Longrightarrow> unqueued s \<Longrightarrow> pcs s t = U_pop \<Longrightarrow> pcs s' t = U_pop"
proof (induction rule: cm_mstep.induct)
  case (access u s pc m ts)
  then obtain ch where q: "lfq_new ch = Inr (waiterQueue (mutex s))" "unqueued_pc (pcs s u)"
    by (auto simp: unqueued_def)
  have "ts = []" using cm_step_unqueued [OF access(1) q(2,1)] by simp
  with access lfq_pop_new [OF q(1)] show ?case by auto
qed auto

lemma spin_steps:
  "(cm_mstep b)\<^sup>*\<^sup>* s s' \<Longrightarrow> unqueued s \<Longrightarrow> pcs s t = U_pop \<Longrightarrow> pcs s' t = U_pop"
proof (induction rule: rtranclp_induct)
  case (step y z)
  then show ?case using spin_step [OF step(2)] cmq.inv_steps [OF step(1)] by blast
qed simp

section \<open>Mutual exclusion\<close>

primrec try_pc :: "cm_pc \<Rightarrow> bool" where
  "try_pc M_out = True" | "try_pc L_load = False" | "try_pc (L_cas x y) = False"
| "try_pc L_todo = False" | "try_pc L_suspended = False" | "try_pc M_in = False"
| "try_pc U_load = True" | "try_pc (U_cas x) = True" | "try_pc (U_test x) = (waiters x = 0)"
| "try_pc U_pop = False" | "try_pc T_load = True"
| "try_pc (T_cas x y) = (locked x = 0 \<and> waiters x = 0 \<and> locked y = 1 \<and> waiters y = 0)"
| "try_pc (T_ret b) = True"

definition exclusive :: "cm_machine \<Rightarrow> bool" where
  "exclusive s \<longleftrightarrow> (\<forall>t. try_pc (pcs s t)) \<and> waiters (mState (mutex s)) = 0 \<and>
     (\<forall>t u. holds (pcs s t) \<and> holds (pcs s u) \<longrightarrow> t = u) \<and>
     (\<forall>t. holds (pcs s t) \<longrightarrow> locked (mState (mutex s)) = 1)"

lemma exclusive_init: "cm_init s \<Longrightarrow> exclusive s"
  by (auto simp: cm_init_def exclusive_def dest: comutex_new_result)

lemma exclusive_access:
  assumes "exclusive s" "cm_step t (pcs s t) (mutex s) = Inr (pc, m, ts)"
  shows "ts = [] \<and> exclusive (s\<lparr>mutex := m, pcs := (pcs s)(t := pc)\<rparr>)"
proof -
  have "try_pc (pcs s t)" using assms by (simp add: exclusive_def)
  then show ?thesis
  proof (cases "pcs s t")
    case (U_cas x)
    with assms have "locked (mState (mutex s)) = 1" "\<forall>u. u \<noteq> t \<longrightarrow> \<not> holds (pcs s u)"
      unfolding exclusive_def by (metis holds.simps(8))+
    with assms U_cas show ?thesis by (auto simp: exclusive_def split: if_splits)
  next
    case U_load
    with assms have "locked (mState (mutex s)) = 1" "\<forall>u. u \<noteq> t \<longrightarrow> \<not> holds (pcs s u)"
      unfolding exclusive_def by (metis holds.simps(7))+
    with assms U_load show ?thesis by (auto simp: exclusive_def)
  next
    case (T_cas x y)
    with \<open>try_pc (pcs s t)\<close> have y: "locked x = 0" "locked y = 1" "waiters y = 0" by simp_all
    show ?thesis
    proof (cases "mState (mutex s) = x")
      case True
      with assms(1) y have "\<forall>u. \<not> holds (pcs s u)"
        unfolding exclusive_def by (metis zero_neq_one)
      with True T_cas assms y show ?thesis by (auto simp: exclusive_def)
    next
      case False
      with T_cas assms show ?thesis by (auto simp: exclusive_def)
    qed
  qed (use assms in \<open>auto simp: exclusive_def Let_def split: if_splits\<close>)
qed

lemma exclusive_step: "cm_mstep False s s' \<Longrightarrow> exclusive s \<Longrightarrow> exclusive s'"
proof (induction rule: cm_mstep.induct)
  case (access t s pc m ts)
  then show ?case using exclusive_access [OF access(2,1)] by auto
next
  case (call_unlock s t)
  then have "holds (pcs s t)" by auto
  with call_unlock(2) have "locked (mState (mutex s)) = 1" "\<forall>u. u \<noteq> t \<longrightarrow> \<not> holds (pcs s u)"
    unfolding exclusive_def by metis+
  with call_unlock(2) show ?case by (auto simp: exclusive_def)
qed (auto simp: exclusive_def)

interpretation cmx: inductive_invariant cm_init "cm_mstep False" exclusive
  by unfold_locales (auto intro: exclusive_init exclusive_step)

lemma cm_exec_lock:
  "cm_exec (Suc (Suc n)) t L_load m = Inr (M_in, m\<lparr>mState :=
     (if locked (mState m) = 0 then (mState m)\<lparr>locked := 1\<rparr>
      else (mState m)\<lparr>waiters := waiters (mState m) + 1\<rparr>)\<rparr>, [])"
  using bit1_cases [of "locked (mState m)"] by (cases n) (auto simp: Let_def)

lemma cm_exec_unlock:
  "waiters (mState m) = 0 \<Longrightarrow> cm_exec (Suc (Suc (Suc n))) t U_load m =
     Inr (M_out, m\<lparr>mState := (mState m)\<lparr>locked := 0\<rparr>\<rparr>, [])"
  by (cases n) auto

lemma cm_exec_spin:
  assumes "lfq_pop (waiterQueue m) = Inr (None, waiterQueue m)"
  shows "cm_exec n t U_pop m = Inl Diverges"
  using assms by (induction n) simp_all

lemma cm_exec_unlock_spins:
  assumes "lfq_pop (waiterQueue m) = Inr (None, waiterQueue m)" "waiters (mState m) \<noteq> 0"
  shows "cm_exec n t U_load m = Inl Diverges"
proof (cases "n < 3")
  case True
  then have "n = 0 \<or> n = Suc 0 \<or> n = Suc (Suc 0)" by auto
  then show ?thesis by auto
next
  case False
  then obtain k where "n = 3 + k" by (metis le_add_diff_inverse not_less)
  then have k: "n = Suc (Suc (Suc k))" by simp
  have "0 < waiters (mState m)" using assms(2) by (simp add: word_neq_0_conv)
  with assms show ?thesis unfolding k by (simp add: cm_exec_spin)
qed

lemma lfq_pop_empty [simp]: "lfq_pop lfq_empty = Inr (None, lfq_empty)"
  by (rule lfq_pop_meet) (simp add: lfq_empty_def)

definition mutex_of :: "1 word \<Rightarrow> 31 word \<Rightarrow> comutex" where
  "mutex_of l w = \<lparr>mState = \<lparr>locked = l, waiters = w\<rparr>, waiterQueue = lfq_empty\<rparr>"

lemma mutex_of_sel [simp]:
  "mState (mutex_of l w) = \<lparr>locked = l, waiters = w\<rparr>" "waiterQueue (mutex_of l w) = lfq_empty"
  "mutex_of l w\<lparr>mState := \<lparr>locked = l', waiters = w'\<rparr>\<rparr> = mutex_of l' w'"
  by (simp_all add: mutex_of_def)

section \<open>Schedules\<close>

text \<open>Machine states that differ from the initial one in the word and the tasks 1 and 2.\<close>

definition cm_at :: "1 word \<Rightarrow> 31 word \<Rightarrow> cm_pc \<Rightarrow> cm_pc \<Rightarrow> cm_machine" where
  "cm_at l w p1 p2 = \<lparr>mutex = mutex_of l w, pcs = (\<lambda>_. M_out)(1 := p1, 2 := p2)\<rparr>"

lemma cm_at_sel [simp]:
  "mutex (cm_at l w p1 p2) = mutex_of l w" "pcs (cm_at l w p1 p2) 1 = p1"
  "pcs (cm_at l w p1 p2) 2 = p2" "pcs (cm_at l w p1 p2) (Suc 0) = p1"
  by (simp_all add: cm_at_def)

lemma cm_at_init: "cm_init (cm_at 0 0 M_out M_out)"
proof -
  have "comutex_new \<lparr>ch_addr = 1, ch_data = None, ch_junk = 0, ch_spurious = False\<rparr> = Inr (mutex_of 0 0)"
    by (simp add: comutex_new_def lfq_new_empty mutex_of_def)
  then show ?thesis by (auto simp: cm_init_def cm_at_def)
qed

lemma cm_at_access:
  "cm_step 1 p1 (mutex_of l w) = Inr (p1', mutex_of l' w', []) \<Longrightarrow>
     cm_mstep b (cm_at l w p1 p2) (cm_at l' w' p1' p2)"
  "cm_step 2 p2 (mutex_of l w) = Inr (p2', mutex_of l' w', []) \<Longrightarrow>
     cm_mstep b (cm_at l w p1 p2) (cm_at l' w' p1 p2')"
  using access [of 1 "cm_at l w p1 p2" p1' "mutex_of l' w'" "[]" b]
    access [of 2 "cm_at l w p1 p2" p2' "mutex_of l' w'" "[]" b]
  by (simp_all add: cm_at_def fun_upd_twist)

lemma cm_at_calls:
  "cm_mstep True (cm_at l w M_out p2) (cm_at l w L_load p2)"
  "cm_mstep True (cm_at l w p1 M_out) (cm_at l w p1 L_load)"
  "cm_mstep b (cm_at l w M_out p2) (cm_at l w T_load p2)"
  "cm_mstep b (cm_at l w M_in p2) (cm_at l w U_load p2)"
  using call_lock [of True "cm_at l w M_out p2" 1] call_lock [of True "cm_at l w p1 M_out" 2]
    call_try [of "cm_at l w M_out p2" 1 b] call_unlock [of "cm_at l w M_in p2" 1 b]
  by (simp_all add: cm_at_def fun_upd_twist)

lemma one_neq_zero_bit [simp]: "(1 :: 1 word) \<noteq> 0"
  by simp

text \<open>Task 1 takes the mutex with \<open>lock\<close>, then task 2 does.\<close>

lemma both_locked: "reach cm_init (cm_mstep True) (cm_at 1 1 M_in M_in)"
proof -
  have "cm_mstep True (cm_at 0 0 M_out M_out) (cm_at 0 0 L_load M_out)" by (rule cm_at_calls)
  moreover have "cm_mstep True \<dots>
      (cm_at 0 0 (L_cas \<lparr>locked = 0, waiters = 0\<rparr> \<lparr>locked = 1, waiters = 0\<rparr>) M_out)"
    by (rule cm_at_access) simp
  moreover have "cm_mstep True \<dots> (cm_at 1 0 M_in M_out)" by (rule cm_at_access) simp
  moreover have "cm_mstep True \<dots> (cm_at 1 0 M_in L_load)" by (rule cm_at_calls)
  moreover have "cm_mstep True \<dots>
      (cm_at 1 0 M_in (L_cas \<lparr>locked = 1, waiters = 0\<rparr> \<lparr>locked = 1, waiters = 1\<rparr>))"
    by (rule cm_at_access) simp
  moreover have "cm_mstep True \<dots> (cm_at 1 1 M_in M_in)" by (rule cm_at_access) simp
  ultimately show ?thesis using cm_at_init by (meson reach.intros)
qed

text \<open>Then task 1 unlocks.\<close>

lemma unlock_spinning: "reach cm_init (cm_mstep True) (cm_at 0 0 U_pop M_in)"
proof -
  have "cm_mstep True (cm_at 1 1 M_in M_in) (cm_at 1 1 U_load M_in)" by (rule cm_at_calls)
  moreover have "cm_mstep True \<dots> (cm_at 1 1 (U_cas \<lparr>locked = 1, waiters = 1\<rparr>) M_in)"
    by (rule cm_at_access) simp
  moreover have "cm_mstep True \<dots> (cm_at 0 1 (U_test \<lparr>locked = 0, waiters = 1\<rparr>) M_in)"
    by (rule cm_at_access) simp
  moreover have "cm_mstep True \<dots> (cm_at 0 0 U_pop M_in)" by (rule cm_at_access) simp
  ultimately show ?thesis using both_locked by (meson reach.intros)
qed

lemma try_locked: "reach cm_init (cm_mstep False) (cm_at 1 0 (T_ret True) M_out)"
proof -
  have "cm_mstep False (cm_at 0 0 M_out M_out) (cm_at 0 0 T_load M_out)" by (rule cm_at_calls)
  moreover have "cm_mstep False \<dots>
      (cm_at 0 0 (T_cas \<lparr>locked = 0, waiters = 0\<rparr> \<lparr>locked = 1, waiters = 0\<rparr>) M_out)"
    by (rule cm_at_access) simp
  moreover have "cm_mstep False \<dots> (cm_at 1 0 (T_ret True) M_out)" by (rule cm_at_access) simp
  ultimately show ?thesis using cm_at_init by (meson reach.intros)
qed

section \<open>Properties\<close>

text \<open>
  Uncontended use of the mutex is a round trip. From a free mutex without waiters, \<open>lock\<close>
  returns after two accesses with the locked bit set and nothing else changed, and \<open>unlock\<close>
  then returns after three and gives back the state before.
\<close>

theorem comutex_uncontended:
  assumes "mState m = \<lparr>locked = 0, waiters = 0\<rparr>"
  shows "\<exists>m'. cm_exec 2 t L_load m = Inr (M_in, m', []) \<and>
    mState m' = \<lparr>locked = 1, waiters = 0\<rparr> \<and> cm_exec 3 t U_load m' = Inr (M_out, m, [])"
proof -
  have "cm_exec 2 t L_load m = Inr (M_in, m\<lparr>mState := \<lparr>locked = 1, waiters = 0\<rparr>\<rparr>, [])"
    using cm_exec_lock [of 0 t m] assms by (simp add: numeral_2_eq_2)
  moreover have "cm_exec 3 t U_load (m\<lparr>mState := \<lparr>locked = 1, waiters = 0\<rparr>\<rparr>) = Inr (M_out, m, [])"
    using cm_exec_unlock [of "m\<lparr>mState := \<lparr>locked = 1, waiters = 0\<rparr>\<rparr>" 0 t] assms
    by (cases m) (simp add: numeral_3_eq_3)
  ultimately show ?thesis by auto
qed

theorem comutex_uncontended_witness:
  "\<exists>m'. cm_exec 2 5 L_load (mutex_of 0 0) = Inr (M_in, m', []) \<and>
    cm_exec 3 5 U_load m' = Inr (M_out, (mutex_of 0 0), [])"
  using comutex_uncontended [of "mutex_of 0 0" 5] by (auto simp: mutex_of_def)

text \<open>
  C18: \<open>try_lock\<close> and \<open>unlock\<close> alone give mutual exclusion as long as nobody calls \<open>try_lock\<close> in vain.
  When the bit is set, \<open>try_lock\<close> runs off its end without a \<open>return\<close>, which is undefined
  behaviour: the step is a fault, and the executions considered are those before the first. In
  each of them, whatever number of tasks call the two operations in whatever interleaving, at
  most one is between a successful \<open>try_lock\<close> and the exchange in its \<open>unlock\<close> that clears the
  bit, the bit is set meanwhile, and no \<open>unlock\<close> ever spins; and in each, the tasks that are about
  to fault are exactly those that are about to load the word while somebody is inside.
\<close>

theorem try_lock_excludes:
  assumes "reach cm_init (cm_mstep False) s" "holds (pcs s t)"
  shows "locked (mState (mutex s)) = 1 \<and> {u. holds (pcs s u)} = {t} \<and> {u. pcs s u = U_pop} = {} \<and>
    {(u, err). cm_step u (pcs s u) (mutex s) = Inl err} = {u. pcs s u = T_load} \<times> {Missing_return}"
proof -
  have inv: "\<forall>u. try_pc (pcs s u)" "locked (mState (mutex s)) = 1" "{u. holds (pcs s u)} = {t}"
    using cmx.inv_reach [OF assms(1)] assms(2) unfolding exclusive_def by auto
  have "cm_step u (pcs s u) (mutex s) = Inl err \<longleftrightarrow> pcs s u = T_load \<and> err = Missing_return" for u err
    using inv(1) [rule_format, of u] inv(2) by (cases "pcs s u") (auto simp: Let_def)
  moreover have "pcs s u \<noteq> U_pop" for u using inv(1) by (metis try_pc.simps(10))
  ultimately show ?thesis using inv(2,3) by auto
qed

theorem try_lock_excludes_witness:
  "{u. holds (pcs (cm_at 1 0 (T_ret True) M_out) u)} = {1}"
  using try_lock_excludes [OF try_locked, of 1] by simp

text \<open>
  C19: \<open>lock\<close> excludes nobody. It adds a waiter without clearing the locked bit and then takes
  the set bit for its own success: two tasks that call it one after the other are both inside,
  and in no interleaving does any task suspend or enter the waiter queue, which stays as it was
  constructed, so that a pop finds nobody.
\<close>

theorem lock_excludes_nobody:
  "(\<exists>s. reach cm_init (cm_mstep True) s \<and> pcs s 1 = M_in \<and> pcs s 2 = M_in) \<and>
   {(s, t). reach cm_init (cm_mstep True) s \<and> pcs s t \<in> {L_todo, L_suspended}} = {} \<and>
   {s. reach cm_init (cm_mstep True) s \<and> {ch. lfq_new ch = Inr (waiterQueue (mutex s))} = {}} = {} \<and>
   {s. reach cm_init (cm_mstep True) s \<and>
     lfq_pop (waiterQueue (mutex s)) \<noteq> Inr (None, waiterQueue (mutex s))} = {}"
proof -
  have u: "unqueued_pc (pcs s t)" "\<exists>ch. lfq_new ch = Inr (waiterQueue (mutex s))"
    if "reach cm_init (cm_mstep True) s" for s t
    using cmq.inv_reach [OF that] by (simp_all add: unqueued_def)
  have "{(s, t). reach cm_init (cm_mstep True) s \<and> pcs s t \<in> {L_todo, L_suspended}} = {}"
    using u(1) by auto (metis unqueued_pc.simps(4,5))+
  moreover have "{s. reach cm_init (cm_mstep True) s \<and> {ch. lfq_new ch = Inr (waiterQueue (mutex s))} = {}} = {}"
    "{s. reach cm_init (cm_mstep True) s \<and>
      lfq_pop (waiterQueue (mutex s)) \<noteq> Inr (None, waiterQueue (mutex s))} = {}"
    using u(2) lfq_pop_new by blast+
  ultimately show ?thesis using both_locked cm_at_sel(2,3) by blast
qed

text \<open>
  An \<open>unlock\<close> that sees a waiter never returns. It waits for the waiter to appear in the
  queue, and no interleaving with any calls of any tasks ever puts one there.
\<close>

theorem unlock_spins_forever:
  assumes "reach cm_init (cm_mstep True) s" "pcs s t = U_pop" "(cm_mstep True)\<^sup>*\<^sup>* s s'"
  shows "pcs s' t = U_pop"
  using spin_steps [OF assms(3) _ assms(2)] cmq.inv_reach [OF assms(1)] by blast

theorem unlock_spins_forever_witness:
  "\<nexists>s'. (cm_mstep True)\<^sup>*\<^sup>* (cm_at 0 0 U_pop M_in) s' \<and> pcs s' 1 = M_out"
  using unlock_spins_forever [OF unlock_spinning, of 1] by fastforce

end
