(* ===== verification/Processer.thy ===== *)
theory Processer
  imports Task_Pool
begin

text \<open>
  The per-thread scheduler of \<open>processer/processer.cpp\<close> and \<open>processer/processer.hpp\<close>.
  One record, \<open>proc\<close>, holds the fields of a \<open>Processer\<close> and the pool it shares; the
  closures put on \<open>LastScheToDos_\<close> are data (\<open>todo\<close>), one constructor per lambda of
  the source, \<open>Call\<close> being a closure handed in through \<open>AddToDo\<close>, which \<open>call\<close>
  runs. Control is the field \<open>cur\<close>: which context the thread executes, the scheduling loop
  (\<open>Main\<close>) or a coroutine. Every place that \<open>Task::Swap\<close> can resume (the start of
  \<open>TaskFunc\<close>, the end of \<open>Yield\<close>, the line after the swap in \<open>Start\<close>) first calls
  \<open>AfterLastSche\<close>, so a swap is modelled by \<open>Swap_to\<close>, which does both.
\<close>

section \<open>State\<close>

datatype proc_status = Running | Waiting

datatype 'c todo = Requeue tptr | Release_task tptr | Call 'c

datatype ctl = Main | Coroutine tptr

record ('f, 'c) proc =
  stop :: bool
  runningTask :: "tptr option"
  runnableQueue :: "tptr lfq"
  LastScheToDos :: "'c todo list"
  proc_id :: u64
  proc_status :: proc_status
  taskPool :: "'f pool"
  cur :: ctl

definition Processer_new :: "tptr choice \<Rightarrow> u64 \<Rightarrow> 'f pool \<Rightarrow> fault + ('f, 'c) proc" where
  "Processer_new ch next_id pool =
     bindE (lfq_new ch) (\<lambda>q.
       Inr \<lparr>stop = False, runningTask = None, runnableQueue = q, LastScheToDos = [],
            proc_id = next_id, proc_status = Waiting, taskPool = pool, cur = Main\<rparr>)"

text \<open>The calls a processer makes outside itself: the pool's \<open>Release\<close> and the closures.\<close>

record ('f, 'c, 'z) calls =
  c_release :: "tptr \<Rightarrow> 'f pool \<Rightarrow> fault + 'f pool"
  c_call :: "'c \<Rightarrow> ('f, 'c, 'z) proc_scheme \<Rightarrow> fault + ('f, 'c, 'z) proc_scheme"

section \<open>The run queue\<close>

definition push_runnable :: "tptr \<Rightarrow> ('f, 'c, 'z) proc_scheme \<Rightarrow> fault + ('f, 'c, 'z) proc_scheme" where
  "push_runnable t p =
     bindE (lfq_push t (runnableQueue p)) (\<lambda>q. Inr (p\<lparr>runnableQueue := q\<rparr>))"

definition pop_runnable :: "('f, 'c, 'z) proc_scheme \<Rightarrow> fault + (tptr option \<times> ('f, 'c, 'z) proc_scheme)" where
  "pop_runnable p =
     bindE (lfq_pop (runnableQueue p)) (\<lambda>(r, q). Inr (r, p\<lparr>runnableQueue := q\<rparr>))"

definition TaskSize :: "('f, 'c, 'z) proc_scheme \<Rightarrow> i32" where
  "TaskSize p = q_size (runnableQueue p)"

definition WakeUp :: "('f, 'c, 'z) proc_scheme \<Rightarrow> ('f, 'c, 'z) proc_scheme" where
  "WakeUp p = (if proc_status p = Waiting then p\<lparr>proc_status := Running\<rparr> else p)"

definition Stop :: "('f, 'c, 'z) proc_scheme \<Rightarrow> ('f, 'c, 'z) proc_scheme" where
  "Stop p = WakeUp (p\<lparr>stop := True\<rparr>)"

text \<open>
  \<open>AddTask\<close> of a list of tasks. The overload that takes a function reads the local
  \<open>tk\<close> after \<open>Get\<close> has left it indeterminate (\<open>None\<close>).
\<close>

definition AddTask_list :: "tptr list \<Rightarrow> ('f, 'c, 'z) proc_scheme \<Rightarrow> fault + ('f, 'c, 'z) proc_scheme" where
  "AddTask_list ts p =
     bindE (push_all lfq_push ts (runnableQueue p)) (\<lambda>q.
       let p1 = p\<lparr>runnableQueue := q\<rparr>
       in Inr (if proc_status p1 = Waiting then WakeUp p1 else p1))"

definition AddTask_func :: "os \<Rightarrow> tptr \<Rightarrow> 'f \<Rightarrow> ('f, 'c, 'z) proc_scheme \<Rightarrow> fault + ('f, 'c, 'z) proc_scheme" where
  "AddTask_func env fresh f p =
     bindE (Get_out env fresh (None :: tptr option) f TaskFunc (taskPool p)) (\<lambda>(tk, pool).
       let p1 = p\<lparr>taskPool := pool\<rparr>
       in case tk of
            None \<Rightarrow> Inl Uninit_read
          | Some t \<Rightarrow> bindE (push_runnable t p1) (\<lambda>p2.
              Inr (if proc_status p2 = Waiting then WakeUp p2 else p2)))"

definition Steal :: "nat \<Rightarrow> ('f, 'c, 'z) proc_scheme \<Rightarrow> fault + (tptr list \<times> ('f, 'c, 'z) proc_scheme)" where
  "Steal num p =
     bindE (check Assert_fail (0 < num)) (\<lambda>_.
     bindE (pop_n lfq_pop num (runnableQueue p)) (\<lambda>(ts, q).
       Inr (ts, p\<lparr>runnableQueue := q\<rparr>)))"

section \<open>Deferred work and swaps\<close>

definition AddToDo :: "'c \<Rightarrow> ('f, 'c, 'z) proc_scheme \<Rightarrow> ('f, 'c, 'z) proc_scheme" where
  "AddToDo c p = p\<lparr>LastScheToDos := LastScheToDos p @ [Call c]\<rparr>"

fun run_todo :: "('f, 'c, 'z) calls \<Rightarrow> 'c todo \<Rightarrow> ('f, 'c, 'z) proc_scheme \<Rightarrow> fault + ('f, 'c, 'z) proc_scheme" where
  "run_todo cs (Requeue t) p = push_runnable t p"
| "run_todo cs (Release_task t) p =
     bindE (c_release cs t (taskPool p)) (\<lambda>pool. Inr (p\<lparr>taskPool := pool\<rparr>))"
| "run_todo cs (Call c) p = c_call cs c p"

definition AfterLastSche :: "('f, 'c, 'z) calls \<Rightarrow> ('f, 'c, 'z) proc_scheme \<Rightarrow> fault + ('f, 'c, 'z) proc_scheme" where
  "AfterLastSche cs p =
     bindE (foldE (run_todo cs) (LastScheToDos p) p) (\<lambda>p1. Inr (p1\<lparr>LastScheToDos := []\<rparr>))"

definition Swap_to :: "('f, 'c, 'z) calls \<Rightarrow> ctl \<Rightarrow> ('f, 'c, 'z) proc_scheme \<Rightarrow> fault + ('f, 'c, 'z) proc_scheme" where
  "Swap_to cs k p = AfterLastSche cs (p\<lparr>cur := k\<rparr>)"

text \<open>
  \<open>Yield\<close>. The source releases \<open>runningTask_\<close> into \<open>cur_task\<close> and then reads the
  status through \<open>runningTask_\<close>, which is null by then. \<open>Yield_body st\<close> is the rest of
  the function, given the status \<open>st\<close> that the switch reads; \<open>Yield\<close> is the function as
  it is, \<open>Yield_cur\<close> the one that reads the status through \<open>cur_task\<close>.
\<close>

definition Yield_todos :: "task_status \<Rightarrow> tptr \<Rightarrow> ('f, 'c, 'z) proc_scheme \<Rightarrow> ('f, 'c, 'z) proc_scheme" where
  "Yield_todos st t p =
     (case st of
        Runnable \<Rightarrow> p\<lparr>LastScheToDos := LastScheToDos p @ [Requeue t]\<rparr>
      | Done \<Rightarrow> p\<lparr>LastScheToDos := LastScheToDos p @ [Release_task t]\<rparr>
      | Block \<Rightarrow> p)"

definition Yield_body ::
  "('f, 'c, 'z) calls \<Rightarrow> task_status \<Rightarrow> tptr \<Rightarrow> ('f, 'c, 'z) proc_scheme \<Rightarrow> fault + ('f, 'c, 'z) proc_scheme" where
  "Yield_body cs st t p =
     (let p1 = Yield_todos st t p
      in if stop p1 then Swap_to cs Main p1
         else bindE (pop_runnable p1) (\<lambda>(r, p2).
           let p3 = p2\<lparr>runningTask := r\<rparr>
           in case r of
                Some u \<Rightarrow> Swap_to cs (Coroutine u) p3
              | None \<Rightarrow> bindE (get_task t (taskPool p3)) (\<lambda>tk.
                  if status tk = Runnable
                  then AfterLastSche cs (p3\<lparr>LastScheToDos := butlast (LastScheToDos p3)\<rparr>)
                  else Swap_to cs Main p3)))"

definition running_status :: "('f, 'c, 'z) proc_scheme \<Rightarrow> fault + task_status" where
  "running_status p =
     (case runningTask p of
        None \<Rightarrow> Inl Null_deref
      | Some t \<Rightarrow> bindE (get_task t (taskPool p)) (\<lambda>tk. Inr (status tk)))"

definition Yield :: "('f, 'c, 'z) calls \<Rightarrow> ('f, 'c, 'z) proc_scheme \<Rightarrow> fault + ('f, 'c, 'z) proc_scheme" where
  "Yield cs p =
     (let cur_task = runningTask p; p1 = p\<lparr>runningTask := None\<rparr>
      in bindE (running_status p1) (\<lambda>st.
           case cur_task of
             None \<Rightarrow> Inl Null_deref
           | Some t \<Rightarrow> Yield_body cs st t p1))"

definition Yield_cur :: "('f, 'c, 'z) calls \<Rightarrow> ('f, 'c, 'z) proc_scheme \<Rightarrow> fault + ('f, 'c, 'z) proc_scheme" where
  "Yield_cur cs p =
     bindE (running_status p) (\<lambda>st.
       case runningTask p of
         None \<Rightarrow> Inl Null_deref
       | Some t \<Rightarrow> Yield_body cs st t (p\<lparr>runningTask := None\<rparr>))"

text \<open>What \<open>SuspendTask\<close> and the end of \<open>TaskFunc\<close> do before they call \<open>Yield\<close>.\<close>

definition set_status :: "task_status \<Rightarrow> tptr \<Rightarrow> ('f, 'c, 'z) proc_scheme \<Rightarrow> fault + ('f, 'c, 'z) proc_scheme" where
  "set_status st t p =
     bindE (get_task t (taskPool p)) (\<lambda>tk.
       Inr (p\<lparr>taskPool := put_task t (tk\<lparr>status := st\<rparr>) (taskPool p)\<rparr>))"

definition SuspendTask ::
  "(('f, 'c, 'z) proc_scheme \<Rightarrow> fault + ('f, 'c, 'z) proc_scheme) \<Rightarrow> ('f, 'c, 'z) proc_scheme option \<Rightarrow> fault + ('f, 'c, 'z) proc_scheme option" where
  "SuspendTask yield proc =
     (case proc of
        None \<Rightarrow> Inr None
      | Some p \<Rightarrow> (case runningTask p of
            None \<Rightarrow> Inl Null_deref
          | Some t \<Rightarrow> bindE (set_status Block t p) (\<lambda>p1. bindE (yield p1) (\<lambda>p2. Inr (Some p2)))))"

definition TaskFunc_end ::
  "(('f, 'c, 'z) proc_scheme \<Rightarrow> fault + ('f, 'c, 'z) proc_scheme) \<Rightarrow> tptr \<Rightarrow> ('f, 'c, 'z) proc_scheme \<Rightarrow> fault + ('f, 'c, 'z) proc_scheme" where
  "TaskFunc_end yield t p = bindE (set_status Done t p) yield"

section \<open>The scheduling loop\<close>

text \<open>
  \<open>Wait\<close> is two pieces around the condition variable: what happens until the thread
  blocks (or finds a task after all), and what happens after it is woken. \<open>Start_iter\<close> is
  one round of the loop in \<open>Start\<close> up to the swap.
\<close>

definition Wait_enter :: "('f, 'c, 'z) proc_scheme \<Rightarrow> fault + (tptr option \<times> ('f, 'c, 'z) proc_scheme)" where
  "Wait_enter p =
     bindE (pop_runnable (p\<lparr>proc_status := Waiting\<rparr>)) (\<lambda>(r, p1).
       case r of
         Some t \<Rightarrow> Inr (Some t, p1\<lparr>proc_status := Running\<rparr>)
       | None \<Rightarrow> Inr (None, p1))"

definition Wait_resume :: "('f, 'c, 'z) proc_scheme \<Rightarrow> fault + (tptr option \<times> ('f, 'c, 'z) proc_scheme)" where
  "Wait_resume p = pop_runnable p"

datatype round = Stopped | Parked | Ran

definition Start_iter :: "('f, 'c, 'z) calls \<Rightarrow> ('f, 'c, 'z) proc_scheme \<Rightarrow> fault + (round \<times> ('f, 'c, 'z) proc_scheme)" where
  "Start_iter cs p =
     (if stop p then Inr (Stopped, p)
      else bindE (pop_runnable p) (\<lambda>(r, p1).
        case r of
          Some t \<Rightarrow> bindE (Swap_to cs (Coroutine t) (p1\<lparr>runningTask := Some t\<rparr>)) (\<lambda>p2. Inr (Ran, p2))
        | None \<Rightarrow> bindE (Wait_enter p1) (\<lambda>(r', p2).
            let p3 = p2\<lparr>runningTask := r'\<rparr>
            in case r' of
                 Some t \<Rightarrow> bindE (Swap_to cs (Coroutine t) p3) (\<lambda>p4. Inr (Ran, p4))
               | None \<Rightarrow> Inr (Parked, p3))))"


section \<open>The current processer\<close>

text \<open>
  \<open>GetCurProcesser\<close> is a pointer of each thread, null at first. \<open>Start\<close> sets the pointer of the thread
  that runs it, and the destructor resets that of the thread that destroys the processer. Threads and
  processers are named by numbers here; in the other definitions the current processer is the
  argument that they run on.
\<close>

type_synonym thread_ptrs = "nat \<Rightarrow> nat option"

definition GetCurProcesser :: "nat \<Rightarrow> thread_ptrs \<Rightarrow> nat option" where
  "GetCurProcesser thread ptrs = ptrs thread"

definition Start_enter :: "nat \<Rightarrow> nat \<Rightarrow> thread_ptrs \<Rightarrow> ('f, 'c, 'z) proc_scheme \<Rightarrow>
    thread_ptrs \<times> ('f, 'c, 'z) proc_scheme" where
  "Start_enter thread this ptrs p = (ptrs(thread := Some this), p\<lparr>proc_status := Running\<rparr>)"

definition Processer_destroy :: "nat \<Rightarrow> nat \<Rightarrow> thread_ptrs \<Rightarrow> thread_ptrs" where
  "Processer_destroy thread this ptrs =
     (if GetCurProcesser thread ptrs = Some this then ptrs(thread := None) else ptrs)"

section \<open>Lemmas\<close>

abbreviation queue :: "('f, 'c, 'z) proc_scheme \<Rightarrow> tptr list" where
  "queue p \<equiv> lfq_contents (runnableQueue p)"

lemma pop_runnable_Nil:
  assumes "lfq_invar (runnableQueue p)" "queue p = []"
  shows "\<exists>q. pop_runnable p = Inr (None, p\<lparr>runnableQueue := q\<rparr>) \<and> lfq_invar q \<and> lfq_contents q = []"
  using lfq.pop_Nil_law [OF assms] by (auto simp: pop_runnable_def)

lemma pop_runnable_Cons:
  assumes "lfq_invar (runnableQueue p)" "queue p = u # us"
  shows "\<exists>q. pop_runnable p = Inr (Some u, p\<lparr>runnableQueue := q\<rparr>) \<and> lfq_invar q \<and> lfq_contents q = us"
  using lfq.pop_Cons_law [OF assms] by (auto simp: pop_runnable_def)

lemma push_runnable_law:
  assumes "lfq_invar (runnableQueue p)" "length (queue p) < lfq_room"
  shows "\<exists>q. push_runnable t p = Inr (p\<lparr>runnableQueue := q\<rparr>) \<and> lfq_invar q \<and>
    lfq_contents q = queue p @ [t]"
  using lfq.push_law [OF assms, of t] by (auto simp: push_runnable_def)

text \<open>A task queue of a processer in order: tasks are live, and each is in one place only.\<close>

definition proc_inv :: "('f, 'c, 'z) proc_scheme \<Rightarrow> bool" where
  "proc_inv p \<longleftrightarrow>
     lfq_invar (runnableQueue p) \<and> pool_inv (taskPool p) \<and>
     distinct (queue p) \<and> set (queue p) \<subseteq> dom (store (taskPool p)) \<and>
     set (queue p) \<inter> set (idle (taskPool p)) = {} \<and>
     (\<forall>t. runningTask p = Some t \<longrightarrow>
        t \<in> dom (store (taskPool p)) \<and> t \<notin> set (queue p) \<and> t \<notin> set (idle (taskPool p)))"

text \<open>The release call with a stack check that answers \<open>small t\<close>, and no foreign closures.\<close>

definition checked_calls :: "(tptr \<Rightarrow> bool) \<Rightarrow> ('f, 'c, 'z) calls" where
  "checked_calls small = \<lparr>c_release = (\<lambda>t. Release_checked (small t) t), c_call = (\<lambda>_. Inr)\<rparr>"

lemma Release_checked_inv:
  assumes "pool_inv p" "t \<notin> set (idle p)" "store p t \<noteq> None" "length (idle p) < lfq_room"
  shows "\<exists>p'. Release_checked small t p = Inr p' \<and> pool_inv p' \<and>
    set (idle p') \<subseteq> insert t (set (idle p)) \<and> dom (store p) - {t} \<subseteq> dom (store p') \<and>
    (store p' t = None \<or> t \<in> set (idle p'))"
proof (cases "small")
  case True
  with Put_inv [OF assms] show ?thesis by (auto simp: Release_checked_def Put_def Delete_task_def
      get_task_def Let_def idle_def split: if_splits)
next
  case False
  with Delete_task_inv [OF assms(1-3)] show ?thesis
    by (auto simp: Release_checked_def Delete_task_def get_task_def)
qed

section \<open>Yield\<close>

lemma Yield_cur_running:
  assumes "runningTask p = Some t" "store (taskPool p) t = Some tk"
  shows "Yield_cur cs p = Yield_body cs (status tk) t (p\<lparr>runningTask := None\<rparr>)"
  using assms by (simp add: Yield_cur_def running_status_def get_task_def)

text \<open>The three outcomes of a yield on a processer that is not stopped.\<close>

lemma Yield_runnable_switch:
  assumes "lfq_invar (runnableQueue p)" "queue p = u # us" "length (queue p) < lfq_room"
    and "\<not> stop p" "LastScheToDos p = []"
  shows "\<exists>q. Yield_body cs Runnable t p = Inr (p\<lparr>runnableQueue := q, runningTask := Some u,
      cur := Coroutine u\<rparr>) \<and> lfq_invar q \<and> lfq_contents q = us @ [t]"
proof -
  let ?p1 = "p\<lparr>LastScheToDos := [Requeue t]\<rparr>"
  obtain q where q: "pop_runnable ?p1 = Inr (Some u, ?p1\<lparr>runnableQueue := q\<rparr>)"
    "lfq_invar q" "lfq_contents q = us"
    using pop_runnable_Cons [of ?p1 u us] assms by auto
  let ?p2 = "?p1\<lparr>runnableQueue := q, runningTask := Some u, cur := Coroutine u\<rparr>"
  obtain q' where "push_runnable t ?p2 = Inr (?p2\<lparr>runnableQueue := q'\<rparr>)" "lfq_invar q'"
    "lfq_contents q' = us @ [t]"
    using push_runnable_law [of ?p2 t] q assms by auto
  with q assms show ?thesis
    by (cases p) (auto simp: Yield_body_def Yield_todos_def Swap_to_def AfterLastSche_def Let_def)
qed

lemma Yield_runnable_alone:
  assumes "lfq_invar (runnableQueue p)" "queue p = []" "\<not> stop p" "LastScheToDos p = []"
    and "store (taskPool p) t = Some tk" "status tk = Runnable"
  shows "\<exists>q. Yield_body cs Runnable t p = Inr (p\<lparr>runnableQueue := q, runningTask := None\<rparr>) \<and>
    lfq_invar q \<and> lfq_contents q = []"
proof -
  let ?p1 = "p\<lparr>LastScheToDos := [Requeue t]\<rparr>"
  obtain q where q: "pop_runnable ?p1 = Inr (None, ?p1\<lparr>runnableQueue := q\<rparr>)"
    "lfq_invar q" "lfq_contents q = []"
    using pop_runnable_Nil [of ?p1] assms by auto
  with assms show ?thesis
    by (cases p) (auto simp: Yield_body_def Yield_todos_def AfterLastSche_def Let_def get_task_def)
qed

definition next_ctl :: "tptr list \<Rightarrow> ctl" where
  "next_ctl ts = (case ts of [] \<Rightarrow> Main | u # _ \<Rightarrow> Coroutine u)"

definition next_running :: "tptr list \<Rightarrow> tptr option" where
  "next_running ts = (case ts of [] \<Rightarrow> None | u # _ \<Rightarrow> Some u)"

lemma Yield_block:
  assumes "lfq_invar (runnableQueue p)" "\<not> stop p" "LastScheToDos p = []"
    and "store (taskPool p) t = Some tk" "status tk = Block"
  shows "\<exists>q. Yield_body cs Block t p = Inr (p\<lparr>runnableQueue := q,
      runningTask := next_running (queue p), cur := next_ctl (queue p)\<rparr>) \<and>
    lfq_invar q \<and> lfq_contents q = tl (queue p)"
proof (cases "queue p")
  case Nil
  with assms pop_runnable_Nil [of p] show ?thesis
    by (cases p) (auto simp: Yield_body_def Yield_todos_def Swap_to_def AfterLastSche_def Let_def
        get_task_def next_running_def next_ctl_def)
next
  case (Cons u us)
  with assms pop_runnable_Cons [of p u us] show ?thesis
    by (cases p) (auto simp: Yield_body_def Yield_todos_def Swap_to_def AfterLastSche_def Let_def
        get_task_def next_running_def next_ctl_def)
qed

lemma Yield_done:
  assumes "lfq_invar (runnableQueue p)" "\<not> stop p" "LastScheToDos p = []"
    and "store (taskPool p) t = Some tk" "status tk = Done"
    and "c_release cs t (taskPool p) = Inr pool"
  shows "\<exists>q. Yield_body cs Done t p = Inr (p\<lparr>runnableQueue := q, taskPool := pool,
      runningTask := next_running (queue p), cur := next_ctl (queue p)\<rparr>) \<and>
    lfq_invar q \<and> lfq_contents q = tl (queue p)"
proof -
  let ?p1 = "p\<lparr>LastScheToDos := [Release_task t]\<rparr>"
  show ?thesis
  proof (cases "queue p")
    case Nil
    with assms pop_runnable_Nil [of ?p1] show ?thesis
      by (cases p) (auto simp: Yield_body_def Yield_todos_def Swap_to_def AfterLastSche_def Let_def
          get_task_def next_running_def next_ctl_def)
  next
    case (Cons u us)
    with assms pop_runnable_Cons [of ?p1 u us] show ?thesis
      by (cases p) (auto simp: Yield_body_def Yield_todos_def Swap_to_def AfterLastSche_def Let_def
          get_task_def next_running_def next_ctl_def)
  qed
qed

lemma Yield_stopped:
  assumes "lfq_invar (runnableQueue p)" "length (queue p) < lfq_room" "stop p" "LastScheToDos p = []"
  shows "\<exists>q. Yield_body cs Runnable t p = Inr (p\<lparr>runnableQueue := q, cur := Main\<rparr>) \<and>
    lfq_invar q \<and> lfq_contents q = queue p @ [t]"
proof -
  let ?p1 = "p\<lparr>LastScheToDos := [Requeue t], cur := Main\<rparr>"
  obtain q where "push_runnable t ?p1 = Inr (?p1\<lparr>runnableQueue := q\<rparr>)" "lfq_invar q"
    "lfq_contents q = queue p @ [t]"
    using push_runnable_law [of ?p1 t] assms by auto
  with assms show ?thesis
    by (cases p) (auto simp: Yield_body_def Yield_todos_def Swap_to_def AfterLastSche_def Let_def)
qed


section \<open>Rotation\<close>

text \<open>The running task and the queue behind it, as one list.\<close>

definition line_up :: "('f, 'c, 'z) proc_scheme \<Rightarrow> tptr list" where
  "line_up p = (case runningTask p of None \<Rightarrow> queue p | Some t \<Rightarrow> t # queue p)"

definition all_runnable :: "('f, 'c, 'z) proc_scheme \<Rightarrow> bool" where
  "all_runnable p \<longleftrightarrow> (\<forall>t \<in> set (line_up p). \<exists>tk. store (taskPool p) t = Some tk \<and> status tk = Runnable)"

definition in_coroutine :: "('f, 'c, 'z) proc_scheme \<Rightarrow> bool" where
  "in_coroutine p \<longleftrightarrow> \<not> stop p \<and> LastScheToDos p = [] \<and> lfq_invar (runnableQueue p) \<and>
     (\<exists>t. runningTask p = Some t \<and> cur p = Coroutine t)"

fun yield_n :: "('f, 'c, 'z) calls \<Rightarrow> nat \<Rightarrow> ('f, 'c, 'z) proc_scheme \<Rightarrow> fault + ('f, 'c, 'z) proc_scheme" where
  "yield_n cs 0 p = Inr p"
| "yield_n cs (Suc n) p = bindE (Yield_cur cs p) (yield_n cs n)"

lemma Yield_cur_rotates:
  assumes p: "in_coroutine p" "all_runnable p" "queue p \<noteq> []" "length (queue p) < lfq_room"
  shows "\<exists>p'. Yield_cur cs p = Inr p' \<and> in_coroutine p' \<and> line_up p' = rotate1 (line_up p) \<and>
    taskPool p' = taskPool p \<and> length (queue p') = length (queue p)"
proof -
  obtain t tk u us where t: "runningTask p = Some t" "store (taskPool p) t = Some tk"
    "status tk = Runnable" "queue p = u # us"
    using p by (auto simp: in_coroutine_def all_runnable_def line_up_def neq_Nil_conv)
  let ?p1 = "p\<lparr>runningTask := None\<rparr>"
  from p t obtain q where "Yield_body cs Runnable t ?p1 = Inr (?p1\<lparr>runnableQueue := q,
      runningTask := Some u, cur := Coroutine u\<rparr>)" "lfq_invar q" "lfq_contents q = us @ [t]"
    using Yield_runnable_switch [of ?p1 u us cs t] by (auto simp: in_coroutine_def)
  with p t Yield_cur_running [OF t(1,2)] show ?thesis
    by (auto simp: in_coroutine_def line_up_def)
qed

lemma yield_n_rotates:
  assumes "in_coroutine p" "all_runnable p" "queue p \<noteq> []" "length (queue p) < lfq_room"
  shows "\<exists>p'. yield_n cs n p = Inr p' \<and> in_coroutine p' \<and> line_up p' = rotate n (line_up p)"
  using assms
proof (induction n arbitrary: p)
  case (Suc n)
  obtain p1 where p1: "Yield_cur cs p = Inr p1" "in_coroutine p1" "line_up p1 = rotate1 (line_up p)"
    "taskPool p1 = taskPool p" "length (queue p1) = length (queue p)"
    using Yield_cur_rotates [OF Suc.prems] by blast
  moreover have "all_runnable p1" using p1 Suc.prems(2) by (simp add: all_runnable_def)
  moreover have "queue p1 \<noteq> []" using p1(5) Suc.prems(3) by fastforce
  ultimately show ?case
    using Suc.IH [of p1] Suc.prems by (auto simp: rotate1_rotate_swap)
qed simp

text \<open>What a yield leaves behind, whichever way it goes.\<close>

definition yielded :: "('f, 'c, 'z) proc_scheme \<Rightarrow> ('f, 'c, 'z) proc_scheme \<Rightarrow> bool" where
  "yielded p p' \<longleftrightarrow> proc_inv p' \<and> LastScheToDos p' = [] \<and>
    cur p' = (case runningTask p' of Some u \<Rightarrow> Coroutine u
      | None \<Rightarrow> (if all_runnable p then cur p else Main))"

lemma yielded_runnable:
  assumes inv: "proc_inv p" "in_coroutine p" "length (queue p) < lfq_room"
    and t: "runningTask p = Some t" "store (taskPool p) t = Some tk" "status tk = Runnable"
  shows "\<exists>p'. Yield_body cs Runnable t (p\<lparr>runningTask := None\<rparr>) = Inr p' \<and> yielded p p'"
proof -
  let ?p1 = "p\<lparr>runningTask := None\<rparr>"
  have p1: "lfq_invar (runnableQueue ?p1)" "\<not> stop ?p1" "LastScheToDos ?p1 = []"
    using inv(2) by (auto simp: in_coroutine_def)
  show ?thesis
  proof (cases "queue p")
    case Nil
    with Yield_runnable_alone [of ?p1 t tk cs] p1 t obtain q where
      "Yield_body cs Runnable t ?p1 = Inr (?p1\<lparr>runnableQueue := q, runningTask := None\<rparr>)"
      "lfq_invar q" "lfq_contents q = []" by auto
    with inv t p1 Nil show ?thesis
      by (auto simp: yielded_def proc_inv_def all_runnable_def line_up_def)
  next
    case (Cons u us)
    with Yield_runnable_switch [of ?p1 u us cs t] p1 inv(3) obtain q where
      "Yield_body cs Runnable t ?p1 = Inr (?p1\<lparr>runnableQueue := q, runningTask := Some u,
         cur := Coroutine u\<rparr>)" "lfq_invar q" "lfq_contents q = us @ [t]" by auto
    with inv t p1 Cons show ?thesis by (auto simp: yielded_def proc_inv_def)
  qed
qed

lemma not_all_runnable:
  "runningTask p = Some t \<Longrightarrow> store (taskPool p) t = Some tk \<Longrightarrow> status tk \<noteq> Runnable \<Longrightarrow>
     \<not> all_runnable p"
  by (auto simp: all_runnable_def line_up_def)

lemma yielded_block:
  assumes inv: "proc_inv p" "in_coroutine p"
    and t: "runningTask p = Some t" "store (taskPool p) t = Some tk" "status tk = Block"
  shows "\<exists>p'. Yield_body cs Block t (p\<lparr>runningTask := None\<rparr>) = Inr p' \<and> yielded p p'"
proof -
  let ?p1 = "p\<lparr>runningTask := None\<rparr>"
  have p1: "lfq_invar (runnableQueue ?p1)" "\<not> stop ?p1" "LastScheToDos ?p1 = []"
    using inv(2) by (auto simp: in_coroutine_def)
  from Yield_block [of ?p1 t tk cs] p1 t obtain q where
    "Yield_body cs Block t ?p1 = Inr (?p1\<lparr>runnableQueue := q,
       runningTask := next_running (queue p), cur := next_ctl (queue p)\<rparr>)"
    "lfq_invar q" "lfq_contents q = tl (queue p)" by auto
  with inv t p1 not_all_runnable [OF t(1,2)] show ?thesis
    by (cases "queue p") (auto simp: yielded_def proc_inv_def next_running_def next_ctl_def)
qed

lemma yielded_done:
  assumes inv: "proc_inv p" "in_coroutine p" "length (idle (taskPool p)) < lfq_room"
    and t: "runningTask p = Some t" "store (taskPool p) t = Some tk" "status tk = Done"
  shows "\<exists>p'. Yield_body (checked_calls small) Done t (p\<lparr>runningTask := None\<rparr>) = Inr p' \<and> yielded p p'"
proof -
  let ?cs = "checked_calls small"
  let ?p1 = "p\<lparr>runningTask := None\<rparr>"
  have p1: "lfq_invar (runnableQueue ?p1)" "\<not> stop ?p1" "LastScheToDos ?p1 = []"
    using inv(2) by (auto simp: in_coroutine_def)
  have pool: "pool_inv (taskPool p)" "t \<notin> set (idle (taskPool p))" "store (taskPool p) t \<noteq> None"
    using inv t by (auto simp: proc_inv_def)
  from Release_checked_inv [OF this inv(3), of "small t"] obtain pl where
    pl: "Release_checked (small t) t (taskPool p) = Inr pl" "pool_inv pl"
    "set (idle pl) \<subseteq> insert t (set (idle (taskPool p)))"
    "dom (store (taskPool p)) - {t} \<subseteq> dom (store pl)" by blast
  with Yield_done [of ?p1 t tk ?cs pl] p1 t obtain q where
    "Yield_body ?cs Done t ?p1 = Inr (?p1\<lparr>runnableQueue := q, taskPool := pl,
       runningTask := next_running (queue p), cur := next_ctl (queue p)\<rparr>)"
    "lfq_invar q" "lfq_contents q = tl (queue p)" by (auto simp: checked_calls_def)
  moreover have qp: "set (queue p) \<inter> set (idle (taskPool p)) = {}" "t \<notin> set (queue p)"
    "set (queue p) \<subseteq> dom (store (taskPool p))" using inv t by (simp_all add: proc_inv_def)
  moreover have "set (queue p) \<inter> set (idle pl) = {}" "set (queue p) \<subseteq> dom (store pl)"
    using qp pl(3,4) by blast+
  ultimately show ?thesis using inv t p1 pl not_all_runnable [OF t(1,2)]
    by (cases "queue p") (auto simp: yielded_def proc_inv_def next_running_def next_ctl_def)
qed

section \<open>Sample states\<close>

definition sample_proc ::
  "tptr list \<Rightarrow> tptr option \<Rightarrow> (tptr \<Rightarrow> task_status) \<Rightarrow> (nat, unit) proc" where
  "sample_proc ts r st = \<lparr>stop = False, runningTask = r, runnableQueue = lfq_of ts,
     LastScheToDos = [], proc_id = 0, proc_status = Running, taskPool = sample_pool [] 0 100 st,
     cur = (case r of None \<Rightarrow> Main | Some t \<Rightarrow> Coroutine t)\<rparr>"

lemma sample_proc_sel [simp]:
  "stop (sample_proc ts r st) = False" "runningTask (sample_proc ts r st) = r"
  "runnableQueue (sample_proc ts r st) = lfq_of ts" "LastScheToDos (sample_proc ts r st) = []"
  "proc_status (sample_proc ts r st) = Running"
  "taskPool (sample_proc ts r st) = sample_pool [] 0 100 st"
  "cur (sample_proc ts r st) = (case r of None \<Rightarrow> Main | Some t \<Rightarrow> Coroutine t)"
  by (simp_all add: sample_proc_def)

lemma sample_proc_inv:
  assumes "distinct ts" "length ts \<le> lfq_room" "r \<notin> Some ` set ts"
  shows "proc_inv (sample_proc ts r st)"
  using assms by (auto simp: proc_inv_def sample_pool_inv image_iff)

lemma room3 [simp]: "Suc (Suc (Suc 0)) \<le> lfq_room" "Suc (Suc 0) \<le> lfq_room"
  "Suc (Suc 0) < lfq_room" "Suc 0 < lfq_room"
  by (simp_all add: lfq_room_def)

section \<open>Properties\<close>

text \<open>\<open>Yield\<close> as written dereferences a null pointer on every call: it releases
  \<open>runningTask_\<close> and then reads the status through it. So does every path that suspends
  the running task or ends a coroutine.\<close>

theorem yield_null_deref:
  "Yield cs p = Inl Null_deref \<and>
   (case SuspendTask (Yield cs) (Some p) of Inl _ \<Rightarrow> True | Inr _ \<Rightarrow> False) \<and>
   (case TaskFunc_end (Yield cs) t p of Inl _ \<Rightarrow> True | Inr _ \<Rightarrow> False)"
proof -
  have y: "Yield cs p = Inl Null_deref" for p
    by (simp add: Yield_def Let_def running_status_def)
  then show ?thesis
    by (auto simp: SuspendTask_def TaskFunc_end_def bindE_def y split: option.splits sum.splits)
qed




text \<open>A runnable task that yields with nobody else to run goes on running, and its
  requeueing is cancelled; but \<open>runningTask_\<close> stays null, so the next yield of the same
  task dereferences a null pointer even if the status is read through \<open>cur_task\<close>.\<close>

theorem yield_alone_forgets_task:
  assumes "in_coroutine p" "all_runnable p" "queue p = []"
  shows "\<exists>p'. Yield_cur cs p = Inr p' \<and> cur p' = cur p \<and> queue p' = [] \<and>
    LastScheToDos p' = [] \<and> runningTask p' = None \<and> Yield_cur cs p' = Inl Null_deref"
proof -
  obtain t tk where t: "runningTask p = Some t" "store (taskPool p) t = Some tk" "status tk = Runnable"
    using assms by (auto simp: in_coroutine_def all_runnable_def line_up_def)
  let ?p1 = "p\<lparr>runningTask := None\<rparr>"
  from assms t obtain q where "Yield_body cs Runnable t ?p1 = Inr (?p1\<lparr>runnableQueue := q,
      runningTask := None\<rparr>)" "lfq_contents q = []"
    using Yield_runnable_alone [of ?p1 t tk cs] by (auto simp: in_coroutine_def)
  with assms t Yield_cur_running [OF t(1,2)] show ?thesis
    by (auto simp: in_coroutine_def Yield_cur_def running_status_def)
qed

theorem yield_alone_forgets_task_witness:
  "\<exists>p'. Yield_cur (checked_calls (\<lambda>_. True)) (sample_proc [] (Some 10) (\<lambda>_. Runnable)) = Inr p' \<and>
    cur p' = Coroutine 10 \<and> runningTask p' = None"
  using yield_alone_forgets_task [of "sample_proc [] (Some 10) (\<lambda>_. Runnable)" "checked_calls (\<lambda>_. True)"]
  by (auto simp: in_coroutine_def all_runnable_def line_up_def)

text \<open>C22: every way of giving up the processor keeps the queues in order, once \<open>Yield\<close> and \<open>Release\<close>
  are repaired. As written \<open>Yield\<close> faults whatever the state (\<open>yield_null_deref\<close>) and \<open>Release\<close> never
  returns (\<open>release_never_returns\<close>); this is about \<open>Yield_cur\<close>, which reads the status through \<open>cur_task\<close>,
  and \<open>Release_checked\<close>, whose stack check returns an answer. Whatever the status of the running task
  (runnable, blocked, or done and handed back to the pool with whatever answer), the yield returns
  without a fault, and afterwards queued, idle and running tasks are again live, distinct and
  in one place each; the deferred list is empty, and control is with the task that
  \<open>runningTask_\<close> names, with the scheduling loop, or, for a lone runnable task, where it
  was.\<close>

theorem yield_keeps_inv:
  assumes inv: "proc_inv p" and c: "in_coroutine p"
    and room: "length (queue p) < lfq_room" "length (idle (taskPool p)) < lfq_room"
  shows "\<exists>p'. Yield_cur (checked_calls small) p = Inr p' \<and> proc_inv p' \<and> LastScheToDos p' = [] \<and>
    cur p' = (case runningTask p' of Some u \<Rightarrow> Coroutine u
      | None \<Rightarrow> (if all_runnable p then cur p else Main))"
proof -
  obtain t tk where t: "runningTask p = Some t" "store (taskPool p) t = Some tk"
    using inv c by (auto simp: in_coroutine_def proc_inv_def)
  have "\<exists>p'. Yield_body (checked_calls small) (status tk) t (p\<lparr>runningTask := None\<rparr>) = Inr p' \<and> yielded p p'"
    using yielded_runnable [OF inv c room(1) t] yielded_block [OF inv c t]
      yielded_done [OF inv c room(2) t] by (cases "status tk") auto
  then show ?thesis unfolding Yield_cur_running [OF t] yielded_def .
qed

theorem yield_keeps_inv_witness:
  "\<exists>p'. Yield_cur (checked_calls (\<lambda>_. True)) (sample_proc [11] (Some 10) (\<lambda>_. Done)) = Inr p' \<and>
    proc_inv p'"
proof -
  let ?p = "sample_proc [11] (Some 10) (\<lambda>_. Done)"
  have "proc_inv ?p" by (rule sample_proc_inv) auto
  moreover have "in_coroutine ?p" by (simp add: in_coroutine_def)
  ultimately show ?thesis
    using yield_keeps_inv [of ?p "\<lambda>_. True"] by (auto simp: sample_pool_inv)
qed


text \<open>Stealing moves tasks without losing or duplicating one: \<open>Steal n\<close> takes the first
  \<open>n\<close> tasks of the victim in order (all of them when it has fewer), and \<open>AddTask\<close> puts
  them behind the thief's own and wakes it if it waits.\<close>

theorem steal_then_add:
  assumes "proc_inv src" "proc_inv dst" "0 < n"
    and "length (queue dst) + n \<le> lfq_room"
  shows "\<exists>ts src' dst'. Steal n src = Inr (ts, src') \<and> AddTask_list ts dst = Inr dst' \<and>
    ts = take n (queue src) \<and> queue src = ts @ queue src' \<and> queue dst' = queue dst @ ts \<and>
    proc_status dst' = Running"
proof -
  have inv: "lfq_invar (runnableQueue src)" "lfq_invar (runnableQueue dst)"
    using assms(1,2) by (auto simp: proc_inv_def)
  from lfq.pop_n_law [OF inv(1), of n] obtain q where
    q: "pop_n lfq_pop n (runnableQueue src) = Inr (take n (queue src), q)"
    "lfq_contents q = drop n (queue src)" by blast
  have "length (queue dst) + length (take n (queue src)) \<le> lfq_room"
    using assms(4) by (simp add: min_def)
  from lfq.push_all_law [OF inv(2) this] obtain q' where
    "push_all lfq_push (take n (queue src)) (runnableQueue dst) = Inr q'"
    "lfq_contents q' = queue dst @ take n (queue src)" by blast
  with q assms(3) show ?thesis
    by (cases "proc_status dst") (auto simp: Steal_def AddTask_list_def WakeUp_def Let_def)
qed

theorem steal_then_add_witness:
  "\<exists>ts src' dst'. Steal 2 (sample_proc [11, 12, 13] None (\<lambda>_. Runnable)) = Inr (ts, src') \<and>
    AddTask_list ts (sample_proc [20] None (\<lambda>_. Runnable)) = Inr dst' \<and>
    queue src' = [13] \<and> queue dst' = [20, 11, 12]"
proof -
  have inv: "proc_inv (sample_proc [11, 12, 13] None (\<lambda>_. Runnable))"
    "proc_inv (sample_proc [20] None (\<lambda>_. Runnable))"
    by (rule sample_proc_inv; simp)+
  have c: "lfq_contents (lfq_of [11, 12, 13]) = [11, 12, 13 :: tptr]"
    "lfq_contents (lfq_of [20]) = [20 :: tptr]" by simp_all
  then have "length (queue (sample_proc [20] None (\<lambda>_. Runnable))) + 2 \<le> lfq_room" by simp
  from steal_then_add [OF inv _ this] show ?thesis by (auto simp: c)
qed

text \<open>Adding a function as a task never succeeds: the pool's \<open>Get\<close> cannot hand the task
  back through its by-value output parameter, so the pointer the processer then queues is
  indeterminate.\<close>

theorem add_function_never_queues:
  "\<exists>e. AddTask_func env fresh f p = Inl e \<and>
    (pool_inv (taskPool p) \<and> idle (taskPool p) \<noteq> [] \<longrightarrow> e = Uninit_read)"
proof (cases "Get_out env fresh (None :: tptr option) f TaskFunc (taskPool p)")
  case (Inl e)
  then show ?thesis
    using Get_out_idle [of "taskPool p" _ _ env fresh "None :: tptr option" f TaskFunc]
    by (auto simp: AddTask_func_def neq_Nil_conv)
next
  case (Inr r)
  obtain out pl where r: "r = (out, pl)" by force
  with Inr have "out = None" by (auto simp: Get_out_def bindE_eq_Inr)
  with Inr r show ?thesis by (simp add: AddTask_func_def Let_def)
qed

theorem add_function_never_queues_witness:
  "AddTask_func sample_os 9 (3 :: nat) ((sample_proc [] None (\<lambda>_. Done))
     \<lparr>taskPool := sample_pool [5] 1 1 (\<lambda>_. Done)\<rparr>) = Inl Uninit_read"
  using add_function_never_queues [of sample_os 9 "3 :: nat" "(sample_proc [] None (\<lambda>_. Done))
     \<lparr>taskPool := sample_pool [5] 1 1 (\<lambda>_. Done)\<rparr>"]
  by (auto simp: sample_pool_inv)

text \<open>C28: a task that has once been suspended is lost by its next voluntary yield. Nothing sets the
  status of a woken task back to runnable: a coroutine that suspends itself, is put back into the
  queue and runs again is still marked blocked, and when it then calls \<open>Yield\<close> it is not
  requeued. It is in no queue, its processer has nothing to run, and nobody holds it any more. This is
  the repaired yield, \<open>Yield_cur\<close>, which reads the status through \<open>cur_task\<close>; as written the first
  suspension faults already (\<open>yield_null_deref\<close>).\<close>

theorem woken_task_lost_by_yield:
  assumes "in_coroutine p" "runningTask p = Some t" "store (taskPool p) t = Some tk" "queue p = []"
  shows "\<exists>p1 p2 p3 p4. SuspendTask (Yield_cur cs) (Some p) = Inr (Some p1) \<and>
    AddTask_list [t] p1 = Inr p2 \<and> queue p2 = [t] \<and>
    Start_iter cs p2 = Inr (Ran, p3) \<and> in_coroutine p3 \<and> runningTask p3 = Some t \<and>
    Yield_cur cs p3 = Inr p4 \<and> runningTask p4 = None \<and> queue p4 = [] \<and> LastScheToDos p4 = [] \<and>
    cur p4 = Main"
proof -
  let ?b = "tk\<lparr>status := Block\<rparr>"
  let ?p = "p\<lparr>taskPool := put_task t ?b (taskPool p)\<rparr>"
  have c: "lfq_invar (runnableQueue p)" "\<not> stop p" "LastScheToDos p = []"
    using assms(1) by (auto simp: in_coroutine_def)
  have st: "store (put_task t ?b (taskPool p)) t = Some ?b" by (simp add: put_task_def)
  have yields: "\<exists>q. Yield_cur cs x = Inr (x\<lparr>runnableQueue := q, runningTask := None, cur := Main\<rparr>) \<and>
      lfq_invar q \<and> lfq_contents q = []"
    if "runningTask x = Some t" "taskPool x = taskPool ?p" "\<not> stop x" "LastScheToDos x = []"
      "lfq_invar (runnableQueue x)" "queue x = []" for x
    using that Yield_block [of "x\<lparr>runningTask := None\<rparr>" t ?b cs] Yield_cur_running [of x t ?b cs] st
    by (auto simp: next_running_def next_ctl_def)
  obtain q1 where q1: "Yield_cur cs ?p = Inr (?p\<lparr>runnableQueue := q1, runningTask := None, cur := Main\<rparr>)"
    "lfq_invar q1" "lfq_contents q1 = []" using yields [of ?p] c assms by auto
  let ?p1 = "?p\<lparr>runnableQueue := q1, runningTask := None, cur := Main\<rparr>"
  have p1: "SuspendTask (Yield_cur cs) (Some p) = Inr (Some ?p1)"
    using assms(2,3) q1(1) by (simp add: SuspendTask_def set_status_def get_task_def)
  from lfq.push_law [OF q1(2), of t] q1(3) obtain q2 where
    q2: "lfq_push t q1 = Inr q2" "lfq_invar q2" "lfq_contents q2 = [t]" by auto
  let ?p2 = "?p1\<lparr>runnableQueue := q2, proc_status := Running\<rparr>"
  have p2: "AddTask_list [t] ?p1 = Inr ?p2"
    using q2(1) by (cases p; cases "proc_status p") (simp_all add: AddTask_list_def WakeUp_def Let_def)
  from lfq.pop_Cons_law [OF q2(2,3)] obtain q3 where
    q3: "lfq_pop q2 = Inr (Some t, q3)" "lfq_invar q3" "lfq_contents q3 = []" by auto
  let ?p3 = "?p2\<lparr>runnableQueue := q3, runningTask := Some t, cur := Coroutine t\<rparr>"
  have p3: "Start_iter cs ?p2 = Inr (Ran, ?p3)"
    using q3(1) c by (cases p) (simp add: Start_iter_def pop_runnable_def Swap_to_def AfterLastSche_def)
  obtain q4 where "Yield_cur cs ?p3 = Inr (?p3\<lparr>runnableQueue := q4, runningTask := None, cur := Main\<rparr>)"
    "lfq_contents q4 = []" using yields [of ?p3] q3 c by auto
  with p1 p2 p3 q2 q3 c show ?thesis by (simp add: in_coroutine_def)
qed

theorem woken_task_lost_by_yield_witness:
  "\<exists>p1 p2 p3 p4. SuspendTask (Yield_cur (checked_calls (\<lambda>_. True)))
      (Some (sample_proc [] (Some 10) (\<lambda>_. Runnable))) = Inr (Some p1) \<and>
    AddTask_list [10] p1 = Inr p2 \<and> Start_iter (checked_calls (\<lambda>_. True)) p2 = Inr (Ran, p3) \<and>
    Yield_cur (checked_calls (\<lambda>_. True)) p3 = Inr p4 \<and> queue p4 = [] \<and> runningTask p4 = None"
  using woken_task_lost_by_yield [of "sample_proc [] (Some 10) (\<lambda>_. Runnable)" 10 _ "checked_calls (\<lambda>_. True)"]
  by (auto simp: in_coroutine_def)

text \<open>After \<open>Stop\<close> no coroutine is started: the next yield of the running task hands
  control to the scheduling loop, which puts the task back into the queue and then leaves
  the loop.\<close>

theorem stop_runs_nothing:
  assumes "in_coroutine p" "all_runnable p" "length (queue p) < lfq_room"
  shows "\<exists>t p'. runningTask p = Some t \<and> Yield_cur cs (Stop p) = Inr p' \<and> cur p' = Main \<and>
    queue p' = queue p @ [t] \<and> Start_iter cs p' = Inr (Stopped, p')"
proof -
  obtain t tk where t: "runningTask p = Some t" "store (taskPool p) t = Some tk" "status tk = Runnable"
    using assms by (auto simp: in_coroutine_def all_runnable_def line_up_def)
  let ?p1 = "(Stop p)\<lparr>runningTask := None\<rparr>"
  have s: "lfq_invar (runnableQueue ?p1)" "queue ?p1 = queue p" "stop ?p1" "LastScheToDos ?p1 = []"
    using assms(1) by (auto simp: in_coroutine_def Stop_def WakeUp_def)
  obtain q where "Yield_body cs Runnable t ?p1 = Inr (?p1\<lparr>runnableQueue := q, cur := Main\<rparr>)"
    "lfq_contents q = queue p @ [t]"
    using Yield_stopped [OF s(1) _ s(3,4), of cs t] assms(3) unfolding s(2) by auto
  moreover have "Yield_cur cs (Stop p) = Yield_body cs Runnable t ?p1"
    using Yield_cur_running [of "Stop p" t tk cs] t by (simp add: Stop_def WakeUp_def)
  ultimately show ?thesis using t s(3) by (simp add: Start_iter_def)
qed

theorem stop_runs_nothing_witness:
  "\<exists>p'. Yield_cur (checked_calls (\<lambda>_. True)) (Stop (sample_proc [11] (Some 10) (\<lambda>_. Runnable))) = Inr p' \<and>
    queue p' = [11, 10] \<and> Start_iter (checked_calls (\<lambda>_. True)) p' = Inr (Stopped, p')"
  using stop_runs_nothing [of "sample_proc [11] (Some 10) (\<lambda>_. Runnable)" "checked_calls (\<lambda>_. True)"]
  by (auto simp: in_coroutine_def all_runnable_def line_up_def)

text \<open>The destructor clears the pointer of the destroying thread only: a thread that has run a
  processer which another thread destroys keeps the pointer to it, and its hooks and \<open>SuspendTask\<close>
  use it.\<close>

theorem destroyed_processer_stays_current:
  assumes "worker \<noteq> owner"
  shows "GetCurProcesser worker (Processer_destroy owner this (fst (Start_enter worker this ptrs p))) = Some this \<and>
    GetCurProcesser worker (Processer_destroy worker this (fst (Start_enter worker this ptrs p))) = None"
  using assms by (simp add: GetCurProcesser_def Processer_destroy_def Start_enter_def)

theorem destroyed_processer_stays_current_witness:
  "GetCurProcesser 1 (Processer_destroy 0 7 (fst (Start_enter 1 7 (\<lambda>_. None)
     (sample_proc [] None (\<lambda>_. Runnable))))) = Some 7"
  using destroyed_processer_stays_current [of 1 0 7 "\<lambda>_. None" "sample_proc [] None (\<lambda>_. Runnable)"]
  by blast

end
