(* ===== verification/Channel.thy ===== *)
theory Channel
  imports Co_Mutex Processer "HOL-Library.Sublist"
begin

text \<open>
  The channel of \<open>sync/co_chan.hpp\<close>. A waiting call leaves an item with references to its
  local error flag and to a data variable (the sender's value or the receiver's target); the
  references are addresses of \<open>flag\<close> and \<open>cell\<close>, so that writes through them are visible as
  writes of the variables they name. \<open>chan_send\<close>, \<open>chan_recv\<close> and \<open>chan_Close\<close> are the
  bodies of the operations inside the critical section, run on the current processer \<open>host\<close>;
  a body ends in \<open>Suspended\<close> when it reaches \<open>SuspendTask\<close>. \<open>with_mutex\<close> puts the
  \<open>unique_lock\<close> around them; the mutex stays locked while a call is suspended.
\<close>

section \<open>State\<close>

type_synonym ref = nat

record send_item =
  s_isError :: ref
  s_task :: tptr
  s_data :: ref

record recv_item =
  r_isError :: ref
  r_task :: tptr
  r_data :: ref

record 'a chan =
  mtx :: comutex
  closed :: bool
  capacity :: u32
  buffer :: "'a list"
  sendQueue :: "send_item list"
  recvQueue :: "recv_item list"

record ('a, 'f, 'c) world =
  chan :: "'a chan"
  flag :: "ref \<Rightarrow> bool"
  cell :: "ref \<Rightarrow> 'a"
  host :: "('f, 'c) proc"

datatype outcome = Returned | Suspended

definition Channel_new :: "comutex \<Rightarrow> u32 \<Rightarrow> 'a chan" where
  "Channel_new m cap = \<lparr>mtx = m, closed = False, capacity = cap, buffer = [], sendQueue = [],
     recvQueue = []\<rparr>"

definition with_chan :: "('a chan \<Rightarrow> 'a chan) \<Rightarrow> ('a, 'f, 'c) world \<Rightarrow> ('a, 'f, 'c) world" where
  "with_chan g w = w\<lparr>chan := g (chan w)\<rparr>"

definition set_flag :: "ref \<Rightarrow> bool \<Rightarrow> ('a, 'f, 'c) world \<Rightarrow> ('a, 'f, 'c) world" where
  "set_flag r b w = w\<lparr>flag := (flag w)(r := b)\<rparr>"

definition set_cell :: "ref \<Rightarrow> 'a \<Rightarrow> ('a, 'f, 'c) world \<Rightarrow> ('a, 'f, 'c) world" where
  "set_cell r x w = w\<lparr>cell := (cell w)(r := x)\<rparr>"

definition wake_task :: "tptr \<Rightarrow> ('a, 'f, 'c) world \<Rightarrow> fault + ('a, 'f, 'c) world" where
  "wake_task t w = bindE (AddTask_list [t] (host w)) (\<lambda>p. Inr (w\<lparr>host := p\<rparr>))"

lemma world_simps [simp]:
  "chan (with_chan g w) = g (chan w)" "flag (with_chan g w) = flag w"
  "cell (with_chan g w) = cell w" "host (with_chan g w) = host w"
  "chan (set_flag r b w) = chan w" "flag (set_flag r b w) = (flag w)(r := b)"
  "cell (set_flag r b w) = cell w" "host (set_flag r b w) = host w"
  "chan (set_cell r x w) = chan w" "flag (set_cell r x w) = flag w"
  "cell (set_cell r x w) = (cell w)(r := x)" "host (set_cell r x w) = host w"
  by (simp_all add: with_chan_def set_flag_def set_cell_def)

section \<open>Operations\<close>

definition chan_Close :: "('a, 'f, 'c) world \<Rightarrow> fault + ('a, 'f, 'c) world" where
  "chan_Close w =
     (if closed (chan w) then Inr w
      else let w0 = with_chan (closed_update (\<lambda>_. True)) w
        in bindE (foldE (\<lambda>it w. wake_task (s_task it) (set_flag (s_isError it) True w))
                    (sendQueue (chan w0)) w0) (\<lambda>w1.
           let w2 = with_chan (sendQueue_update (\<lambda>_. [])) w1
           in bindE (foldE (\<lambda>it w. wake_task (r_task it) (set_flag (r_isError it) True w))
                       (recvQueue (chan w2)) w2) (\<lambda>w3.
              Inr (with_chan (recvQueue_update (\<lambda>_. [])) w3))))"

definition chan_send ::
  "ref \<Rightarrow> ref \<Rightarrow> ('a, 'f, 'c) world \<Rightarrow> fault + (outcome \<times> ('a, 'f, 'c) world)" where
  "chan_send isError data w =
     (if closed (chan w) then Inl (Thrown ''channel closed'')
      else case recvQueue (chan w) of
        front # rest \<Rightarrow>
          let w1 = with_chan (recvQueue_update (\<lambda>_. rest)) w;
              w2 = set_cell (r_data front) (cell w1 data) w1
          in bindE (wake_task (r_task front) w2) (\<lambda>w3. Inr (Returned, w3))
      | [] \<Rightarrow>
          if length (buffer (chan w)) < unat (capacity (chan w))
          then Inr (Returned, with_chan (buffer_update (\<lambda>b. b @ [cell w data])) w)
          else case runningTask (host w) of
            None \<Rightarrow> Inl Null_deref
          | Some t \<Rightarrow>
              let item = \<lparr>s_isError = isError, s_task = t, s_data = data\<rparr>
              in Inr (Suspended, with_chan (sendQueue_update (\<lambda>q. q @ [item])) (set_flag isError False w)))"

definition chan_recv ::
  "ref \<Rightarrow> ref \<Rightarrow> ('a, 'f, 'c) world \<Rightarrow> fault + (outcome \<times> ('a, 'f, 'c) world)" where
  "chan_recv isError data w =
     (if closed (chan w) \<and> buffer (chan w) = [] then Inl (Thrown ''channel closed'')
      else case buffer (chan w) of
        x # xs \<Rightarrow>
          let w1 = with_chan (buffer_update (\<lambda>_. xs)) (set_cell data x w)
          in (case sendQueue (chan w1) of
                [] \<Rightarrow> Inr (Returned, w1)
              | front # rest \<Rightarrow>
                  let w2 = with_chan (sendQueue_update (\<lambda>_. rest)) w1;
                      w3 = with_chan (buffer_update (\<lambda>b. b @ [cell w2 (s_data front)])) w2
                  in bindE (wake_task (s_task front) w3) (\<lambda>w4. Inr (Returned, w4)))
      | [] \<Rightarrow>
          (case (if capacity (chan w) = 0 then sendQueue (chan w) else []) of
             front # rest \<Rightarrow>
               let w1 = with_chan (sendQueue_update (\<lambda>_. rest)) w;
                   w2 = set_cell data (cell w1 (s_data front)) w1
               in bindE (wake_task (s_task front) w2) (\<lambda>w3. Inr (Returned, w3))
           | [] \<Rightarrow>
               case runningTask (host w) of
                 None \<Rightarrow> Inl Null_deref
               | Some t \<Rightarrow>
                   let item = \<lparr>r_isError = isError, r_task = t, r_data = data\<rparr>
                   in Inr (Suspended, with_chan (recvQueue_update (\<lambda>q. q @ [item]))
                                        (set_flag isError False w))))"

text \<open>
  What a suspended call does when its task runs again: on an error it builds an exception
  object and drops it (there is no \<open>throw\<close>), then it returns.
\<close>

definition after_suspend :: "ref \<Rightarrow> ('a, 'f, 'c) world \<Rightarrow> fault + outcome" where
  "after_suspend isError w =
     (let dropped = (if flag w isError then Some (Thrown ''channel closed'') else None)
      in case dropped of None \<Rightarrow> Inr Returned | Some _ \<Rightarrow> Inr Returned)"

text \<open>The \<open>unique_lock\<close> around a body: released on return and when an exception unwinds.\<close>

definition unlock_mtx ::
  "nat \<Rightarrow> tptr \<Rightarrow> ('a, 'f, 'c) world \<Rightarrow> fault + ('a, 'f, 'c) world" where
  "unlock_mtx fuel t w =
     bindE (cm_exec fuel t U_load (mtx (chan w))) (\<lambda>(pc, m, ts).
       foldE wake_task ts (with_chan (mtx_update (\<lambda>_. m)) w))"

definition with_mutex ::
  "nat \<Rightarrow> tptr \<Rightarrow> (('a, 'f, 'c) world \<Rightarrow> fault + (outcome \<times> ('a, 'f, 'c) world))
    \<Rightarrow> ('a, 'f, 'c) world \<Rightarrow> fault + (outcome \<times> ('a, 'f, 'c) world)" where
  "with_mutex fuel t body w =
     bindE (cm_exec fuel t L_load (mtx (chan w))) (\<lambda>(pc, m, ts).
       let w1 = with_chan (mtx_update (\<lambda>_. m)) w
       in case body w1 of
            Inr (Returned, w2) \<Rightarrow> bindE (unlock_mtx fuel t w2) (\<lambda>w3. Inr (Returned, w3))
          | Inr (Suspended, w2) \<Rightarrow> Inr (Suspended, w2)
          | Inl e \<Rightarrow> bindE (unlock_mtx fuel t w1) (\<lambda>_. Inl e))"

section \<open>Invariant\<close>

text \<open>The values sent and not yet received, in the order in which they will be received.\<close>

definition in_flight :: "('a, 'f, 'c) world \<Rightarrow> 'a list" where
  "in_flight w = buffer (chan w) @ map (\<lambda>it. cell w (s_data it)) (sendQueue (chan w))"

definition chan_inv :: "'a chan \<Rightarrow> bool" where
  "chan_inv c \<longleftrightarrow> length (buffer c) \<le> unat (capacity c) \<and>
     (recvQueue c \<noteq> [] \<longrightarrow> buffer c = [] \<and> sendQueue c = []) \<and>
     (sendQueue c \<noteq> [] \<longrightarrow> length (buffer c) = unat (capacity c)) \<and>
     (closed c \<longrightarrow> sendQueue c = [] \<and> recvQueue c = [])"

lemma chan_inv_new [simp]: "chan_inv (Channel_new m cap)"
  by (simp add: chan_inv_def Channel_new_def)

lemma wake_task_frame:
  "wake_task t w = Inr w' \<Longrightarrow> chan w' = chan w \<and> flag w' = flag w \<and> cell w' = cell w"
  by (auto simp: wake_task_def bindE_eq_Inr)

lemma wake_send_frame:
  "foldE (\<lambda>it w. wake_task (s_task it) (set_flag (s_isError it) True w)) its w = Inr w' \<Longrightarrow>
     chan w' = chan w \<and> cell w' = cell w"
  by (induction its arbitrary: w) (auto simp: bindE_eq_Inr dest!: wake_task_frame)

lemma wake_recv_frame:
  "foldE (\<lambda>it w. wake_task (r_task it) (set_flag (r_isError it) True w)) its w = Inr w' \<Longrightarrow>
     chan w' = chan w \<and> cell w' = cell w"
  by (induction its arbitrary: w) (auto simp: bindE_eq_Inr dest!: wake_task_frame)

lemma chan_Close_result:
  "chan_Close w = Inr w' \<Longrightarrow> cell w' = cell w \<and>
     chan w' = (if closed (chan w) then chan w
                else (chan w)\<lparr>closed := True, sendQueue := [], recvQueue := []\<rparr>)"
  by (auto simp: chan_Close_def bindE_eq_Inr Let_def split: if_splits
      dest!: wake_send_frame wake_recv_frame)

text \<open>What one operation does to the channel and to the variables, on every branch.\<close>

lemma chan_send_result:
  assumes "chan_send e d w = Inr (oc, w')"
  shows "\<not> closed (chan w) \<and>
    (case recvQueue (chan w) of
       front # rest \<Rightarrow> oc = Returned \<and> chan w' = (chan w)\<lparr>recvQueue := rest\<rparr> \<and>
         cell w' = (cell w)(r_data front := cell w d)
     | [] \<Rightarrow> cell w' = cell w \<and>
         (if length (buffer (chan w)) < unat (capacity (chan w))
          then oc = Returned \<and> chan w' = (chan w)\<lparr>buffer := buffer (chan w) @ [cell w d]\<rparr>
          else oc = Suspended \<and> (\<exists>t. runningTask (host w) = Some t \<and>
            chan w' = (chan w)\<lparr>sendQueue := sendQueue (chan w) @
              [\<lparr>s_isError = e, s_task = t, s_data = d\<rparr>]\<rparr>)))"
  using assms
  by (cases "recvQueue (chan w)")
    (auto simp: chan_send_def bindE_eq_Inr Let_def split: if_splits option.splits
      dest!: wake_task_frame)

lemma chan_recv_result:
  assumes "chan_recv e d w = Inr (oc, w')"
  shows "case buffer (chan w) of
      x # xs \<Rightarrow> oc = Returned \<and> cell w' = (cell w)(d := x) \<and>
        (case sendQueue (chan w) of
           [] \<Rightarrow> chan w' = (chan w)\<lparr>buffer := xs\<rparr>
         | front # rest \<Rightarrow> chan w' = (chan w)\<lparr>
             buffer := xs @ [cell w' (s_data front)], sendQueue := rest\<rparr>)
    | [] \<Rightarrow> \<not> closed (chan w) \<and>
        (case (if capacity (chan w) = 0 then sendQueue (chan w) else []) of
           front # rest \<Rightarrow> oc = Returned \<and> cell w' = (cell w)(d := cell w (s_data front)) \<and>
             chan w' = (chan w)\<lparr>sendQueue := rest\<rparr>
         | [] \<Rightarrow> oc = Suspended \<and> cell w' = cell w \<and> (\<exists>t. runningTask (host w) = Some t \<and>
             chan w' = (chan w)\<lparr>recvQueue := recvQueue (chan w) @
               [\<lparr>r_isError = e, r_task = t, r_data = d\<rparr>]\<rparr>))"
proof (cases "buffer (chan w)")
  case Nil
  then show ?thesis using assms
    by (cases "if capacity (chan w) = 0 then sendQueue (chan w) else []")
      (auto simp: chan_recv_def bindE_eq_Inr Let_def split: if_splits option.splits
        dest!: wake_task_frame)
next
  case (Cons x xs)
  then show ?thesis using assms
    by (cases "sendQueue (chan w)")
      (auto simp: chan_recv_def bindE_eq_Inr Let_def split: if_splits option.splits
        dest!: wake_task_frame)
qed

lemma chan_send_inv:
  "chan_send e d w = Inr (oc, w') \<Longrightarrow> chan_inv (chan w) \<Longrightarrow> chan_inv (chan w')"
  by (drule chan_send_result)
    (cases "recvQueue (chan w)"; auto simp: chan_inv_def split: if_splits)

lemma chan_recv_inv:
  "chan_recv e d w = Inr (oc, w') \<Longrightarrow> chan_inv (chan w) \<Longrightarrow> chan_inv (chan w')"
  by (drule chan_recv_result)
    (cases "buffer (chan w)"; cases "sendQueue (chan w)";
      auto simp: chan_inv_def unat_eq_zero split: if_splits)

lemma chan_Close_inv: "chan_Close w = Inr w' \<Longrightarrow> chan_inv (chan w) \<Longrightarrow> chan_inv (chan w')"
  by (drule chan_Close_result) (auto simp: chan_inv_def)

section \<open>Histories\<close>

text \<open>
  Any number of tasks use one channel, one body after the other, as the mutex is meant to have it;
  the code's \<open>lock\<close> excludes nobody (\<open>lock_excludes_nobody\<close>), so this is the case that no two bodies
  overlap. The history
  records the values sent, the values found in the receivers' variables, and the values of the
  senders that a close turned away. Between operations a task may write its own variables, but
  not one whose reference a suspended sender has left in the channel; nor does a receive name
  such a variable as its target. Everything else about the processer may change at any time.
\<close>

record ('a, 'f, 'c) history =
  world :: "('a, 'f, 'c) world"
  sent :: "'a list"
  got :: "'a list"
  dropped :: "'a list"

inductive chan_step :: "('a, 'f, 'c) history \<Rightarrow> ('a, 'f, 'c) history \<Rightarrow> bool" where
  send: "chan_send e d (world s) = Inr (oc, w') \<Longrightarrow>
    chan_step s (s\<lparr>world := w', sent := sent s @ [cell (world s) d],
      got := got s @ (case recvQueue (chan (world s)) of [] \<Rightarrow> [] | it # _ \<Rightarrow> [cell w' (r_data it)])\<rparr>)"
| recv: "chan_recv e d (world s) = Inr (oc, w') \<Longrightarrow>
    d \<notin> s_data ` set (sendQueue (chan (world s))) \<Longrightarrow>
    chan_step s (s\<lparr>world := w', got := got s @ (if oc = Returned then [cell w' d] else [])\<rparr>)"
| close: "chan_Close (world s) = Inr w' \<Longrightarrow>
    chan_step s (s\<lparr>world := w', dropped := dropped s @
      (if closed (chan (world s)) then []
       else map (\<lambda>it. cell (world s) (s_data it)) (sendQueue (chan (world s))))\<rparr>)"
| assign: "d \<notin> s_data ` set (sendQueue (chan (world s))) \<Longrightarrow>
    chan_step s (s\<lparr>world := set_cell d x (world s)\<rparr>)"
| elsewhere: "chan_step s (s\<lparr>world := (world s)\<lparr>host := p\<rparr>\<rparr>)"

definition chan_start :: "('a, 'f, 'c) history \<Rightarrow> bool" where
  "chan_start s \<longleftrightarrow> (\<exists>m cap. chan (world s) = Channel_new m cap) \<and>
     sent s = [] \<and> got s = [] \<and> dropped s = []"

definition fifo_inv :: "('a, 'f, 'c) history \<Rightarrow> bool" where
  "fifo_inv s \<longleftrightarrow> chan_inv (chan (world s)) \<and>
     sent s = got s @ in_flight (world s) @ dropped s \<and>
     (dropped s \<noteq> [] \<longrightarrow> closed (chan (world s)))"

lemma fifo_inv_start: "chan_start s \<Longrightarrow> fifo_inv s"
  by (auto simp: chan_start_def fifo_inv_def in_flight_def Channel_new_def chan_inv_def)

lemma fifo_inv_step: "chan_step s s' \<Longrightarrow> fifo_inv s \<Longrightarrow> fifo_inv s'"
proof (induction rule: chan_step.induct)
  case (send e d s oc w')
  from chan_send_result [OF send(1)] chan_send_inv [OF send(1)] send(2) show ?case
    by (cases "recvQueue (chan (world s))")
      (auto simp: fifo_inv_def in_flight_def chan_inv_def split: if_splits)
next
  case (recv e d s oc w')
  have cells: "map (\<lambda>it. ((cell (world s))(d := x)) (s_data it)) its =
      map (\<lambda>it. cell (world s) (s_data it)) its"
    if "set its \<subseteq> set (sendQueue (chan (world s)))" for its x
    using recv(2) that by (auto intro!: map_cong)
  from chan_recv_result [OF recv(1)] chan_recv_inv [OF recv(1)] recv(3) recv(2) cells show ?case
    by (cases "buffer (chan (world s))"; cases "sendQueue (chan (world s))")
      (auto simp: fifo_inv_def in_flight_def chan_inv_def split: if_splits)
next
  case (close s w')
  from chan_Close_result [OF close(1)] chan_Close_inv [OF close(1)] close(2) show ?case
    by (auto simp: fifo_inv_def in_flight_def chan_inv_def)
next
  case (assign d s x)
  then show ?case by (auto simp: fifo_inv_def in_flight_def intro!: map_cong)
next
  case (elsewhere s p)
  then show ?case by (simp add: fifo_inv_def in_flight_def)
qed

interpretation ch: inductive_invariant chan_start chan_step fifo_inv
  by unfold_locales (auto intro: fifo_inv_start fifo_inv_step)

section \<open>Waking tasks\<close>

definition host_ok :: "nat \<Rightarrow> ('f, 'c) proc \<Rightarrow> bool" where
  "host_ok n p \<longleftrightarrow> lfq_invar (runnableQueue p) \<and> length (queue p) + n \<le> lfq_room"

lemma wake_task_ok:
  assumes "host_ok (Suc n) (host w)"
  shows "\<exists>p. wake_task t w = Inr (w\<lparr>host := p\<rparr>) \<and> host_ok n p \<and> queue p = queue (host w) @ [t] \<and>
    runningTask p = runningTask (host w)"
proof -
  from assms have "lfq_invar (runnableQueue (host w))" "length (queue (host w)) < lfq_room"
    by (auto simp: host_ok_def)
  from lfq.push_law [OF this, of t] obtain q where
    "lfq_push t (runnableQueue (host w)) = Inr q" "lfq_invar q" "lfq_contents q = queue (host w) @ [t]"
    by blast
  with assms show ?thesis
    by (auto simp: wake_task_def AddTask_list_def Let_def WakeUp_def host_ok_def)
qed

text \<open>The two loops of \<open>Close\<close>, for any kind of item.\<close>

lemma wake_all_ok:
  assumes "host_ok (length its + n) (host w)"
  shows "\<exists>p. foldE (\<lambda>it w. wake_task (tk it) (set_flag (fl it) True w)) its w =
      Inr (w\<lparr>flag := (\<lambda>r. flag w r \<or> r \<in> fl ` set its), host := p\<rparr>) \<and>
    host_ok n p \<and> queue p = queue (host w) @ map tk its \<and> runningTask p = runningTask (host w)"
  using assms
proof (induction its arbitrary: w)
  case Nil
  then show ?case by (cases w) auto
next
  case (Cons it its)
  then have "host_ok (Suc (length its + n)) (host (set_flag (fl it) True w))" by simp
  from wake_task_ok [OF this, of "tk it"] obtain p where
    p: "wake_task (tk it) (set_flag (fl it) True w) = Inr (set_flag (fl it) True w\<lparr>host := p\<rparr>)"
    "host_ok (length its + n) p" "queue p = queue (host w) @ [tk it]"
    "runningTask p = runningTask (host w)" by auto
  let ?w1 = "set_flag (fl it) True w\<lparr>host := p\<rparr>"
  have "host_ok (length its + n) (host ?w1)" using p(2) by simp
  from Cons.IH [OF this] obtain p' where
    p': "foldE (\<lambda>it w. wake_task (tk it) (set_flag (fl it) True w)) its ?w1 =
      Inr (?w1\<lparr>flag := (\<lambda>r. flag ?w1 r \<or> r \<in> fl ` set its), host := p'\<rparr>)"
    "host_ok n p'" "queue p' = queue p @ map tk its" "runningTask p' = runningTask p"
    by auto
  have "?w1\<lparr>flag := (\<lambda>r. flag ?w1 r \<or> r \<in> fl ` set its), host := p'\<rparr> =
      w\<lparr>flag := (\<lambda>r. flag w r \<or> r \<in> fl ` set (it # its)), host := p'\<rparr>"
    by (cases w) (auto simp: set_flag_def)
  with p p' show ?case by (intro exI [of _ p']) simp
qed

lemma chan_Close_ok:
  assumes "\<not> closed (chan w)"
    and "host_ok (length (sendQueue (chan w)) + length (recvQueue (chan w))) (host w)"
  shows "\<exists>w'. chan_Close w = Inr w' \<and> chan w' = (chan w)\<lparr>closed := True, sendQueue := [], recvQueue := []\<rparr> \<and>
    cell w' = cell w \<and>
    flag w' = (\<lambda>r. flag w r \<or> r \<in> s_isError ` set (sendQueue (chan w)) \<union> r_isError ` set (recvQueue (chan w))) \<and>
    queue (host w') = queue (host w) @ map s_task (sendQueue (chan w)) @ map r_task (recvQueue (chan w))"
proof -
  let ?w0 = "with_chan (closed_update (\<lambda>_. True)) w"
  from assms(2) wake_all_ok [of "sendQueue (chan ?w0)" "length (recvQueue (chan w))" ?w0 s_task s_isError]
  obtain p where
    p: "foldE (\<lambda>it w. wake_task (s_task it) (set_flag (s_isError it) True w)) (sendQueue (chan w)) ?w0 =
      Inr (?w0\<lparr>flag := (\<lambda>r. flag w r \<or> r \<in> s_isError ` set (sendQueue (chan w))), host := p\<rparr>)"
    "host_ok (length (recvQueue (chan w))) p"
    "queue p = queue (host w) @ map s_task (sendQueue (chan w))" by auto
  let ?w1 = "?w0\<lparr>flag := (\<lambda>r. flag w r \<or> r \<in> s_isError ` set (sendQueue (chan w))), host := p\<rparr>"
  let ?w2 = "with_chan (sendQueue_update (\<lambda>_. [])) ?w1"
  have c2: "recvQueue (chan ?w2) = recvQueue (chan w)" by (simp add: with_chan_def)
  have "host_ok (length (recvQueue (chan w)) + 0) (host ?w2)" using p(2) by simp
  from wake_all_ok [OF this, of r_task r_isError] obtain p' where
    p': "foldE (\<lambda>it w. wake_task (r_task it) (set_flag (r_isError it) True w)) (recvQueue (chan w)) ?w2 =
      Inr (?w2\<lparr>flag := (\<lambda>r. flag ?w2 r \<or> r \<in> r_isError ` set (recvQueue (chan w))), host := p'\<rparr>)"
    "queue p' = queue p @ map r_task (recvQueue (chan w))" by auto
  show ?thesis using assms(1) p(1,3) p' c2
    by (auto simp: chan_Close_def Let_def with_chan_def)
qed

text \<open>A call that finds the mutex locked gets it all the same, and never leaves its \<open>unlock\<close>.\<close>

lemma with_mutex_contended:
  assumes "mtx (chan w) = mutex_of 1 0"
    and "body (with_chan (mtx_update (\<lambda>_. mutex_of 1 1)) w) = Inr (Returned, w')"
    and "mtx (chan w') = mutex_of 1 1"
  shows "with_mutex fuel u body w = Inl Diverges"
proof (cases "fuel < 2")
  case True
  then have "fuel = 0 \<or> fuel = Suc 0" by auto
  then show ?thesis using assms(1) by (auto simp: with_mutex_def)
next
  case False
  then obtain k where k: "fuel = Suc (Suc k)"
    by (metis One_nat_def Suc_1 Suc_lessI less_Suc0 nat.exhaust_sel not_less_eq zero_less_Suc)
  have "cm_exec fuel u L_load (mutex_of 1 0) = Inr (M_in, mutex_of 1 1, [])"
    unfolding k using cm_exec_lock [of k u "mutex_of 1 0"] by simp
  moreover have "cm_exec fuel u U_load (mtx (chan w')) = Inl Diverges"
    by (simp add: assms(3) cm_exec_unlock_spins)
  ultimately show ?thesis using assms(1,2) by (simp add: with_mutex_def unlock_mtx_def Let_def)
qed

lemma recv_suspends:
  assumes "chan w = Channel_new (mutex_of 0 0) cap" "runningTask (host w) = Some t"
  shows "with_mutex (n + 2) t (chan_recv e d) w = Inr (Suspended, with_chan (recvQueue_update (\<lambda>q. q @
      [\<lparr>r_isError = e, r_task = t, r_data = d\<rparr>])) (set_flag e False
        (with_chan (mtx_update (\<lambda>_. mutex_of 1 0)) w)))"
proof -
  have "cm_exec (n + 2) t L_load (mutex_of 0 0) = Inr (M_in, mutex_of 1 0, [])"
    using cm_exec_lock [of n t "mutex_of 0 0"] by simp
  then show ?thesis using assms by (simp add: with_mutex_def chan_recv_def Channel_new_def Let_def)
qed

section \<open>Calls that need not wait\<close>

datatype chan_op = Send_op ref ref | Recv_op ref ref

definition run_op :: "nat \<Rightarrow> tptr \<Rightarrow> chan_op \<Rightarrow> ('a, 'f, 'c) world \<Rightarrow> fault + ('a, 'f, 'c) world" where
  "run_op fuel t op w = bindE (with_mutex fuel t
     (case op of Send_op e d \<Rightarrow> chan_send e d | Recv_op e d \<Rightarrow> chan_recv e d) w) (\<lambda>(r, w').
       if r = Returned then Inr w' else Inl Diverges)"

text \<open>The bounded queue: no send finds \<open>cap\<close> values in it, no receive finds it empty; and its effect on
  the variables of the tasks and on the values in it.\<close>

fun never_waits :: "nat \<Rightarrow> chan_op list \<Rightarrow> nat \<Rightarrow> bool" where
  "never_waits cap [] n = True"
| "never_waits cap (Send_op e d # ops) n \<longleftrightarrow> n < cap \<and> never_waits cap ops (Suc n)"
| "never_waits cap (Recv_op e d # ops) n \<longleftrightarrow> 0 < n \<and> never_waits cap ops (n - 1)"

fun bounded_queue :: "chan_op list \<Rightarrow> (ref \<Rightarrow> 'a) \<times> 'a list \<Rightarrow> (ref \<Rightarrow> 'a) \<times> 'a list" where
  "bounded_queue [] s = s"
| "bounded_queue (Send_op e d # ops) (c, xs) = bounded_queue ops (c, xs @ [c d])"
| "bounded_queue (Recv_op e d # ops) (c, xs) = bounded_queue ops (c(d := hd xs), tl xs)"

definition unshared :: "'a chan \<Rightarrow> bool" where
  "unshared ch \<longleftrightarrow> mtx ch = mutex_of 0 0 \<and> \<not> closed ch \<and> sendQueue ch = [] \<and> recvQueue ch = []"

lemma with_mutex_free:
  assumes "mtx (chan w) = mutex_of 0 0" "mtx (chan w') = mutex_of 1 0"
    and "body (with_chan (mtx_update (\<lambda>_. mutex_of 1 0)) w) = Inr (Returned, w')"
  shows "with_mutex (n + 3) t body w = Inr (Returned, with_chan (mtx_update (\<lambda>_. mutex_of 0 0)) w')"
proof -
  have "cm_exec (n + 3) t L_load (mutex_of 0 0) = Inr (M_in, mutex_of 1 0, [])"
    using cm_exec_lock [of "Suc n" t "mutex_of 0 0"] by (simp add: numeral_3_eq_3)
  moreover have "cm_exec (n + 3) t U_load (mutex_of 1 0) = Inr (M_out, mutex_of 0 0, [])"
    using cm_exec_unlock [of "mutex_of 1 0" n t] by (simp add: numeral_3_eq_3)
  ultimately show ?thesis using assms by (simp add: with_mutex_def unlock_mtx_def)
qed

lemma op_ok:
  assumes u: "unshared (chan w)" and nw: "never_waits (unat (capacity (chan w))) [op] (length (buffer (chan w)))"
  shows "\<exists>w'. run_op (n + 3) t op w = Inr w' \<and> unshared (chan w') \<and> host w' = host w \<and> flag w' = flag w \<and>
    capacity (chan w') = capacity (chan w) \<and>
    (cell w', buffer (chan w')) = bounded_queue [op] (cell w, buffer (chan w))"
proof (cases op)
  case (Send_op e d)
  let ?w1 = "with_chan (mtx_update (\<lambda>_. mutex_of 1 0)) w"
  have "chan_send e d ?w1 = Inr (Returned, with_chan (buffer_update (\<lambda>b. b @ [cell w d])) ?w1)"
    using u nw Send_op by (simp add: chan_send_def unshared_def)
  from with_mutex_free [where body = "chan_send e d" and w = w and n = n and t = t, OF _ _ this] u Send_op
  show ?thesis by (auto simp: run_op_def unshared_def)
next
  case (Recv_op e d)
  let ?w1 = "with_chan (mtx_update (\<lambda>_. mutex_of 1 0)) w"
  obtain x xs where b: "buffer (chan w) = x # xs" using nw Recv_op by (cases "buffer (chan w)") auto
  have "chan_recv e d ?w1 = Inr (Returned, with_chan (buffer_update (\<lambda>_. xs)) (set_cell d x ?w1))"
    using u b by (simp add: chan_recv_def unshared_def)
  from with_mutex_free [where body = "chan_recv e d" and w = w and n = n and t = t, OF _ _ this] u b Recv_op
  show ?thesis by (auto simp: run_op_def unshared_def)
qed

lemma never_waits_Cons:
  "never_waits cap (op # ops) (length xs) \<longleftrightarrow> never_waits cap [op] (length xs) \<and>
     never_waits cap ops (length (snd (bounded_queue [op] (c, xs))))"
  by (cases op) auto

lemma bounded_queue_Cons: "bounded_queue (op # ops) s = bounded_queue ops (bounded_queue [op] s)"
  by (cases op; cases s) auto

lemma ops_ok:
  assumes "unshared (chan w)" "never_waits (unat (capacity (chan w))) ops (length (buffer (chan w)))"
  shows "\<exists>w'. foldE (run_op (n + 3) t) ops w = Inr w' \<and> unshared (chan w') \<and> host w' = host w \<and>
    flag w' = flag w \<and> (cell w', buffer (chan w')) = bounded_queue ops (cell w, buffer (chan w))"
  using assms
proof (induction ops arbitrary: w)
  case (Cons op ops)
  have nw: "never_waits (unat (capacity (chan w))) [op] (length (buffer (chan w)))"
    "never_waits (unat (capacity (chan w))) ops (length (snd (bounded_queue [op] (cell w, buffer (chan w)))))"
    using Cons.prems(2) never_waits_Cons [of _ op ops "buffer (chan w)" "cell w"] by blast+
  from op_ok [OF Cons.prems(1), of op n t] nw obtain w1 where
    w1: "run_op (n + 3) t op w = Inr w1" "unshared (chan w1)" "host w1 = host w" "flag w1 = flag w"
      "capacity (chan w1) = capacity (chan w)"
      "(cell w1, buffer (chan w1)) = bounded_queue [op] (cell w, buffer (chan w))" by blast
  have "never_waits (unat (capacity (chan w1))) ops (length (buffer (chan w1)))"
    using nw w1(5) by (simp flip: w1(6))
  from Cons.IH [OF w1(2) this] w1 show ?case by (auto simp: bounded_queue_Cons [of op ops])
qed simp

section \<open>Properties\<close>

text \<open>
  C11: as long as no two of its operations overlap, a channel is a bounded FIFO. A history is a sequence
  of the bodies of sends, receives and closes of any number of tasks, each of which runs as a whole,
  and of changes to variables that no suspended sender refers to; keeping them apart is what the
  mutex is for, which in the code excludes nobody (\<open>lock_excludes_nobody\<close>). In every such history
  the values sent are, in order, those found in the receivers' variables, then those
  still in flight, then those a close turned away; the buffer never exceeds the capacity, no
  receiver waits while a value is in flight, and a sender waits only while the buffer is full.
\<close>

theorem channel_is_fifo:
  assumes "reach chan_start chan_step s"
  shows "sent s = got s @ in_flight (world s) @ dropped s \<and> prefix (got s) (sent s) \<and>
    length (buffer (chan (world s))) \<le> unat (capacity (chan (world s))) \<and>
    (recvQueue (chan (world s)) = [] \<or> in_flight (world s) = []) \<and>
    (sendQueue (chan (world s)) = [] \<or>
      length (buffer (chan (world s))) = unat (capacity (chan (world s))))"
  using ch.inv_reach [OF assms] by (auto simp: fifo_inv_def chan_inv_def in_flight_def)

definition sample_host :: "tptr \<Rightarrow> (nat, unit) proc" where
  "sample_host t = sample_proc [] (Some t) (\<lambda>_. Runnable)"

definition sample_world :: "u32 \<Rightarrow> tptr \<Rightarrow> (nat, nat, unit) world" where
  "sample_world cap t = \<lparr>chan = Channel_new (mutex_of 0 0) cap, flag = (\<lambda>_. False), cell = id,
     host = sample_host t\<rparr>"

text \<open>Task 1 sends 41, task 2 receives into variable 5.\<close>

definition sent_once :: "(nat, nat, unit) world" where
  "sent_once = with_chan (buffer_update (\<lambda>_. [41])) (sample_world 1 1)"

definition received_once :: "(nat, nat, unit) world" where
  "received_once = set_cell 5 41 (sample_world 1 1)"

lemma chan_demo:
  "chan_send 100 41 (sample_world 1 1) = Inr (Returned, sent_once)"
  "chan_recv 101 5 sent_once = Inr (Returned, received_once)"
  by (auto simp: chan_send_def chan_recv_def sample_world_def Channel_new_def sent_once_def
      received_once_def with_chan_def set_cell_def Let_def)

theorem channel_is_fifo_witness:
  "\<exists>s. reach chan_start chan_step s \<and> world s = received_once \<and> sent s = [41] \<and> got s = [41] \<and>
     prefix (got s) (sent s)"
proof -
  let ?s0 = "\<lparr>world = sample_world 1 1, sent = [], got = [], dropped = []\<rparr>"
  let ?s1 = "\<lparr>world = sent_once, sent = [41], got = [], dropped = []\<rparr>"
  let ?s2 = "\<lparr>world = received_once, sent = [41], got = [41], dropped = []\<rparr>"
  have 0: "reach chan_start chan_step ?s0"
    by (rule reach_init) (auto simp: chan_start_def sample_world_def)
  have "chan_step ?s0 ?s1"
    using send [of 100 41 ?s0 Returned sent_once] chan_demo(1)
    by (simp add: sample_world_def Channel_new_def)
  moreover have "chan_step ?s1 ?s2"
    using recv [of 101 5 ?s1 Returned received_once] chan_demo(2)
    by (simp add: sent_once_def received_once_def sample_world_def Channel_new_def)
  ultimately have "reach chan_start chan_step ?s2" using 0 by (meson reach_step)
  from this channel_is_fifo [OF this] show ?thesis by (intro exI [of _ ?s2]) simp
qed

text \<open>
  C30: the body of a send, on every branch. On a closed channel it throws. Otherwise, when a receiver
  waits, the value goes into the variable of the one that waits longest and that task, and no other,
  to the end of the run queue; without a receiver the value is buffered if there is room; and if
  there is none the task is queued with a reference to its variable and suspends. This is the code
  between \<open>lock\<close> and \<open>unlock\<close>; a call that finds a receiver waiting finds the mutex locked by it and
  does not get out of \<open>unlock\<close> afterwards (\<open>channel_rendezvous_hangs\<close>).
\<close>

theorem channel_send_wakes_receiver:
  assumes "chan_inv (chan w)" "host_ok 1 (host w)" "runningTask (host w) = Some t"
  shows "if closed (chan w) then chan_send e d w = Inl (Thrown ''channel closed'') else
    (\<exists>oc w'. chan_send e d w = Inr (oc, w') \<and> chan_inv (chan w') \<and>
      queue (host w') = queue (host w) @ map r_task (take 1 (recvQueue (chan w))) \<and>
      (case recvQueue (chan w) of
         it # rest \<Rightarrow> oc = Returned \<and> cell w' = (cell w)(r_data it := cell w d) \<and>
           flag w' = flag w \<and> chan w' = (chan w)\<lparr>recvQueue := rest\<rparr>
       | [] \<Rightarrow> cell w' = cell w \<and>
          (if length (buffer (chan w)) < unat (capacity (chan w))
           then oc = Returned \<and> flag w' = flag w \<and>
             chan w' = (chan w)\<lparr>buffer := buffer (chan w) @ [cell w d]\<rparr>
           else oc = Suspended \<and> flag w' = (flag w)(e := False) \<and>
             chan w' = (chan w)\<lparr>sendQueue := sendQueue (chan w) @
               [\<lparr>s_isError = e, s_task = t, s_data = d\<rparr>]\<rparr>)))"
proof (cases "closed (chan w)")
  case True
  then show ?thesis by (simp add: chan_send_def)
next
  case open_chan: False
  show ?thesis
  proof (cases "recvQueue (chan w)")
    case Nil
    with assms open_chan show ?thesis
      by (auto simp: chan_send_def Let_def chan_inv_def with_chan_def)
  next
    case (Cons it rest)
    let ?w2 = "set_cell (r_data it) (cell w d) (with_chan (recvQueue_update (\<lambda>_. rest)) w)"
    have "host_ok (Suc 0) (host ?w2)" using assms(2) by simp
    from wake_task_ok [OF this, of "r_task it"] obtain p where
      p: "wake_task (r_task it) ?w2 = Inr (?w2\<lparr>host := p\<rparr>)" "queue p = queue (host w) @ [r_task it]"
      by auto
    have send: "chan_send e d w = Inr (Returned, ?w2\<lparr>host := p\<rparr>)"
      using Cons open_chan p(1) by (simp add: chan_send_def Let_def)
    with chan_send_inv [OF send assms(1)] p(2) Cons open_chan show ?thesis by auto
  qed
qed

text \<open>A receiver waits with variable 5 and task 9.\<close>

theorem channel_send_wakes_receiver_witness:
  "\<exists>w'. chan_send 100 41 (with_chan (recvQueue_update (\<lambda>q. [\<lparr>r_isError = 101, r_task = 9, r_data = 5\<rparr>]))
      (sample_world 0 1)) = Inr (Returned, w') \<and> queue (host w') = [9] \<and> cell w' 5 = 41"
  using channel_send_wakes_receiver [of "with_chan (recvQueue_update (\<lambda>q. [\<lparr>r_isError = 101, r_task = 9, r_data = 5\<rparr>]))
      (sample_world 0 1)" 1 100 41]
  by (auto simp: sample_world_def sample_host_def host_ok_def Channel_new_def chan_inv_def lfq_room_def)

text \<open>
  A receive completes and wakes at most one task. It takes the oldest value in flight and
  puts the longest-waiting sender, and no other, into the run queue; it suspends exactly when
  nothing is in flight.
\<close>

theorem channel_recv_wakes_sender:
  assumes "chan_inv (chan w)" "\<not> closed (chan w)" "host_ok 1 (host w)" "runningTask (host w) = Some t"
  shows "\<exists>oc w'. chan_recv e d w = Inr (oc, w') \<and> chan_inv (chan w') \<and>
    queue (host w') = queue (host w) @ map s_task (take 1 (sendQueue (chan w))) \<and>
    (oc = Suspended \<longleftrightarrow> in_flight w = []) \<and> (in_flight w \<noteq> [] \<longrightarrow> cell w' d = hd (in_flight w))"
proof (cases "sendQueue (chan w)")
  case Nil
  show ?thesis
  proof (cases "buffer (chan w)")
    case Nil
    with \<open>sendQueue (chan w) = []\<close> assms show ?thesis
      by (auto simp: chan_recv_def Let_def chan_inv_def in_flight_def)
  next
    case (Cons x xs)
    with \<open>sendQueue (chan w) = []\<close> assms show ?thesis
      by (auto simp: chan_recv_def Let_def chan_inv_def in_flight_def)
  qed
next
  case (Cons it rest)
  note q = this
  show ?thesis
  proof (cases "buffer (chan w)")
    case Nil
    let ?w2 = "set_cell d (cell w (s_data it)) (with_chan (sendQueue_update (\<lambda>_. rest)) w)"
    have "host_ok (Suc 0) (host ?w2)" using assms(3) by simp
    from wake_task_ok [OF this, of "s_task it"] obtain p where
      p: "wake_task (s_task it) ?w2 = Inr (?w2\<lparr>host := p\<rparr>)" "queue p = queue (host w) @ [s_task it]"
      by auto
    have "capacity (chan w) = 0" using assms(1) q Nil by (simp add: chan_inv_def unat_eq_zero)
    then have r: "chan_recv e d w = Inr (Returned, ?w2\<lparr>host := p\<rparr>)"
      using q Nil assms(2) p(1) by (simp add: chan_recv_def Let_def)
    with chan_recv_inv [OF r assms(1)] p(2) q Nil show ?thesis by (auto simp: in_flight_def)
  next
    case (Cons x xs)
    let ?w1 = "with_chan (sendQueue_update (\<lambda>_. rest))
        (with_chan (buffer_update (\<lambda>_. xs)) (set_cell d x w))"
    let ?w3 = "with_chan (buffer_update (\<lambda>b. b @ [cell ?w1 (s_data it)])) ?w1"
    have "host_ok (Suc 0) (host ?w3)" using assms(3) by simp
    from wake_task_ok [OF this, of "s_task it"] obtain p where
      p: "wake_task (s_task it) ?w3 = Inr (?w3\<lparr>host := p\<rparr>)" "queue p = queue (host w) @ [s_task it]"
      by auto
    then have r: "chan_recv e d w = Inr (Returned, ?w3\<lparr>host := p\<rparr>)"
      using q Cons assms(2) p(1) by (simp add: chan_recv_def Let_def)
    with chan_recv_inv [OF r assms(1)] p(2) q Cons show ?thesis by (auto simp: in_flight_def)
  qed
qed

theorem channel_recv_wakes_sender_witness:
  "\<exists>w'. chan_recv 101 5 (sample_world 0 1) = Inr (Suspended, w') \<and> queue (host w') = []"
  using channel_recv_wakes_sender [of "sample_world 0 1" 1 101 5]
  by (auto simp: sample_world_def sample_host_def host_ok_def Channel_new_def chan_inv_def
      in_flight_def lfq_room_def)

text \<open>
  Closing is silent to the tasks it wakes. A receiver that suspended is woken by \<open>Close\<close>
  with its error flag set, but the exception it builds is never thrown: it returns as if it had
  received, its variable unchanged. A task that calls after the close does get the exception.
\<close>

theorem channel_close_is_silent:
  assumes "chan_inv (chan w)" "host_ok (length (recvQueue (chan w)) + 1) (host w)"
    and "chan_recv e d w = Inr (Suspended, w1)"
  shows "\<exists>w2. chan_Close w1 = Inr w2 \<and> flag w2 e \<and> cell w2 = cell w \<and>
    after_suspend e w2 = Inr Returned \<and> recvQueue (chan w2) = [] \<and>
    queue (host w2) = queue (host w) @ map r_task (recvQueue (chan w1)) \<and>
    chan_recv e d w2 = Inl (Thrown ''channel closed'') \<and>
    chan_send e d w2 = Inl (Thrown ''channel closed'')"
proof -
  have b: "buffer (chan w) = []" "sendQueue (chan w) = []"
    using chan_recv_result [OF assms(3)] assms(1)
    by (cases "buffer (chan w)"; cases "sendQueue (chan w)";
        auto simp: chan_inv_def unat_eq_zero split: if_splits)+
  obtain t where w1: "w1 = with_chan (recvQueue_update (\<lambda>q. q @
      [\<lparr>r_isError = e, r_task = t, r_data = d\<rparr>])) (set_flag e False w)" "\<not> closed (chan w)"
    using assms(3) b by (auto simp: chan_recv_def Let_def split: option.splits if_splits)
  have "host_ok (length (sendQueue (chan w1)) + length (recvQueue (chan w1))) (host w1)"
    using assms(2) b(2) w1 by simp
  from chan_Close_ok [OF _ this] w1(2) obtain w2 where
    w2: "chan_Close w1 = Inr w2" "chan w2 = (chan w1)\<lparr>closed := True, sendQueue := [], recvQueue := []\<rparr>"
    "cell w2 = cell w1"
    "flag w2 = (\<lambda>r. flag w1 r \<or> r \<in> s_isError ` set (sendQueue (chan w1)) \<union> r_isError ` set (recvQueue (chan w1)))"
    "queue (host w2) = queue (host w1) @ map s_task (sendQueue (chan w1)) @ map r_task (recvQueue (chan w1))"
    unfolding w1(1) by auto
  then show ?thesis using b unfolding w1(1)
    by (simp add: after_suspend_def chan_recv_def chan_send_def)
qed

theorem channel_close_is_silent_witness:
  "\<exists>w1 w2. chan_recv 101 5 (sample_world 0 1) = Inr (Suspended, w1) \<and> chan_Close w1 = Inr w2 \<and>
     after_suspend 101 w2 = Inr Returned \<and> cell w2 5 = 5"
proof -
  obtain w1 where r: "chan_recv 101 5 (sample_world 0 1) = Inr (Suspended, w1)"
    by (auto simp: chan_recv_def sample_world_def sample_host_def Channel_new_def Let_def)
  have "chan_inv (chan (sample_world 0 1))"
    "host_ok (length (recvQueue (chan (sample_world 0 1))) + 1) (host (sample_world 0 1))"
    by (simp_all add: sample_world_def sample_host_def host_ok_def Channel_new_def chan_inv_def
        lfq_room_def)
  from channel_close_is_silent [OF this r] r show ?thesis
    by (auto simp: sample_world_def)
qed



text \<open>
  C12: a channel whose calls need not wait is a bounded queue. While no send finds the buffer full and
  no receive finds it empty, every call gets the mutex, returns and leaves the mutex free, and the
  calls have the effect of a queue of at most \<open>capacity\<close> values on the variables of the tasks; nobody is
  woken and no error flag is touched.
\<close>

theorem channel_refines_bounded_queue:
  assumes "chan w = Channel_new (mutex_of 0 0) cap" "never_waits (unat cap) ops 0"
  shows "\<exists>w'. foldE (run_op (n + 3) t) ops w = Inr w' \<and> mtx (chan w') = mutex_of 0 0 \<and>
    sendQueue (chan w') = [] \<and> recvQueue (chan w') = [] \<and> host w' = host w \<and> flag w' = flag w \<and>
    (cell w', buffer (chan w')) = bounded_queue ops (cell w, [])"
  using ops_ok [of w ops n t] assms by (auto simp: unshared_def Channel_new_def)

theorem channel_refines_bounded_queue_witness:
  "\<exists>w'. foldE (run_op 3 7) [Send_op 100 41, Send_op 100 42, Recv_op 101 5, Recv_op 101 6] (sample_world 2 1) = Inr w' \<and>
    cell w' 5 = 41 \<and> cell w' 6 = 42 \<and> buffer (chan w') = []"
proof -
  let ?ops = "[Send_op 100 41, Send_op 100 42, Recv_op 101 5, Recv_op 101 6]"
  have "chan (sample_world 2 1) = Channel_new (mutex_of 0 0) 2" "never_waits (unat (2 :: u32)) ?ops 0"
    by (simp_all add: sample_world_def)
  from channel_refines_bounded_queue [OF this, of 0 7] show ?thesis
    by (auto simp: sample_world_def)
qed

end
