(* ===== verification/Co_Chan.thy ===== *)
theory Co_Chan
  imports Channel
begin

text \<open>
  \<open>CoChan\<close> of \<open>sync/co_chan.hpp\<close>: a copyable handle of a channel. The handles of one channel share it
  through a \<open>shared_ptr\<close>, here the channel with the number of its owners; the destructor of the last
  handle runs the destructor of the channel, which closes it.
\<close>

section \<open>Handles\<close>

record ('a, 'f, 'c) shared =
  obj :: "('a, 'f, 'c) world"
  use_count :: nat

definition CoChan_new :: "comutex \<Rightarrow> u32 \<Rightarrow> ('a, 'f, 'c) world \<Rightarrow> ('a, 'f, 'c) shared" where
  "CoChan_new m cap w = \<lparr>obj = w\<lparr>chan := Channel_new m cap\<rparr>, use_count = 1\<rparr>"

definition CoChan_copy :: "('a, 'f, 'c) shared \<Rightarrow> fault + ('a, 'f, 'c) shared" where
  "CoChan_copy s = bindE (check Dangling (0 < use_count s)) (\<lambda>_. Inr (s\<lparr>use_count := use_count s + 1\<rparr>))"

text \<open>\<open>chan_->\<close>: a call on the channel that the handle points to.\<close>

definition through :: "(('a, 'f, 'c) world \<Rightarrow> fault + (outcome \<times> ('a, 'f, 'c) world)) \<Rightarrow>
    ('a, 'f, 'c) shared \<Rightarrow> fault + (outcome \<times> ('a, 'f, 'c) shared)" where
  "through f s = bindE (check Dangling (0 < use_count s)) (\<lambda>_.
     bindE (f (obj s)) (\<lambda>(r, w). Inr (r, s\<lparr>obj := w\<rparr>)))"

text \<open>\<open>Channel::Close\<close> with its lock, as the destructor of the channel calls it too.\<close>

definition Close_locked :: "nat \<Rightarrow> tptr \<Rightarrow> ('a, 'f, 'c) world \<Rightarrow> fault + (outcome \<times> ('a, 'f, 'c) world)" where
  "Close_locked fuel t = with_mutex fuel t (\<lambda>w. bindE (chan_Close w) (\<lambda>w'. Inr (Returned, w')))"

definition CoChan_Close :: "nat \<Rightarrow> tptr \<Rightarrow> ('a, 'f, 'c) shared \<Rightarrow> fault + (outcome \<times> ('a, 'f, 'c) shared)" where
  "CoChan_Close fuel t = through (Close_locked fuel t)"

definition CoChan_send ::
  "nat \<Rightarrow> tptr \<Rightarrow> ref \<Rightarrow> ref \<Rightarrow> ('a, 'f, 'c) shared \<Rightarrow> fault + (outcome \<times> ('a, 'f, 'c) shared)" where
  "CoChan_send fuel t isError data = through (with_mutex fuel t (chan_send isError data))"

definition CoChan_recv ::
  "nat \<Rightarrow> tptr \<Rightarrow> ref \<Rightarrow> ref \<Rightarrow> ('a, 'f, 'c) shared \<Rightarrow> fault + (outcome \<times> ('a, 'f, 'c) shared)" where
  "CoChan_recv fuel t isError data = through (with_mutex fuel t (chan_recv isError data))"

definition CoChan_drop :: "nat \<Rightarrow> tptr \<Rightarrow> ('a, 'f, 'c) shared \<Rightarrow> fault + ('a, 'f, 'c) shared" where
  "CoChan_drop fuel t s = bindE (check Dangling (0 < use_count s)) (\<lambda>_.
     if 1 < use_count s then Inr (s\<lparr>use_count := use_count s - 1\<rparr>)
     else bindE (Close_locked fuel t (obj s)) (\<lambda>(r, w). Inr (s\<lparr>obj := w, use_count := 0\<rparr>)))"

section \<open>Lemmas\<close>

lemma through_count: "through f s = Inr (r, s') \<Longrightarrow> use_count s' = use_count s"
  by (auto simp: through_def bindE_eq_Inr)

lemma copy_shares:
  assumes "0 < use_count s"
  shows "\<exists>s'. CoChan_copy s = Inr s' \<and> obj s' = obj s \<and> through f s' =
    bindE (through f s) (\<lambda>(r, v). Inr (r, v\<lparr>use_count := Suc (use_count s)\<rparr>)) \<and> CoChan_drop fuel t s' = Inr s"
  using assms by (cases "f (obj s)") (auto simp: CoChan_copy_def through_def CoChan_drop_def)

lemma close_free:
  assumes "mtx (chan w) = mutex_of 0 0" "\<not> closed (chan w)"
    and "host_ok (length (sendQueue (chan w)) + length (recvQueue (chan w))) (host w)"
  shows "\<exists>w'. Close_locked (n + 3) t w = Inr (Returned, w') \<and>
    chan w' = (chan w)\<lparr>closed := True, sendQueue := [], recvQueue := []\<rparr> \<and> cell w' = cell w \<and>
    flag w' = (\<lambda>r. flag w r \<or> r \<in> s_isError ` set (sendQueue (chan w)) \<union> r_isError ` set (recvQueue (chan w))) \<and>
    queue (host w') = queue (host w) @ map s_task (sendQueue (chan w)) @ map r_task (recvQueue (chan w))"
proof -
  let ?w1 = "with_chan (mtx_update (\<lambda>_. mutex_of 1 0)) w"
  from chan_Close_ok [of ?w1] assms obtain w2 where
    w2: "chan_Close ?w1 = Inr w2" "chan w2 = (chan ?w1)\<lparr>closed := True, sendQueue := [], recvQueue := []\<rparr>"
    "cell w2 = cell ?w1"
    "flag w2 = (\<lambda>r. flag ?w1 r \<or> r \<in> s_isError ` set (sendQueue (chan ?w1)) \<union> r_isError ` set (recvQueue (chan ?w1)))"
    "queue (host w2) = queue (host ?w1) @ map s_task (sendQueue (chan ?w1)) @ map r_task (recvQueue (chan ?w1))"
    by auto
  have "Close_locked (n + 3) t w = Inr (Returned, with_chan (mtx_update (\<lambda>_. mutex_of 0 0)) w2)"
    unfolding Close_locked_def by (rule with_mutex_free [where w' = w2]) (use assms(1) w2 in simp_all)
  then show ?thesis using assms(1) w2 by auto
qed

section \<open>Properties\<close>

text \<open>The last handle closes the channel if nobody waits in it. A copy is the same channel, and
  destroying one of several handles changes nothing else. Destroying the last one while no call is in
  the channel closes it and leaves the mutex free, and from then on there is no channel to call.\<close>

theorem last_handle_closes:
  assumes "use_count s = Suc k" "mtx (chan (obj s)) = mutex_of 0 0" "\<not> closed (chan (obj s))"
    and "sendQueue (chan (obj s)) = []" "recvQueue (chan (obj s)) = []" "host_ok 0 (host (obj s))"
  shows "\<exists>s' s''. CoChan_copy s = Inr s' \<and> obj s' = obj s \<and> CoChan_drop (n + 3) t s' = Inr s \<and>
    CoChan_drop (n + 3) t (s\<lparr>use_count := 1\<rparr>) = Inr s'' \<and> use_count s'' = 0 \<and>
    chan (obj s'') = (chan (obj s))\<lparr>closed := True\<rparr> \<and> queue (host (obj s'')) = queue (host (obj s)) \<and>
    CoChan_send m t e d s'' = Inl Dangling \<and> CoChan_recv m t e d s'' = Inl Dangling"
proof -
  obtain s' where "CoChan_copy s = Inr s'" "obj s' = obj s" "CoChan_drop (n + 3) t s' = Inr s"
    using copy_shares [of s "\<lambda>w. Inr (Returned, w)" "n + 3" t] assms(1) by auto
  moreover from close_free [OF assms(2,3), of n t] assms(4-6) obtain w where
    "Close_locked (n + 3) t (obj s) = Inr (Returned, w)" "chan w = (chan (obj s))\<lparr>closed := True\<rparr>"
    "queue (host w) = queue (host (obj s))" by auto
  ultimately show ?thesis
    by (auto simp: CoChan_drop_def CoChan_send_def CoChan_recv_def through_def check_def)
qed

definition sample_shared :: "(nat, nat, unit) shared" where
  "sample_shared = \<lparr>obj = sample_world 0 1, use_count = 1\<rparr>"

theorem last_handle_closes_witness:
  "\<exists>s''. CoChan_drop 3 2 sample_shared = Inr s'' \<and> closed (chan (obj s''))"
  using last_handle_closes [of sample_shared 0 0 2 0 0 0]
  by (auto simp: sample_shared_def sample_world_def sample_host_def host_ok_def Channel_new_def lfq_room_def)



end
