(* ===== verification/Io_Engine.thy ===== *)
theory Io_Engine
  imports Prelude
begin

text \<open>
  The wrapper of io_uring in \<open>io_uring/io_uring_engine.cpp\<close> and \<open>.hpp\<close>. liburing and the
  kernel are not part of the source: whether \<open>io_uring_get_sqe\<close> finds a free entry is an
  argument, the entries prepared and submitted are lists, and the completions that
  \<open>io_uring_wait_cqe\<close> delivers are a list of events, the end of the list being a wait that
  does not return. What the source does own is modelled in full: the \<open>ring_data\<close> objects it
  allocates per entry, the results they refer to, the linking of a timeout, and the way
  \<open>WaitResult\<close> treats each completion.
\<close>

section \<open>State\<close>

record timespec =
  tv_sec :: i64
  tv_nsec :: i64

record result =
  user_data :: i64
  ret :: i32

datatype op_type = NORMAL | TIMEOUT

type_synonym ref = nat

record ring_data =
  rd_type :: op_type
  rd_res :: ref

datatype prep =
    Prep_read i32 u64 u32 u64
  | Prep_write i32 u64 u32 u64
  | Prep_recv i32 u64 u64 i32
  | Prep_send i32 u64 u64 i32
  | Prep_recvmsg i32 u64 i32
  | Prep_sendmsg i32 u64 i32
  | Prep_connect i32 u64 u32
  | Prep_accept i32 u64 u64 i32
  | Prep_timeout timespec
  | Prep_link_timeout timespec

record sqe =
  sq_op :: prep
  sq_link :: bool
  sq_data :: nat

record engine =
  sq :: "sqe list"
  kernel :: "sqe list"
  rdata :: "nat \<rightharpoonup> ring_data"
  next_data :: nat
  results :: "ref \<Rightarrow> result"

definition EAGAIN :: i32 where "EAGAIN = 11"
definition ETIME :: i32 where "ETIME = 62"
definition ENOENT :: i32 where "ENOENT = 2"
definition ECANCELED :: i32 where "ECANCELED = 125"

definition no_timeout :: timespec where
  "no_timeout = \<lparr>tv_sec = 0, tv_nsec = 0\<rparr>"

section \<open>Construction\<close>

text \<open>
  The constructor asks for a polling kernel thread unless it is given parameters, and it does not
  look at what \<open>io_uring_queue_init_params\<close> answers (\<open>rv\<close>); \<open>mem\<close> is what the results'
  memory holds.
\<close>

definition IORING_SETUP_SQPOLL :: u32 where "IORING_SETUP_SQPOLL = 2"

definition setup_flags :: "u32 option \<Rightarrow> u32" where
  "setup_flags p = (case p of None \<Rightarrow> IORING_SETUP_SQPOLL | Some flags \<Rightarrow> flags)"

definition engine_new :: "(u32 \<Rightarrow> u32 \<Rightarrow> i32) \<Rightarrow> u32 \<Rightarrow> u32 option \<Rightarrow> (ref \<Rightarrow> result) \<Rightarrow> i32 \<times> engine" where
  "engine_new queue_init entries p mem =
     (let rv = queue_init entries (setup_flags p)
      in (rv, \<lparr>sq = [], kernel = [], rdata = (\<lambda>_. None), next_data = 0, results = mem\<rparr>))"

section \<open>Submission\<close>

definition new_data :: "op_type \<Rightarrow> ref \<Rightarrow> engine \<Rightarrow> nat \<times> engine" where
  "new_data ty r e = (next_data e,
     e\<lparr>rdata := (rdata e)(next_data e \<mapsto> \<lparr>rd_type = ty, rd_res = r\<rparr>), next_data := Suc (next_data e)\<rparr>)"

definition Submit :: "engine \<Rightarrow> engine" where
  "Submit e = e\<lparr>kernel := kernel e @ sq e, sq := []\<rparr>"

text \<open>\<open>free1\<close> and \<open>free2\<close> say whether the two calls of \<open>GetSqe\<close> find an entry.\<close>

definition Exec :: "bool \<Rightarrow> bool \<Rightarrow> prep \<Rightarrow> ref \<Rightarrow> timespec \<Rightarrow> engine \<Rightarrow> fault + (bool \<times> engine)" where
  "Exec free1 free2 func res timeout e =
     bindE (check Assert_fail (0 \<le>s tv_sec timeout \<and> 0 \<le>s tv_nsec timeout)) (\<lambda>_.
       if \<not> free1 then Inr (False, e)
       else let (p, e1) = new_data NORMAL res e
         in if 0 <s tv_sec timeout \<or> 0 <s tv_nsec timeout
            then let e2 = e1\<lparr>sq := sq e1 @ [\<lparr>sq_op = func, sq_link = True, sq_data = p\<rparr>]\<rparr>
              in if \<not> free2 then Inr (False, e2)
                 else let (p', e3) = new_data TIMEOUT res e2
                   in Inr (True, Submit (e3\<lparr>sq := sq e3 @
                        [\<lparr>sq_op = Prep_link_timeout timeout, sq_link = False, sq_data = p'\<rparr>]\<rparr>))
            else Inr (True, Submit (e1\<lparr>sq := sq e1 @
                        [\<lparr>sq_op = func, sq_link = False, sq_data = p\<rparr>]\<rparr>)))"

text \<open>
  The entry points. \<open>io_uring_prep_read\<close> and \<open>io_uring_prep_write\<close> take an \<open>unsigned\<close>
  length, to which the \<open>size_t\<close> is converted.
\<close>

definition Read where
  "Read f1 f2 fd buf count offset res ts = Exec f1 f2 (Prep_read fd buf (ucast (count :: u64)) offset) res ts"

definition Write where
  "Write f1 f2 fd buf count offset res ts = Exec f1 f2 (Prep_write fd buf (ucast (count :: u64)) offset) res ts"

definition Recv where
  "Recv f1 f2 fd buf count flags res ts = Exec f1 f2 (Prep_recv fd buf count flags) res ts"

definition Send where
  "Send f1 f2 fd buf count flags res ts = Exec f1 f2 (Prep_send fd buf count flags) res ts"

definition Recvmsg where
  "Recvmsg f1 f2 fd msg flags res ts = Exec f1 f2 (Prep_recvmsg fd msg flags) res ts"

definition Sendmsg where
  "Sendmsg f1 f2 fd msg flags res ts = Exec f1 f2 (Prep_sendmsg fd msg flags) res ts"

definition Connect where
  "Connect f1 f2 fd addr len res ts = Exec f1 f2 (Prep_connect fd addr len) res ts"

definition Accept where
  "Accept f1 f2 fd addr lenp flags res ts = Exec f1 f2 (Prep_accept fd addr lenp flags) res ts"

definition TimeOut where
  "TimeOut f1 f2 res ts = Exec f1 f2 (Prep_timeout ts) res no_timeout"

section \<open>Completion\<close>

datatype answer = Woken i64 | Skipped | Failed

text \<open>
  What \<open>WaitResult\<close> does with one completion: a result \<open>v\<close> of the entry whose data pointer is
  \<open>p\<close>. \<open>Skipped\<close> is the recursive call.
\<close>

definition finish_data :: "nat \<Rightarrow> ref \<Rightarrow> i32 \<Rightarrow> engine \<Rightarrow> answer \<times> engine" where
  "finish_data p r v e =
     (Woken (user_data (results e r)),
      e\<lparr>results := (results e)(r := (results e r)\<lparr>ret := v\<rparr>), rdata := (rdata e)(p := None)\<rparr>)"

definition on_cqe :: "i32 \<Rightarrow> nat \<Rightarrow> engine \<Rightarrow> fault + (answer \<times> engine)" where
  "on_cqe v p e =
     (case rdata e p of
        None \<Rightarrow> Inl Dangling
      | Some d \<Rightarrow>
          if rd_type d = TIMEOUT
          then if v = - ETIME then Inr (finish_data p (rd_res d) EAGAIN e)
               else if v = - ENOENT \<or> v = - ECANCELED then Inr (Skipped, e)
               else Inr (Failed, e)
          else Inr (finish_data p (rd_res d) v e))"

datatype event = Wait_error | Cqe i32 nat

text \<open>The answer is the task to wake, or nothing when \<open>WaitResult\<close> returns false.\<close>

fun WaitResult :: "event list \<Rightarrow> engine \<Rightarrow> fault + (i64 option \<times> event list \<times> engine)" where
  "WaitResult [] e = Inl Diverges"
| "WaitResult (Wait_error # evs) e = Inr (None, evs, e)"
| "WaitResult (Cqe v p # evs) e =
     bindE (on_cqe v p e) (\<lambda>(a, e').
       case a of
         Woken t \<Rightarrow> Inr (Some t, evs, e')
       | Skipped \<Rightarrow> WaitResult evs e'
       | Failed \<Rightarrow> Inr (None, evs, e'))"

section \<open>The entry of the completion queue\<close>

text \<open>
  \<open>WaitResult\<close> marks the entry as seen before it reads its data pointer and result, and an entry
  marked as seen belongs to the kernel again: \<open>W_cqe c c'\<close> is a wait that answers with the entry
  \<open>c\<close> whose place holds \<open>c'\<close> by the time it is read. \<open>WaitResult\<close> above is the case that nothing
  was written in between.
\<close>

datatype waited = W_error | W_cqe "i32 \<times> nat" "i32 \<times> nat"

fun WaitResult_seen :: "waited list \<Rightarrow> engine \<Rightarrow> fault + (i64 option \<times> waited list \<times> engine)" where
  "WaitResult_seen [] e = Inl Diverges"
| "WaitResult_seen (W_error # ws) e = Inr (None, ws, e)"
| "WaitResult_seen (W_cqe c (v, p) # ws) e =
     bindE (on_cqe v p e) (\<lambda>(a, e').
       case a of
         Woken t \<Rightarrow> Inr (Some t, ws, e')
       | Skipped \<Rightarrow> WaitResult_seen ws e'
       | Failed \<Rightarrow> Inr (None, ws, e'))"

definition kept :: "event \<Rightarrow> waited" where
  "kept ev = (case ev of Wait_error \<Rightarrow> W_error | Cqe v p \<Rightarrow> W_cqe (v, p) (v, p))"

lemma WaitResult_kept:
  "WaitResult_seen (map kept evs) e = bindE (WaitResult evs e) (\<lambda>(t, evs', e'). Inr (t, map kept evs', e'))"
proof (induction evs e rule: WaitResult.induct)
  case (3 v p evs e)
  show ?case
  proof (cases "on_cqe v p e")
    case (Inr b)
    obtain a e' where "b = (a, e')" by force
    with Inr 3 show ?thesis by (cases a) (auto simp: kept_def)
  qed (simp add: kept_def)
qed (simp_all add: kept_def)

section \<open>The life of the ring data\<close>

text \<open>
  The kernel completes every entry submitted to it once, in any order, through the completion ring of
  \<open>n\<close> entries. A state is the engine with \<open>pend\<close>, the data pointers of the entries submitted and not
  yet completed; \<open>cq\<close>, the completions posted and not yet seen; and \<open>seen\<close>, what the place of the
  entry holds that \<open>WaitResult\<close> has marked as seen and has not read yet. That place is the one
  before the first of \<open>cq\<close>, so the completion that fills the ring is written into it (\<open>post\<close>).
  \<open>room\<close> bounds the completions that wait unseen.
\<close>

type_synonym eng_state = "engine \<times> nat set \<times> (i32 \<times> nat) list \<times> (i32 \<times> nat) option"

inductive eng_step :: "nat \<Rightarrow> nat \<Rightarrow> eng_state \<Rightarrow> eng_state \<Rightarrow> bool" for n room where
  submit: "Exec f1 f2 func res ts e = Inr (b, e') \<Longrightarrow>
    eng_step n room (e, pend, cq, sn) (e', pend \<union> (sq_data ` set (kernel e') - sq_data ` set (kernel e)), cq, sn)"
| post: "p \<in> pend \<Longrightarrow> length cq < room \<Longrightarrow>
    eng_step n room (e, pend, cq, sn) (e, pend - {p}, cq @ [(v, p)],
      if Suc (length cq) = n then map_option (\<lambda>_. (v, p)) sn else sn)"
| see: "eng_step n room (e, pend, c # cq, None) (e, pend, cq, Some c)"
| read: "on_cqe v p e = Inr (a, e') \<Longrightarrow> eng_step n room (e, pend, cq, Some (v, p)) (e', pend, cq, None)"
| task: "eng_step n room (e, pend, cq, sn) (e\<lparr>results := rs\<rparr>, pend, cq, sn)"

definition eng_start :: "eng_state \<Rightarrow> bool" where
  "eng_start s \<longleftrightarrow> (case s of (e, pend, cq, sn) \<Rightarrow>
     sq e = [] \<and> kernel e = [] \<and> pend = {} \<and> cq = [] \<and> sn = None)"

text \<open>The data pointers of the completions that \<open>WaitResult\<close> will still read.\<close>

definition posted :: "(i32 \<times> nat) list \<Rightarrow> (i32 \<times> nat) option \<Rightarrow> nat list" where
  "posted cq sn = map snd cq @ (case sn of None \<Rightarrow> [] | Some c \<Rightarrow> [snd c])"

abbreviation sq_ptrs :: "engine \<Rightarrow> nat set" where
  "sq_ptrs e \<equiv> sq_data ` set (sq e)"

abbreviation kernel_ptrs :: "engine \<Rightarrow> nat set" where
  "kernel_ptrs e \<equiv> sq_data ` set (kernel e)"

definition ptrs_ok :: "engine \<times> nat set \<Rightarrow> bool" where
  "ptrs_ok s \<longleftrightarrow> (case s of (e, pend) \<Rightarrow>
     pend \<subseteq> dom (rdata e) \<and> sq_ptrs e \<subseteq> dom (rdata e) \<and> sq_ptrs e \<subseteq> {..<next_data e} \<and>
     pend \<subseteq> kernel_ptrs e \<and> kernel_ptrs e \<inter> sq_ptrs e = {} \<and>
     kernel_ptrs e \<subseteq> {..<next_data e})"

definition eng_inv :: "nat \<Rightarrow> eng_state \<Rightarrow> bool" where
  "eng_inv room s \<longleftrightarrow> (case s of (e, pend, cq, sn) \<Rightarrow>
     ptrs_ok (e, pend \<union> set (posted cq sn)) \<and> distinct (posted cq sn) \<and>
     pend \<inter> set (posted cq sn) = {} \<and> length cq \<le> room)"

text \<open>What \<open>Exec\<close> does in terms of the data pointers: some fresh ones appear, and they go to
  the kernel with all that was prepared, or stay prepared.\<close>

lemma Exec_ptrs:
  assumes "Exec f1 f2 func res ts e = Inr (b, e')"
  shows "\<exists>N. N \<subseteq> {next_data e..<next_data e'} \<and> next_data e \<le> next_data e' \<and>
    dom (rdata e') = dom (rdata e) \<union> N \<and>
    (b \<and> sq e' = [] \<and> kernel_ptrs e' = kernel_ptrs e \<union> sq_ptrs e \<union> N \<or>
     \<not> b \<and> sq_ptrs e' = sq_ptrs e \<union> N \<and> kernel e' = kernel e)"
proof -
  let ?timed = "0 <s tv_sec ts \<or> 0 <s tv_nsec ts"
  have ok: "0 \<le>s tv_sec ts \<and> 0 \<le>s tv_nsec ts"
    using assms by (simp add: Exec_def check_def split: if_splits)
  consider "\<not> f1" | "f1" "\<not> ?timed" | "f1" "?timed" "\<not> f2" | "f1" "?timed" "f2" by blast
  then show ?thesis
  proof cases
    case 1
    with assms ok show ?thesis by (intro exI [of _ "{}"]) (simp add: Exec_def)
  next
    case 2
    with assms ok show ?thesis
      by (intro exI [of _ "{next_data e}"]) (auto simp: Exec_def new_data_def Submit_def Let_def)
  next
    case 3
    with assms ok show ?thesis
      by (intro exI [of _ "{next_data e}"]) (auto simp: Exec_def new_data_def Let_def)
  next
    case 4
    with assms ok show ?thesis
      by (intro exI [of _ "{next_data e, Suc (next_data e)}"])
        (auto simp: Exec_def new_data_def Submit_def Let_def)
  qed
qed

lemma ptrs_ok_submit:
  assumes inv: "ptrs_ok (e, pend)" and ex: "Exec f1 f2 func res ts e = Inr (b, e')"
  shows "ptrs_ok (e', pend \<union> (kernel_ptrs e' - kernel_ptrs e))"
proof -
  obtain N where N': "N \<subseteq> {next_data e..<next_data e'} \<and> next_data e \<le> next_data e' \<and>
    dom (rdata e') = dom (rdata e) \<union> N \<and>
    (b \<and> sq e' = [] \<and> kernel_ptrs e' = kernel_ptrs e \<union> sq_ptrs e \<union> N \<or>
     \<not> b \<and> sq_ptrs e' = sq_ptrs e \<union> N \<and> kernel e' = kernel e)"
    using Exec_ptrs [OF ex] by (rule exE)
  note N = N' [THEN conjunct1] N' [THEN conjunct2, THEN conjunct1]
    N' [THEN conjunct2, THEN conjunct2, THEN conjunct1]
    N' [THEN conjunct2, THEN conjunct2, THEN conjunct2]
  from inv have i: "pend \<subseteq> dom (rdata e)" "sq_ptrs e \<subseteq> dom (rdata e)" "sq_ptrs e \<subseteq> {..<next_data e}"
    "pend \<subseteq> kernel_ptrs e" "kernel_ptrs e \<inter> sq_ptrs e = {}" "kernel_ptrs e \<subseteq> {..<next_data e}"
    unfolding ptrs_ok_def prod.case by simp_all
  have lt: "{..<next_data e} \<subseteq> {..<next_data e'}" "N \<subseteq> {..<next_data e'}"
    "N \<inter> {..<next_data e} = {}" using N(1,2) by auto
  show ?thesis
  proof (cases b)
    case True
    with N(4) have k: "sq e' = []" "kernel_ptrs e' = kernel_ptrs e \<union> sq_ptrs e \<union> N" by auto
    have "kernel_ptrs e' - kernel_ptrs e \<subseteq> dom (rdata e')" using k(2) i(2) N(3) by blast
    moreover have "pend \<subseteq> dom (rdata e')" using i(1) N(3) by blast
    moreover have "pend \<subseteq> kernel_ptrs e'" using i(4) k(2) by blast
    moreover have "kernel_ptrs e' \<subseteq> {..<next_data e'}"
      unfolding k(2) Un_subset_iff
      using order_trans [OF i(3) lt(1)] order_trans [OF i(6) lt(1)] lt(2) by (intro conjI)
    ultimately show ?thesis using k(1) by (simp add: ptrs_ok_def)
  next
    case False
    with N(4) have k: "sq_ptrs e' = sq_ptrs e \<union> N" "kernel e' = kernel e" by auto
    have "sq_ptrs e' \<subseteq> dom (rdata e')" using k i(2) N(3) by blast
    moreover have "pend \<subseteq> dom (rdata e')" using i(1) N(3) by blast
    moreover have "sq_ptrs e' \<subseteq> {..<next_data e'}"
      unfolding k(1) Un_subset_iff using order_trans [OF i(3) lt(1)] lt(2) by (intro conjI)
    moreover have "kernel_ptrs e \<inter> sq_ptrs e' = {}" 
    proof -
      have "kernel_ptrs e \<inter> N = {}" using i(6) lt(3) by blast
      then show ?thesis unfolding k(1) Int_Un_distrib using i(5) by simp
    qed
    moreover have "kernel_ptrs e \<subseteq> {..<next_data e'}" by (rule order_trans [OF i(6) lt(1)])
    ultimately show ?thesis using k(2) i(4) by (simp add: ptrs_ok_def)
  qed
qed

lemma on_cqe_frame:
  "on_cqe v p e = Inr (a, e') \<Longrightarrow> sq e' = sq e \<and> kernel e' = kernel e \<and>
     next_data e' = next_data e \<and> dom (rdata e) - {p} \<subseteq> dom (rdata e')"
  by (auto simp: on_cqe_def finish_data_def split: option.splits if_splits)

lemma ptrs_ok_complete:
  assumes p: "p \<in> pend" "on_cqe v p e = Inr (a, e')" and ok: "ptrs_ok (e, pend)"
  shows "ptrs_ok (e', pend - {p})"
proof -
  note f = on_cqe_frame [OF p(2)]
  have i: "pend \<subseteq> dom (rdata e)" "sq_ptrs e \<subseteq> dom (rdata e)" "pend \<subseteq> kernel_ptrs e"
    "kernel_ptrs e \<inter> sq_ptrs e = {}"
    using ok unfolding ptrs_ok_def prod.case by simp_all
  have "p \<notin> sq_ptrs e" using p(1) i(3,4) by blast
  then have "sq_ptrs e \<subseteq> dom (rdata e) - {p}" "pend - {p} \<subseteq> dom (rdata e) - {p}"
    using i(1,2) by blast+
  with f have "sq_ptrs e \<subseteq> dom (rdata e')" "pend - {p} \<subseteq> dom (rdata e')" by blast+
  moreover have "pend - {p} \<subseteq> kernel_ptrs e" using i(3) by blast
  ultimately show ?thesis using f ok by (simp add: ptrs_ok_def)
qed

lemma Exec_kernel: "Exec f1 f2 func res ts e = Inr (b, e') \<Longrightarrow> kernel_ptrs e \<subseteq> kernel_ptrs e'"
  using Exec_ptrs [of f1 f2 func res ts e b e'] by auto

lemma eng_inv_step:
  assumes "eng_step n room s t" "eng_inv room s" "room < n"
  shows "eng_inv room t"
  using assms
proof (induction rule: eng_step.induct)
  case (submit f1 f2 func res ts e b e' pend cq sn)
  let ?new = "kernel_ptrs e' - kernel_ptrs e"
  have "set (posted cq sn) \<subseteq> kernel_ptrs e" using submit(2) by (auto simp: eng_inv_def ptrs_ok_def)
  moreover have "ptrs_ok (e', (pend \<union> set (posted cq sn)) \<union> ?new)"
    by (rule ptrs_ok_submit [OF _ submit(1)]) (use submit(2) in \<open>simp add: eng_inv_def\<close>)
  moreover have "(pend \<union> set (posted cq sn)) \<union> ?new = (pend \<union> ?new) \<union> set (posted cq sn)" by blast
  ultimately show ?case using submit(2) by (auto simp: eng_inv_def)
next
  case (post p pend cq e sn v)
  have "pend - {p} \<union> set (posted (cq @ [(v, p)]) sn) = pend \<union> set (posted cq sn)"
    using post(1) by (auto simp: posted_def split: option.splits)
  with post show ?case by (auto simp: eng_inv_def) (auto simp: posted_def split: option.splits)
next
  case (see e pend c cq)
  have "set (posted cq (Some c)) = set (posted (c # cq) None)"
    "distinct (posted cq (Some c)) = distinct (posted (c # cq) None)" by (simp_all add: posted_def conj_commute)
  with see show ?case by (simp add: eng_inv_def)
next
  case (read v p e a e' pend cq)
  have "p \<notin> pend" "p \<notin> set (map snd cq)" using read(2) by (auto simp: eng_inv_def posted_def)
  moreover have "ptrs_ok (e', (pend \<union> set (posted cq (Some (v, p)))) - {p})"
    by (rule ptrs_ok_complete [OF _ read(1)]) (use read(2) in \<open>auto simp: eng_inv_def posted_def\<close>)
  ultimately have "ptrs_ok (e', pend \<union> set (posted cq None))"
    by (simp add: posted_def insert_Diff_if Un_Diff)
  with read(2) show ?case by (auto simp: eng_inv_def posted_def)
qed (simp add: eng_inv_def ptrs_ok_def)

lemma engine_new_start: "eng_start (snd (engine_new queue_init entries p mem), {}, [], None)"
  by (simp add: eng_start_def engine_new_def)

lemma eng_inv_start: "eng_start s \<Longrightarrow> eng_inv room s"
  by (auto simp: eng_start_def eng_inv_def ptrs_ok_def posted_def)

interpretation eng: inductive_invariant eng_start "eng_step (Suc (room + k)) room" "eng_inv room" for room k
  by unfold_locales (auto intro: eng_inv_start elim: eng_inv_step)

section \<open>Properties\<close>

text \<open>
  C25: completions never touch freed ring data as long as the completion ring never fills. The kernel
  completes every submitted entry once, in whatever order and with whatever result, and leaves at
  least one of the \<open>n\<close> entries of the ring free. Then, although \<open>WaitResult\<close> marks an entry as seen
  before it reads it, the data is live of every entry that is still pending, of every completion
  posted and of the one marked as seen, so \<open>WaitResult\<close> follows no dangling pointer; the data of
  entries prepared but not submitted is live too. When the ring fills, this is no longer so
  (\<open>full_ring_dangles\<close>).
\<close>

theorem completions_never_dangle:
  assumes "reach eng_start (eng_step n room) (e, pend, cq, sn)" "room < n"
  shows "{p \<in> pend \<union> set (posted cq sn). \<exists>v err. on_cqe v p e = Inl err} = {} \<and> sq_ptrs e \<subseteq> dom (rdata e)"
proof -
  obtain k where "n = Suc (room + k)" using less_imp_Suc_add [OF assms(2)] by blast
  with assms(1) have "eng_inv room (e, pend, cq, sn)" using eng.inv_reach by blast
  then have "pend \<union> set (posted cq sn) \<subseteq> dom (rdata e)" "sq_ptrs e \<subseteq> dom (rdata e)"
    unfolding eng_inv_def ptrs_ok_def prod.case by simp_all
  then show ?thesis by (auto simp: on_cqe_def split: if_splits)
qed

definition sample_engine :: engine where
  "sample_engine = \<lparr>sq = [], kernel = [], rdata = (\<lambda>_. None), next_data = 0,
     results = (\<lambda>_. \<lparr>user_data = 0, ret = 0\<rparr>)(1 := \<lparr>user_data = 77, ret = 0\<rparr>)\<rparr>"

lemma sample_engine_sel [simp]:
  "sq sample_engine = []" "kernel sample_engine = []" "rdata sample_engine = (\<lambda>_. None)"
  "next_data sample_engine = 0" "user_data (results sample_engine 1) = 77"
  "user_data (results sample_engine (Suc 0)) = 77"
  by (simp_all add: sample_engine_def)

definition sample_read :: prep where
  "sample_read = Prep_read 3 0x1000 512 0"

lemma sample_exec:
  "Exec True True sample_read 1 no_timeout sample_engine = Inr (True, sample_engine\<lparr>
     kernel := [\<lparr>sq_op = sample_read, sq_link = False, sq_data = 0\<rparr>],
     rdata := [0 \<mapsto> \<lparr>rd_type = NORMAL, rd_res = 1\<rparr>], next_data := 1\<rparr>)"
  by (simp add: Exec_def new_data_def Submit_def no_timeout_def sample_engine_def)

theorem completions_never_dangle_witness:
  "\<exists>e. reach eng_start (eng_step 2 1) (e, {}, [], Some (512, 0)) \<and>
    {p \<in> {0}. \<exists>v err. on_cqe v p e = Inl err} = {}"
proof -
  let ?e = "sample_engine\<lparr>kernel := [\<lparr>sq_op = sample_read, sq_link = False, sq_data = 0\<rparr>],
     rdata := [0 \<mapsto> \<lparr>rd_type = NORMAL, rd_res = 1\<rparr>], next_data := 1\<rparr>"
  have "reach eng_start (eng_step 2 1) (sample_engine, {}, [], None)"
    by (rule reach_init) (simp add: eng_start_def)
  from reach_step [OF this submit [OF sample_exec]]
  have "reach eng_start (eng_step 2 1) (?e, {0}, [], None)" by simp
  moreover have "eng_step 2 1 (?e, {0}, [], None) (?e, {}, [(512, 0)], None)"
    using post [of 0 "{0}" "[]" 1 2 ?e None 512] by simp
  ultimately have "reach eng_start (eng_step 2 1) (?e, {}, [(512, 0)], None)" by (rule reach_step)
  from reach_step [OF this see] have r: "reach eng_start (eng_step 2 1) (?e, {}, [], Some (512, 0))" .
  show ?thesis
    using completions_never_dangle [OF r] r by (auto simp: posted_def)
qed

text \<open>
  C39: a full completion ring makes a completion dangle. While \<open>WaitResult\<close> has marked the completion of
  \<open>q\<close> as seen and has not read it, the kernel posts the completion of \<open>p\<close>, which fills the ring and
  so is written over the one marked as seen. \<open>WaitResult\<close> then wakes the task of \<open>p\<close> and frees the
  data of \<open>p\<close>, and the completion of \<open>p\<close> that is still in the ring follows a freed pointer when its
  turn comes; the result of \<open>q\<close> is never stored, and its data stays allocated.
\<close>

theorem full_ring_dangles:
  assumes "Suc (length cq) = n" "p \<in> pend" "p \<noteq> q"
    and "rdata e p = Some \<lparr>rd_type = NORMAL, rd_res = rp\<rparr>" "rdata e q = Some \<lparr>rd_type = NORMAL, rd_res = rq\<rparr>"
    and "rp \<noteq> rq"
  shows "\<exists>e'. (eng_step n n)\<^sup>*\<^sup>* (e, pend, cq, Some (u, q)) (e', pend - {p}, cq @ [(v, p)], None) \<and>
    on_cqe v p e' = Inl Dangling \<and> ret (results e' rp) = v \<and> results e' rq = results e rq \<and>
    rdata e' q = rdata e q"
proof -
  let ?e = "snd (finish_data p rp v e)"
  have "on_cqe v p e = Inr (Woken (user_data (results e rp)), ?e)"
    using assms(4) by (simp add: on_cqe_def finish_data_def)
  from read [OF this] have "eng_step n n (e, pend - {p}, cq @ [(v, p)], Some (v, p)) (?e, pend - {p}, cq @ [(v, p)], None)" .
  moreover have "eng_step n n (e, pend, cq, Some (u, q)) (e, pend - {p}, cq @ [(v, p)], Some (v, p))"
    using post [of p pend cq n n e "Some (u, q)" v] assms(1,2) by simp
  ultimately have "(eng_step n n)\<^sup>*\<^sup>* (e, pend, cq, Some (u, q)) (?e, pend - {p}, cq @ [(v, p)], None)" by simp
  then show ?thesis using assms(3,5,6) by (intro exI [of _ ?e]) (simp add: on_cqe_def finish_data_def)
qed

text \<open>Two reads on a ring of one entry.\<close>

definition two_reads :: engine where
  "two_reads = sample_engine\<lparr>kernel := [\<lparr>sq_op = sample_read, sq_link = False, sq_data = 0\<rparr>,
       \<lparr>sq_op = sample_read, sq_link = False, sq_data = 1\<rparr>],
     rdata := [0 \<mapsto> \<lparr>rd_type = NORMAL, rd_res = 1\<rparr>, 1 \<mapsto> \<lparr>rd_type = NORMAL, rd_res = 2\<rparr>], next_data := 2\<rparr>"

lemma two_reads_seen: "reach eng_start (eng_step 1 1) (two_reads, {1}, [], Some (512, 0))"
proof -
  let ?e = "sample_engine\<lparr>kernel := [\<lparr>sq_op = sample_read, sq_link = False, sq_data = 0\<rparr>],
     rdata := [0 \<mapsto> \<lparr>rd_type = NORMAL, rd_res = 1\<rparr>], next_data := 1\<rparr>"
  have 2: "Exec True True sample_read 2 no_timeout ?e = Inr (True, two_reads)"
    by (simp add: Exec_def new_data_def Submit_def no_timeout_def sample_engine_def two_reads_def)
  have "reach eng_start (eng_step 1 1) (sample_engine, {}, [], None)"
    by (rule reach_init) (simp add: eng_start_def)
  from reach_step [OF this submit [OF sample_exec]]
  have "reach eng_start (eng_step 1 1) (?e, {0}, [], None)" by simp
  from reach_step [OF this submit [OF 2]]
  have "reach eng_start (eng_step 1 1) (two_reads, {0, 1}, [], None)" by (simp add: two_reads_def insert_commute)
  moreover have "eng_step 1 1 (two_reads, {0, 1}, [], None) (two_reads, {1}, [(512, 0)], None)"
    using post [of 0 "{0, 1}" "[]" 1 1 two_reads None 512] by simp
  ultimately have "reach eng_start (eng_step 1 1) (two_reads, {1}, [(512, 0)], None)" by (rule reach_step)
  from reach_step [OF this see] show ?thesis .
qed

theorem full_ring_dangles_witness:
  "\<exists>e'. reach eng_start (eng_step 1 1) (e', {}, [(64, 1)], None) \<and> on_cqe 64 1 e' = Inl Dangling"
proof -
  have "\<exists>e'. (eng_step 1 1)\<^sup>*\<^sup>* (two_reads, {1}, [], Some (512, 0)) (e', {1} - {1}, [] @ [(64, 1)], None) \<and>
    on_cqe 64 1 e' = Inl Dangling \<and> ret (results e' 2) = 64 \<and> results e' 1 = results two_reads 1 \<and>
    rdata e' 0 = rdata two_reads 0"
    by (rule full_ring_dangles) (simp_all add: two_reads_def)
  then obtain e' where "(eng_step 1 1)\<^sup>*\<^sup>* (two_reads, {1}, [], Some (512, 0)) (e', {}, [(64, 1)], None)"
    "on_cqe 64 1 e' = Inl Dangling" by auto
  then show ?thesis using reach_trans [OF _ two_reads_seen] by blast
qed

text \<open>
  A request without a timeout is a round trip. With an entry free, \<open>Exec\<close> submits exactly
  one more entry, behind those prepared before; its completion with a result \<open>v\<close> makes
  \<open>WaitResult\<close> answer with the task of that request, its result set to \<open>v\<close>, every other
  result untouched, and the request's ring data gone again.
\<close>

theorem exec_roundtrip:
  assumes "next_data e \<notin> dom (rdata e)"
  shows "\<exists>e1 e2. Exec True free2 func r no_timeout e = Inr (True, e1) \<and>
    kernel e1 = kernel e @ sq e @ [\<lparr>sq_op = func, sq_link = False, sq_data = next_data e\<rparr>] \<and> sq e1 = [] \<and>
    WaitResult (Cqe v (next_data e) # evs) e1 = Inr (Some (user_data (results e r)), evs, e2) \<and>
    results e2 = (results e)(r := (results e r)\<lparr>ret := v\<rparr>) \<and> rdata e2 = rdata e"
proof -
  have "(rdata e)(next_data e := None) = rdata e" using assms by (auto simp: domIff)
  then show ?thesis
    by (simp add: Exec_def new_data_def Submit_def no_timeout_def Let_def on_cqe_def finish_data_def)
qed

theorem exec_roundtrip_witness:
  "\<exists>e1 e2. Exec True True sample_read 1 no_timeout sample_engine = Inr (True, e1) \<and>
    WaitResult [Cqe 512 0] e1 = Inr (Some 77, [], e2) \<and> ret (results e2 1) = 512"
  using exec_roundtrip [of sample_engine True sample_read 1 512 "[]"] by auto

text \<open>
  Every request with a timeout that succeeds in time leaks. The operation completes with
  \<open>v\<close> and the linked timeout with -ECANCELED: the first \<open>WaitResult\<close> wakes the task with
  \<open>v\<close>, a second one skips the cancelled timeout and waits on, and the timeout's ring data stays
  allocated.
\<close>

theorem timed_request_leaks:
  assumes "0 \<le>s tv_sec ts \<and> 0 \<le>s tv_nsec ts" "0 <s tv_sec ts \<or> 0 <s tv_nsec ts"
    and "next_data e \<notin> dom (rdata e)"
  shows "\<exists>e1 e2. Exec True True func r ts e = Inr (True, e1) \<and>
    WaitResult [Cqe v (next_data e), Cqe (- ECANCELED) (Suc (next_data e))] e1 =
      Inr (Some (user_data (results e r)), [Cqe (- ECANCELED) (Suc (next_data e))], e2) \<and>
    ret (results e2 r) = v \<and>
    on_cqe (- ECANCELED) (Suc (next_data e)) e2 = Inr (Skipped, e2) \<and>
    dom (rdata e2) = insert (Suc (next_data e)) (dom (rdata e))"
  using assms
  by (auto simp: Exec_def new_data_def Submit_def Let_def on_cqe_def finish_data_def
      ETIME_def ENOENT_def ECANCELED_def)

theorem timed_request_leaks_witness:
  "\<exists>e1 e2. Exec True True sample_read 1 \<lparr>tv_sec = 1, tv_nsec = 0\<rparr> sample_engine = Inr (True, e1) \<and>
    WaitResult [Cqe 512 0, Cqe (- ECANCELED) 1] e1 = Inr (Some 77, [Cqe (- ECANCELED) 1], e2) \<and>
    dom (rdata e2) = {1}"
  using timed_request_leaks [of "\<lparr>tv_sec = 1, tv_nsec = 0\<rparr>" sample_engine sample_read 1 512]
  by (auto simp: word_sless_alt word_sle_eq)

text \<open>
  A timeout wakes its task twice and ends as a byte count. When the timeout fires, the kernel
  completes the cancelled operation with -ECANCELED and the timeout with -ETIME: both completions
  make \<open>WaitResult\<close> answer with the same task, and the result ends as \<open>+11\<close> (EAGAIN without
  the minus sign), which the callers take for eleven bytes.
\<close>

theorem timeout_wakes_twice:
  assumes "0 \<le>s tv_sec ts \<and> 0 \<le>s tv_nsec ts" "0 <s tv_sec ts \<or> 0 <s tv_nsec ts"
  shows "\<exists>e1 e2 e3. Exec True True func r ts e = Inr (True, e1) \<and>
    WaitResult [Cqe (- ECANCELED) (next_data e), Cqe (- ETIME) (Suc (next_data e))] e1 =
      Inr (Some (user_data (results e r)), [Cqe (- ETIME) (Suc (next_data e))], e2) \<and>
    WaitResult [Cqe (- ETIME) (Suc (next_data e))] e2 = Inr (Some (user_data (results e r)), [], e3) \<and>
    ret (results e2 r) = - ECANCELED \<and> ret (results e3 r) = 11"
  using assms
  by (auto simp: Exec_def new_data_def Submit_def Let_def on_cqe_def finish_data_def
      ETIME_def ENOENT_def ECANCELED_def EAGAIN_def)

theorem timeout_wakes_twice_witness:
  "\<exists>e1 e2 e3. Exec True True sample_read 1 \<lparr>tv_sec = 1, tv_nsec = 0\<rparr> sample_engine = Inr (True, e1) \<and>
    WaitResult [Cqe (- ECANCELED) 0, Cqe (- ETIME) 1] e1 = Inr (Some 77, [Cqe (- ETIME) 1], e2) \<and>
    WaitResult [Cqe (- ETIME) 1] e2 = Inr (Some 77, [], e3) \<and> ret (results e3 1) = 11"
  using timeout_wakes_twice [of "\<lparr>tv_sec = 1, tv_nsec = 0\<rparr>" sample_read 1 sample_engine]
  by (auto simp: word_sless_alt word_sle_eq)

text \<open>
  A request that fails half-way is submitted all the same. If no entry is free for the linked
  timeout, \<open>Exec\<close> answers false, but the operation stays prepared with its link flag; the next
  successful request submits it, linked to an operation it has nothing to do with.
\<close>

theorem exec_half_failed_is_submitted:
  assumes "0 \<le>s tv_sec ts \<and> 0 \<le>s tv_nsec ts" "0 <s tv_sec ts \<or> 0 <s tv_nsec ts" "sq e = []"
  shows "\<exists>e1 e2. Exec True False func r ts e = Inr (False, e1) \<and> kernel e1 = kernel e \<and>
    Exec True free2 func' r' no_timeout e1 = Inr (True, e2) \<and>
    kernel e2 = kernel e @ [\<lparr>sq_op = func, sq_link = True, sq_data = next_data e\<rparr>,
      \<lparr>sq_op = func', sq_link = False, sq_data = Suc (next_data e)\<rparr>]"
  using assms by (auto simp: Exec_def new_data_def Submit_def no_timeout_def Let_def)

theorem exec_half_failed_is_submitted_witness:
  "\<exists>e1 e2. Exec True False sample_read 1 \<lparr>tv_sec = 1, tv_nsec = 0\<rparr> sample_engine = Inr (False, e1) \<and>
    Exec True True (Prep_write 4 0 8 0) 2 no_timeout e1 = Inr (True, e2) \<and>
    map sq_link (kernel e2) = [True, False]"
  using exec_half_failed_is_submitted [of "\<lparr>tv_sec = 1, tv_nsec = 0\<rparr>" sample_engine sample_read 1
      True "Prep_write 4 0 8 0" 2]
  by (auto simp: word_sless_alt word_sle_eq)

text \<open>An entry marked as seen too early loses a completion. The operations \<open>p\<close> and \<open>q\<close> of two tasks
  complete while the ring is full; when the entry of \<open>p\<close> is released, the kernel puts that of \<open>q\<close> into
  its place. The first \<open>WaitResult\<close> then wakes the task of \<open>q\<close> and frees the data of \<open>q\<close>, and when
  the entry comes a second time the data pointer dangles; the result of \<open>p\<close> is never stored and its
  data never freed.\<close>

theorem seen_entry_is_reused:
  assumes "rdata e p = Some \<lparr>rd_type = NORMAL, rd_res = rp\<rparr>" "rdata e q = Some \<lparr>rd_type = NORMAL, rd_res = rq\<rparr>"
    and "p \<noteq> q" "rp \<noteq> rq"
  shows "\<exists>e'. WaitResult_seen [W_cqe (v, p) (u, q), W_cqe (u, q) (u, q)] e =
      Inr (Some (user_data (results e rq)), [W_cqe (u, q) (u, q)], e') \<and>
    results e' rp = results e rp \<and> rdata e' p \<noteq> None \<and>
    WaitResult_seen [W_cqe (u, q) (u, q)] e' = Inl Dangling"
  using assms by (auto simp: on_cqe_def finish_data_def)

theorem seen_entry_is_reused_witness:
  "\<exists>e'. WaitResult_seen [W_cqe (512, 0) (64, 1), W_cqe (64, 1) (64, 1)]
      (sample_engine\<lparr>rdata := [0 \<mapsto> \<lparr>rd_type = NORMAL, rd_res = 1\<rparr>, 1 \<mapsto> \<lparr>rd_type = NORMAL, rd_res = 2\<rparr>]\<rparr>) =
      Inr (Some (user_data (results sample_engine 2)), [W_cqe (64, 1) (64, 1)], e') \<and>
    WaitResult_seen [W_cqe (64, 1) (64, 1)] e' = Inl Dangling"
  using seen_entry_is_reused [of "sample_engine\<lparr>rdata := [0 \<mapsto> \<lparr>rd_type = NORMAL, rd_res = 1\<rparr>,
      1 \<mapsto> \<lparr>rd_type = NORMAL, rd_res = 2\<rparr>]\<rparr>" 0 1 1 2 512 64] by auto

end
