(* ===== verification/Fd_Hook.thy ===== *)
theory Fd_Hook
  imports Io_Engine "HOL-Library.Signed_Division"
begin

unbundle bit_operations_syntax

text \<open>
  The hooked system calls of \<open>hook/hook.cpp\<close> and the descriptor table of
  \<open>hook/fd_desc.cpp\<close>. The original calls (\<open>open_f\<close>, \<open>read_f\<close>, ...) are the C library's:
  what they return is an argument. The vector \<open>fds\<close> of shared pointers is a list of addresses
  into the store \<open>descs\<close>, so that duplicated descriptors share one \<open>FdDesc\<close>. A call that can
  suspend is modelled by its \<open>route\<close>: handed to the original call, or submitted to the engine
  with the request the source prepares; \<open>IOSubmit_result\<close> is what the coroutine makes of the
  result when it runs again. \<open>cor\<close> says whether the caller runs on a processer.
\<close>

section \<open>Descriptors\<close>

datatype fd_type = tSocket | tOther

record fd_desc =
  fd_no :: i32
  fdType :: fd_type
  isNonBlocking :: bool
  recvTimeout :: i64
  sendTimeout :: i64
  offset :: i64
  domain_of :: i32
  type_of :: i32

record hooks =
  fds :: "nat option list"
  descs :: "nat \<rightharpoonup> fd_desc"
  next_desc :: nat

definition FdDesc_new :: "i32 \<Rightarrow> fd_type \<Rightarrow> bool \<Rightarrow> fd_desc" where
  "FdDesc_new fd ty nb = \<lparr>fd_no = fd, fdType = ty, isNonBlocking = nb, recvTimeout = 0,
     sendTimeout = 0, offset = 0, domain_of = - 1, type_of = - 1\<rparr>"

definition SOCK_STREAM :: i32 where "SOCK_STREAM = 1"
definition SOCK_NONBLOCK :: i32 where "SOCK_NONBLOCK = 0x800"
definition O_NONBLOCK :: i32 where "O_NONBLOCK = 0x800"
definition MSG_DONTWAIT :: i32 where "MSG_DONTWAIT = 0x40"
definition SOL_SOCKET :: i32 where "SOL_SOCKET = 1"
definition SO_RCVTIMEO :: i32 where "SO_RCVTIMEO = 20"
definition SO_SNDTIMEO :: i32 where "SO_SNDTIMEO = 21"

definition SetSocketAttr :: "i32 \<Rightarrow> i32 \<Rightarrow> fd_desc \<Rightarrow> fd_desc" where
  "SetSocketAttr dm ty d = d\<lparr>domain_of := dm, type_of := ty\<rparr>"

definition IsTcpSocket :: "fd_desc \<Rightarrow> bool" where
  "IsTcpSocket d \<longleftrightarrow> fdType d = tSocket \<and> type_of d = SOCK_STREAM"

definition SetNonBlocking :: "bool \<Rightarrow> fd_desc \<Rightarrow> fd_desc" where
  "SetNonBlocking b d = d\<lparr>isNonBlocking := b\<rparr>"

definition GetSocketTimeout :: "i32 \<Rightarrow> fd_desc \<Rightarrow> i64" where
  "GetSocketTimeout ty d = (if ty = SO_RCVTIMEO then recvTimeout d else sendTimeout d)"

definition SetSocketTimeout :: "i32 \<Rightarrow> i32 \<Rightarrow> fd_desc \<Rightarrow> fd_desc" where
  "SetSocketTimeout ty microseconds d =
     (if ty = SO_RCVTIMEO then d\<lparr>recvTimeout := scast microseconds\<rparr>
      else if ty = SO_SNDTIMEO then d\<lparr>sendTimeout := scast microseconds\<rparr>
      else d)"

text \<open>
  The size of the table. When \<open>getrlimit64\<close> fails, the default it sets is overwritten by the
  field of the structure that was not filled in; \<open>rlim_cur\<close> is whatever that field holds.
\<close>

definition FdLim_new :: "i32 \<Rightarrow> u64 \<Rightarrow> i32" where
  "FdLim_new rv rlim_cur =
     (let maxFdNums = (102400 :: i32);
          maxFdNums = (if rv = - 1 then 102400 else maxFdNums);
          maxFdNums = ucast rlim_cur
      in maxFdNums)"

text \<open>The table: a negative size converts to one the vector cannot have.\<close>

definition fds_new :: "i32 \<Rightarrow> fault + hooks" where
  "fds_new n = (if n <s 0 then Inl (Thrown ''length_error'')
     else Inr \<lparr>fds = replicate (unat n) None, descs = (\<lambda>_. None), next_desc = 0\<rparr>)"

text \<open>\<open>fds[fd]\<close>: an index past the end, or negative, is undefined behaviour.\<close>

definition in_table :: "i32 \<Rightarrow> hooks \<Rightarrow> bool" where
  "in_table fd h \<longleftrightarrow> 0 \<le>s fd \<and> unat fd < length (fds h)"

definition get_fd :: "i32 \<Rightarrow> hooks \<Rightarrow> fault + nat option" where
  "get_fd fd h = (if in_table fd h then Inr (fds h ! unat fd) else Inl Out_of_bounds)"

definition set_fd :: "i32 \<Rightarrow> nat option \<Rightarrow> hooks \<Rightarrow> fault + hooks" where
  "set_fd fd p h =
     (if in_table fd h then Inr (h\<lparr>fds := (fds h)[unat fd := p]\<rparr>) else Inl Out_of_bounds)"

definition get_desc :: "nat \<Rightarrow> hooks \<Rightarrow> fault + fd_desc" where
  "get_desc p h = (case descs h p of None \<Rightarrow> Inl Dangling | Some d \<Rightarrow> Inr d)"

definition put_desc :: "nat \<Rightarrow> fd_desc \<Rightarrow> hooks \<Rightarrow> hooks" where
  "put_desc p d h = h\<lparr>descs := (descs h)(p \<mapsto> d)\<rparr>"

definition make_desc :: "fd_desc \<Rightarrow> hooks \<Rightarrow> nat \<times> hooks" where
  "make_desc d h = (next_desc h, h\<lparr>descs := (descs h)(next_desc h \<mapsto> d), next_desc := Suc (next_desc h)\<rparr>)"

text \<open>The object behind a descriptor, if the table knows it.\<close>

definition find_desc :: "i32 \<Rightarrow> hooks \<Rightarrow> fault + (nat \<times> fd_desc) option" where
  "find_desc fd h =
     bindE (get_fd fd h) (\<lambda>r. case r of
       None \<Rightarrow> Inr None
     | Some p \<Rightarrow> bindE (get_desc p h) (\<lambda>d. Inr (Some (p, d))))"

section \<open>Opening, closing and duplicating\<close>

definition hook_open :: "i32 \<Rightarrow> i32 \<Rightarrow> hooks \<Rightarrow> fault + hooks" where
  "hook_open fd oflags h =
     (if 0 \<le>s fd
      then let (p, h1) = make_desc (FdDesc_new fd tOther (oflags AND O_NONBLOCK \<noteq> 0)) h
        in set_fd fd (Some p) h1
      else Inr h)"

definition hook_socket :: "i32 \<Rightarrow> i32 \<Rightarrow> i32 \<Rightarrow> hooks \<Rightarrow> fault + hooks" where
  "hook_socket fd dm ty h =
     (if 0 \<le>s fd
      then let (p, h1) = make_desc (FdDesc_new fd tSocket False) h
        in bindE (set_fd fd (Some p) h1) (\<lambda>h2.
             bindE (get_desc p h2) (\<lambda>d. Inr (put_desc p (SetSocketAttr dm ty d) h2)))
      else Inr h)"

definition hook_close :: "i32 \<Rightarrow> i32 \<Rightarrow> hooks \<Rightarrow> fault + hooks" where
  "hook_close rv fd h = (if 0 \<le>s rv then set_fd fd None h else Inr h)"

definition hook_dup :: "i32 \<Rightarrow> i32 \<Rightarrow> hooks \<Rightarrow> fault + hooks" where
  "hook_dup newfd oldfd h =
     (if 0 \<le>s newfd then bindE (get_fd oldfd h) (\<lambda>p. set_fd newfd p h) else Inr h)"

definition hook_dup2 :: "i32 \<Rightarrow> i32 \<Rightarrow> i32 \<Rightarrow> hooks \<Rightarrow> fault + hooks" where
  "hook_dup2 rv oldfd newfd h =
     (if oldfd = newfd then Inr h
      else if 0 \<le>s rv then bindE (get_fd oldfd h) (\<lambda>p. set_fd newfd p h)
      else Inr h)"

text \<open>
  \<open>fcntl\<close>: the argument that reaches the original call, and the effect on the table. \<open>rv\<close> is
  the original call's answer, used by the commands that duplicate; F_SETFL updates the object
  before the original call, whatever that answers.
\<close>

datatype fcntl_arg = No_arg | Int_arg | Pointer_arg

definition fcntl_arg_of :: "i32 \<Rightarrow> fcntl_arg" where
  "fcntl_arg_of cmd =
     (if cmd \<in> {0, 1030, 2, 8, 10, 1024, 1026, 1031, 4} then Int_arg
      else if cmd \<in> {5, 6, 7, 16, 15} then Pointer_arg
      else No_arg)"

definition hook_fcntl :: "i32 \<Rightarrow> i32 \<Rightarrow> i32 \<Rightarrow> i32 \<Rightarrow> hooks \<Rightarrow> fault + hooks" where
  "hook_fcntl rv fd cmd arg h =
     (if cmd = 0 \<or> cmd = 1030
      then (if 0 \<le>s rv then bindE (get_fd fd h) (\<lambda>p. set_fd rv p h) else Inr h)
      else if cmd = 4
      then bindE (find_desc fd h) (\<lambda>r. case r of
             None \<Rightarrow> Inr h
           | Some (p, d) \<Rightarrow> Inr (put_desc p (SetNonBlocking (arg AND O_NONBLOCK \<noteq> 0) d) h))
      else Inr h)"

section \<open>Calls that can suspend\<close>

datatype route = Direct | Async prep timespec

text \<open>What \<open>IOSubmit\<close> leaves in \<open>res.ret\<close>, and \<open>errno\<close> when it sets it.\<close>

definition IOSubmit_result :: "i32 \<Rightarrow> i32 \<times> i32 option" where
  "IOSubmit_result rv = (if rv <s 0 then (- 1, Some (- rv)) else (rv, None))"

definition split_timeout :: "i64 \<Rightarrow> timespec" where
  "split_timeout us = \<lparr>tv_sec = word_of_int (sint us sdiv 1000000),
     tv_nsec = word_of_int (sint us smod 1000000 * 1000)\<rparr>"

definition hook_connect :: "bool \<Rightarrow> i32 \<Rightarrow> u64 \<Rightarrow> u32 \<Rightarrow> hooks \<Rightarrow> fault + route" where
  "hook_connect cor fd addr len h =
     bindE (find_desc fd h) (\<lambda>r. case r of
       None \<Rightarrow> Inr Direct
     | Some (p, d) \<Rightarrow>
         if fdType d \<noteq> tSocket \<or> isNonBlocking d \<or> \<not> IsTcpSocket d \<or> \<not> cor then Inr Direct
         else Inr (Async (Prep_connect fd addr len) no_timeout))"

definition hook_accept4 :: "bool \<Rightarrow> i32 \<Rightarrow> u64 \<Rightarrow> u64 \<Rightarrow> i32 \<Rightarrow> hooks \<Rightarrow> fault + route" where
  "hook_accept4 cor fd addr lenp flags h =
     bindE (find_desc fd h) (\<lambda>r. case r of
       None \<Rightarrow> Inr Direct
     | Some (p, d) \<Rightarrow>
         if fdType d \<noteq> tSocket \<or> \<not> cor then Inr Direct
         else Inr (Async (Prep_accept fd addr lenp flags) no_timeout))"

definition hook_accept :: "bool \<Rightarrow> i32 \<Rightarrow> u64 \<Rightarrow> u64 \<Rightarrow> hooks \<Rightarrow> fault + route" where
  "hook_accept cor fd addr lenp h = hook_accept4 cor fd addr lenp 0 h"

text \<open>The rest of \<open>accept4\<close> after the suspension; \<open>d\<close> is the listening socket's object.\<close>

definition accept4_done :: "i32 \<Rightarrow> i32 \<Rightarrow> fd_desc \<Rightarrow> hooks \<Rightarrow> fault + hooks" where
  "accept4_done rv flags d h =
     (if 0 \<le>s rv
      then let (p, h1) = make_desc (FdDesc_new rv tSocket (flags AND SOCK_NONBLOCK \<noteq> 0)) h
        in bindE (set_fd rv (Some p) h1) (\<lambda>h2.
             bindE (get_desc p h2) (\<lambda>d'. Inr (put_desc p (SetSocketAttr (domain_of d) (type_of d) d') h2)))
      else Inr h)"

text \<open>
  \<open>read\<close> and \<open>write\<close>. On a file the closure advances the offset by \<open>res.ret\<close> as soon as the
  request is submitted, when the completion has not written it; \<open>junk\<close> is what it holds then.
\<close>

definition advance :: "i32 \<Rightarrow> fd_desc \<Rightarrow> fd_desc" where
  "advance junk d = (if 0 \<le>s junk then d\<lparr>offset := offset d + scast junk\<rparr> else d)"

definition hook_read ::
  "bool \<Rightarrow> i32 \<Rightarrow> i32 \<Rightarrow> u64 \<Rightarrow> u64 \<Rightarrow> hooks \<Rightarrow> fault + (route \<times> hooks)" where
  "hook_read cor junk fd buf count h =
     bindE (find_desc fd h) (\<lambda>r. case r of
       None \<Rightarrow> Inr (Direct, h)
     | Some (p, d) \<Rightarrow>
         if isNonBlocking d \<or> \<not> cor then Inr (Direct, h)
         else case fdType d of
           tOther \<Rightarrow> Inr (Async (Prep_read fd buf (ucast count) (offset d)) no_timeout,
             put_desc p (advance junk d) h)
         | tSocket \<Rightarrow> Inr (Async (Prep_recv fd buf count 0)
             (split_timeout (GetSocketTimeout SO_RCVTIMEO d)), h))"

definition hook_write ::
  "bool \<Rightarrow> i32 \<Rightarrow> i32 \<Rightarrow> u64 \<Rightarrow> u64 \<Rightarrow> hooks \<Rightarrow> fault + (route \<times> hooks)" where
  "hook_write cor junk fd buf count h =
     bindE (find_desc fd h) (\<lambda>r. case r of
       None \<Rightarrow> Inr (Direct, h)
     | Some (p, d) \<Rightarrow>
         if isNonBlocking d \<or> \<not> cor then Inr (Direct, h)
         else case fdType d of
           tOther \<Rightarrow> Inr (Async (Prep_write fd buf (ucast count) (offset d)) no_timeout,
             put_desc p (advance junk d) h)
         | tSocket \<Rightarrow> Inr (Async (Prep_send fd buf count 0)
             (split_timeout (GetSocketTimeout SO_SNDTIMEO d)), h))"

text \<open>The four socket calls differ in the request and in the timeout they use.\<close>

definition socket_route ::
  "bool \<Rightarrow> i32 \<Rightarrow> i32 \<Rightarrow> i32 \<Rightarrow> prep \<Rightarrow> hooks \<Rightarrow> fault + route" where
  "socket_route cor fd flags which req h =
     bindE (find_desc fd h) (\<lambda>r. case r of
       None \<Rightarrow> Inr Direct
     | Some (p, d) \<Rightarrow>
         if fdType d \<noteq> tSocket \<or> isNonBlocking d \<or> flags AND MSG_DONTWAIT \<noteq> 0 \<or> \<not> cor
         then Inr Direct
         else Inr (Async req (split_timeout (GetSocketTimeout which d))))"

definition hook_recv :: "bool \<Rightarrow> i32 \<Rightarrow> u64 \<Rightarrow> u64 \<Rightarrow> i32 \<Rightarrow> hooks \<Rightarrow> fault + route" where
  "hook_recv cor fd buf len flags = socket_route cor fd flags SO_RCVTIMEO (Prep_recv fd buf len flags)"

definition hook_send :: "bool \<Rightarrow> i32 \<Rightarrow> u64 \<Rightarrow> u64 \<Rightarrow> i32 \<Rightarrow> hooks \<Rightarrow> fault + route" where
  "hook_send cor fd buf len flags = socket_route cor fd flags SO_SNDTIMEO (Prep_send fd buf len flags)"

definition hook_recvmsg :: "bool \<Rightarrow> i32 \<Rightarrow> u64 \<Rightarrow> i32 \<Rightarrow> hooks \<Rightarrow> fault + route" where
  "hook_recvmsg cor fd msg flags = socket_route cor fd flags SO_RCVTIMEO (Prep_recvmsg fd msg flags)"

definition hook_sendmsg :: "bool \<Rightarrow> i32 \<Rightarrow> u64 \<Rightarrow> i32 \<Rightarrow> hooks \<Rightarrow> fault + route" where
  "hook_sendmsg cor fd msg flags = socket_route cor fd flags SO_SNDTIMEO (Prep_sendmsg fd msg flags)"

text \<open>
  The sleeping calls. Each calls the original, or submits, only if its argument is negative,
  and otherwise returns a local it has not written.
\<close>

definition hook_sleep :: "bool \<Rightarrow> u32 \<Rightarrow> fault + route" where
  "hook_sleep cor seconds =
     (if seconds < 0
      then if cor then Inr (Async (Prep_timeout \<lparr>tv_sec = ucast seconds, tv_nsec = 0\<rparr>) no_timeout)
           else Inr Direct
      else Inl Uninit_read)"

definition hook_usleep :: "bool \<Rightarrow> u32 \<Rightarrow> fault + route" where
  "hook_usleep cor usec =
     (if usec < 0
      then if cor then Inr (Async (Prep_timeout \<lparr>tv_sec = ucast (usec div 1000000),
             tv_nsec = ucast (usec mod 1000000 * 1000)\<rparr>) no_timeout)
           else Inr Direct
      else Inl Uninit_read)"

definition hook_nanosleep :: "bool \<Rightarrow> i64 \<Rightarrow> i64 \<Rightarrow> fault + route" where
  "hook_nanosleep cor sec nsec =
     (if sec <s 0
      then if cor then Inr (Async (Prep_timeout \<lparr>tv_sec = sec, tv_nsec = nsec\<rparr>) no_timeout)
           else Inr Direct
      else Inl Uninit_read)"

section \<open>Timeouts\<close>

definition hook_setsockopt ::
  "i32 \<Rightarrow> i32 \<Rightarrow> i32 \<Rightarrow> i32 \<Rightarrow> i64 \<Rightarrow> i64 \<Rightarrow> hooks \<Rightarrow> fault + hooks" where
  "hook_setsockopt rv fd level optname sec usec h =
     (if 0 \<le>s rv \<and> level = SOL_SOCKET \<and> (optname = SO_RCVTIMEO \<or> optname = SO_SNDTIMEO)
      then bindE (find_desc fd h) (\<lambda>r. case r of
             None \<Rightarrow> Inr h
           | Some (p, d) \<Rightarrow>
               let microseconds = ucast (sec * 1000000 + usec)
               in Inr (put_desc p (SetSocketTimeout optname microseconds d) h))
      else Inr h)"

section \<open>What the table promises\<close>

text \<open>
  The kernel's view, as far as the hooks depend on it: a descriptor refers to an open file
  description, and the non-blocking flag belongs to that, shared by all its duplicates.
\<close>

record files =
  file_of :: "i32 \<Rightarrow> nat option"
  nonblock :: "nat \<Rightarrow> bool"
  next_file :: nat

text \<open>The calls, each with the answer \<open>rv\<close> of the original one; negative when it failed. \<open>Op_accept\<close> is the
  \<open>accept4\<close> of a coroutine on a socket with the object \<open>d\<close>.\<close>

datatype fd_op =
    Op_open i32 i32
  | Op_socket i32 i32 i32
  | Op_accept i32 i32 fd_desc
  | Op_close i32 i32
  | Op_dup i32 i32
  | Op_dup2 i32 i32 i32
  | Op_dupfd i32 i32 bool
  | Op_setfl i32 i32 i32

definition new_file :: "i32 \<Rightarrow> bool \<Rightarrow> files \<Rightarrow> files" where
  "new_file fd nb f = f\<lparr>file_of := (file_of f)(fd \<mapsto> next_file f),
     nonblock := (nonblock f)(next_file f := nb), next_file := Suc (next_file f)\<rparr>"

fun op_answer :: "fd_op \<Rightarrow> i32" where
  "op_answer (Op_open rv oflags) = rv"
| "op_answer (Op_socket rv dm ty) = rv"
| "op_answer (Op_accept rv flags d) = rv"
| "op_answer (Op_close rv fd) = rv"
| "op_answer (Op_dup rv fd) = rv"
| "op_answer (Op_dup2 rv oldfd newfd) = rv"
| "op_answer (Op_dupfd rv fd cloexec) = rv"
| "op_answer (Op_setfl rv fd flags) = rv"

fun kernel_done :: "fd_op \<Rightarrow> files \<Rightarrow> files" where
  "kernel_done (Op_open rv oflags) f = new_file rv (oflags AND O_NONBLOCK \<noteq> 0) f"
| "kernel_done (Op_socket rv dm ty) f = new_file rv (ty AND SOCK_NONBLOCK \<noteq> 0) f"
| "kernel_done (Op_accept rv flags d) f = new_file rv (flags AND SOCK_NONBLOCK \<noteq> 0) f"
| "kernel_done (Op_close rv fd) f = f\<lparr>file_of := (file_of f)(fd := None)\<rparr>"
| "kernel_done (Op_dup rv fd) f = f\<lparr>file_of := (file_of f)(rv := file_of f fd)\<rparr>"
| "kernel_done (Op_dup2 rv oldfd newfd) f = f\<lparr>file_of := (file_of f)(newfd := file_of f oldfd)\<rparr>"
| "kernel_done (Op_dupfd rv fd cloexec) f = f\<lparr>file_of := (file_of f)(rv := file_of f fd)\<rparr>"
| "kernel_done (Op_setfl rv fd flags) f = (case file_of f fd of
     None \<Rightarrow> f
   | Some i \<Rightarrow> f\<lparr>nonblock := (nonblock f)(i := flags AND O_NONBLOCK \<noteq> 0)\<rparr>)"

text \<open>A call that fails changes nothing.\<close>

definition kernel_op :: "fd_op \<Rightarrow> files \<Rightarrow> files" where
  "kernel_op op f = (if op_answer op <s 0 then f else kernel_done op f)"

text \<open>The same calls through the hooks.\<close>

fun hook_op :: "fd_op \<Rightarrow> hooks \<Rightarrow> fault + hooks" where
  "hook_op (Op_open rv oflags) h = hook_open rv oflags h"
| "hook_op (Op_socket rv dm ty) h = hook_socket rv dm ty h"
| "hook_op (Op_accept rv flags d) h = accept4_done rv flags d h"
| "hook_op (Op_close rv fd) h = hook_close rv fd h"
| "hook_op (Op_dup rv fd) h = hook_dup rv fd h"
| "hook_op (Op_dup2 rv oldfd newfd) h = hook_dup2 rv oldfd newfd h"
| "hook_op (Op_dupfd rv fd cloexec) h = hook_fcntl rv fd (if cloexec then 1030 else 0) 0 h"
| "hook_op (Op_setfl rv fd flags) h = hook_fcntl rv fd 4 flags h"

text \<open>The descriptors that must be within the table; an \<open>F_SETFL\<close> is recorded before it is known whether it
  fails, so it must not.\<close>

fun op_fds :: "fd_op \<Rightarrow> i32 set" where
  "op_fds (Op_open rv oflags) = {rv}"
| "op_fds (Op_socket rv dm ty) = {rv}"
| "op_fds (Op_accept rv flags d) = {rv}"
| "op_fds (Op_close rv fd) = {fd}"
| "op_fds (Op_dup rv fd) = {rv, fd}"
| "op_fds (Op_dup2 rv oldfd newfd) = {newfd, oldfd}"
| "op_fds (Op_dupfd rv fd cloexec) = {rv, fd}"
| "op_fds (Op_setfl rv fd flags) = {fd}"

definition fd_room :: "nat \<Rightarrow> i32 \<Rightarrow> bool" where
  "fd_room n fd \<longleftrightarrow> 0 \<le>s fd \<and> unat fd < n"

fun op_ok :: "nat \<Rightarrow> fd_op \<Rightarrow> bool" where
  "op_ok n (Op_socket rv dm ty) \<longleftrightarrow> 0 \<le>s rv \<longrightarrow> fd_room n rv \<and> ty AND SOCK_NONBLOCK = 0"
| "op_ok n (Op_setfl rv fd flags) \<longleftrightarrow> 0 \<le>s rv \<and> fd_room n fd"
| "op_ok n op \<longleftrightarrow> 0 \<le>s op_answer op \<longrightarrow> (\<forall>fd \<in> op_fds op. fd_room n fd)"

definition abs_files :: "hooks \<Rightarrow> files" where
  "abs_files h = \<lparr>file_of = (\<lambda>fd. if in_table fd h then fds h ! unat fd else None),
     nonblock = (\<lambda>p. case descs h p of None \<Rightarrow> False | Some d \<Rightarrow> isNonBlocking d),
     next_file = next_desc h\<rparr>"

definition hooks_inv :: "hooks \<Rightarrow> bool" where
  "hooks_inv h \<longleftrightarrow> (\<forall>p. Some p \<in> set (fds h) \<longrightarrow> descs h p \<noteq> None)"

lemma in_table_room: "in_table fd h \<longleftrightarrow> fd_room (length (fds h)) fd"
  by (simp add: in_table_def fd_room_def)

lemma abs_files_sel [simp]:
  "file_of (abs_files h) fd = (if in_table fd h then fds h ! unat fd else None)"
  "next_file (abs_files h) = next_desc h"
  by (simp_all add: abs_files_def)

text \<open>Storing a pointer into the table, and a new object.\<close>

lemma set_fd_ok:
  assumes "in_table fd h"
  shows "set_fd fd p h = Inr (h\<lparr>fds := (fds h)[unat fd := p]\<rparr>)"
    "abs_files (h\<lparr>fds := (fds h)[unat fd := p]\<rparr>) = (abs_files h)\<lparr>file_of := (file_of (abs_files h))(fd := p)\<rparr>"
    "hooks_inv h \<Longrightarrow> (\<forall>q. p = Some q \<longrightarrow> descs h q \<noteq> None) \<Longrightarrow> hooks_inv (h\<lparr>fds := (fds h)[unat fd := p]\<rparr>)"
  using assms
  by (auto simp: set_fd_def abs_files_def in_table_def fun_eq_iff nth_list_update word_unat_eq_iff [symmetric]
      hooks_inv_def dest!: subsetD [OF set_update_subset_insert])

lemma get_fd_live:
  "hooks_inv h \<Longrightarrow> in_table fd h \<Longrightarrow> \<exists>p. get_fd fd h = Inr p \<and> file_of (abs_files h) fd = p \<and>
     (\<forall>q. p = Some q \<longrightarrow> descs h q \<noteq> None)"
  by (auto simp: get_fd_def hooks_inv_def in_table_def) (metis nth_mem)

lemma make_desc_abs:
  assumes "hooks_inv h"
  shows "hooks_inv (h\<lparr>descs := (descs h)(p \<mapsto> d), next_desc := n\<rparr>)"
    "in_table fd (h\<lparr>descs := (descs h)(p \<mapsto> d), next_desc := n\<rparr>) = in_table fd h"
    "abs_files (h\<lparr>descs := (descs h)(p \<mapsto> d), next_desc := n\<rparr>) =
      (abs_files h)\<lparr>nonblock := (nonblock (abs_files h))(p := isNonBlocking d), next_file := n\<rparr>"
  using assms by (auto simp: hooks_inv_def in_table_def abs_files_def fun_eq_iff)

lemma put_desc_abs:
  assumes "hooks_inv h"
  shows "hooks_inv (put_desc p d h)" "fds (put_desc p d h) = fds h"
    "abs_files (put_desc p d h) =
      (abs_files h)\<lparr>nonblock := (nonblock (abs_files h))(p := isNonBlocking d)\<rparr>"
  using assms by (auto simp: put_desc_def hooks_inv_def in_table_def abs_files_def fun_eq_iff)

text \<open>A new object stored at a descriptor: the common part of \<open>open\<close>, \<open>socket\<close> and \<open>accept4\<close>.\<close>

lemma new_desc_ok:
  assumes "hooks_inv h" "in_table fd h" "make_desc d h = (p, h1)"
  shows "\<exists>h2. set_fd fd (Some p) h1 = Inr h2 \<and> hooks_inv h2 \<and> length (fds h2) = length (fds h) \<and>
    get_desc p h2 = Inr d \<and> abs_files h2 = new_file fd (isNonBlocking d) (abs_files h)"
proof -
  have h1: "p = next_desc h" "h1 = h\<lparr>descs := (descs h)(p \<mapsto> d), next_desc := Suc p\<rparr>"
    using assms(3) by (auto simp: make_desc_def)
  have t: "in_table fd h1" "hooks_inv h1"
    unfolding h1(2) using make_desc_abs [OF assms(1)] assms(2) by auto
  have "descs h1 p = Some d" by (simp add: h1(2))
  then show ?thesis
    using set_fd_ok [OF t(1), of "Some p"] t(2) make_desc_abs(3) [OF assms(1), where p = p and d = d and n = "Suc p"]
    by (auto simp: h1 get_desc_def new_file_def)
qed

lemma accept_ok:
  assumes "hooks_inv h" "in_table fd h" "0 \<le>s fd"
  shows "\<exists>h'. accept4_done fd flags d h = Inr h' \<and> hooks_inv h' \<and> length (fds h') = length (fds h) \<and>
    abs_files h' = new_file fd (flags AND SOCK_NONBLOCK \<noteq> 0) (abs_files h)"
proof -
  let ?d = "FdDesc_new fd tSocket (flags AND SOCK_NONBLOCK \<noteq> 0)"
  obtain p h1 where m: "make_desc ?d h = (p, h1)" by force
  from new_desc_ok [OF assms(1,2) m] obtain h2 where
    h2: "set_fd fd (Some p) h1 = Inr h2" "hooks_inv h2" "length (fds h2) = length (fds h)"
    "get_desc p h2 = Inr ?d" "abs_files h2 = new_file fd (flags AND SOCK_NONBLOCK \<noteq> 0) (abs_files h)"
    by (auto simp: FdDesc_new_def)
  have "p = next_desc h" using m by (simp add: make_desc_def)
  with put_desc_abs [OF h2(2)] h2 assms(3) m show ?thesis
    by (auto simp: accept4_done_def SetSocketAttr_def FdDesc_new_def new_file_def)
qed

lemma socket_ok:
  assumes "hooks_inv h" "in_table fd h" "0 \<le>s fd"
  shows "\<exists>h'. hook_socket fd dm ty h = Inr h' \<and> hooks_inv h' \<and> length (fds h') = length (fds h) \<and>
    abs_files h' = new_file fd False (abs_files h)"
proof -
  obtain p h1 where m: "make_desc (FdDesc_new fd tSocket False) h = (p, h1)" by force
  from new_desc_ok [OF assms(1,2) m] obtain h2 where
    h2: "set_fd fd (Some p) h1 = Inr h2" "hooks_inv h2" "length (fds h2) = length (fds h)"
    "get_desc p h2 = Inr (FdDesc_new fd tSocket False)"
    "abs_files h2 = new_file fd False (abs_files h)" by (auto simp: FdDesc_new_def)
  have "p = next_desc h" using m by (simp add: make_desc_def)
  with put_desc_abs [OF h2(2)] h2 assms(3) m show ?thesis
    by (auto simp: hook_socket_def SetSocketAttr_def FdDesc_new_def new_file_def)
qed

text \<open>\<open>fds[newfd] = fds[oldfd]\<close>, the common part of the duplications.\<close>

lemma share_fd_ok:
  assumes "hooks_inv h" "in_table newfd h" "in_table oldfd h"
  shows "\<exists>h'. bindE (get_fd oldfd h) (\<lambda>p. set_fd newfd p h) = Inr h' \<and> hooks_inv h' \<and>
    length (fds h') = length (fds h) \<and>
    abs_files h' = (abs_files h)\<lparr>file_of := (file_of (abs_files h))(newfd := file_of (abs_files h) oldfd)\<rparr>"
proof -
  from get_fd_live [OF assms(1,3)] obtain p where
    p: "get_fd oldfd h = Inr p" "file_of (abs_files h) oldfd = p" "\<forall>q. p = Some q \<longrightarrow> descs h q \<noteq> None"
    by blast
  from set_fd_ok [OF assms(2), of p] p assms(1) show ?thesis by (auto simp del: abs_files_sel)
qed

lemma setfl_ok:
  assumes "hooks_inv h" "in_table fd h"
  shows "\<exists>h'. hook_fcntl rv fd 4 flags h = Inr h' \<and> hooks_inv h' \<and> length (fds h') = length (fds h) \<and>
    abs_files h' = kernel_done (Op_setfl rv fd flags) (abs_files h)"
proof -
  from get_fd_live [OF assms] obtain p where
    p: "get_fd fd h = Inr p" "file_of (abs_files h) fd = p" "\<forall>q. p = Some q \<longrightarrow> descs h q \<noteq> None"
    by blast
  show ?thesis
  proof (cases p)
    case None
    with p assms(1) show ?thesis by (simp add: hook_fcntl_def find_desc_def del: abs_files_sel)
  next
    case (Some q)
    with p(3) obtain d where "descs h q = Some d" by blast
    with Some p put_desc_abs [OF assms(1)] show ?thesis
      by (simp add: hook_fcntl_def find_desc_def get_desc_def SetNonBlocking_def del: abs_files_sel)
  qed
qed

lemma failed_op: "op_ok n op \<Longrightarrow> op_answer op <s 0 \<Longrightarrow> hook_op op h = Inr h"
  by (cases op) (auto simp: hook_open_def hook_socket_def accept4_done_def hook_close_def hook_dup_def
      hook_dup2_def hook_fcntl_def word_sless_alt word_sle_eq)

lemma same_fd: "(f\<lparr>file_of := (file_of f)(fd := file_of f fd)\<rparr>) = (f :: files)"
  by simp

lemma hook_op_ok:
  assumes "hooks_inv h" "op_ok (length (fds h)) op"
  shows "\<exists>h'. hook_op op h = Inr h' \<and> hooks_inv h' \<and> length (fds h') = length (fds h) \<and>
    abs_files h' = kernel_op op (abs_files h)"
proof (cases "op_answer op <s 0")
  case True
  with failed_op [OF assms(2) True, of h] assms(1) show ?thesis by (simp add: kernel_op_def)
next
  case False
  then have rv: "0 \<le>s op_answer op" by (simp add: word_sless_alt word_sle_eq)
  then have t: "in_table fd h" if "fd \<in> op_fds op" for fd
    using assms(2) that by (cases op) (auto simp: in_table_room)
  note c = rv False assms t kernel_op_def
  show ?thesis
  proof (cases op)
    case (Op_open fd oflags)
    with t [of fd] new_desc_ok [OF assms(1), of fd "FdDesc_new fd tOther (oflags AND O_NONBLOCK \<noteq> 0)"] c show ?thesis
      by (cases "make_desc (FdDesc_new fd tOther (oflags AND O_NONBLOCK \<noteq> 0)) h")
        (fastforce simp: hook_open_def FdDesc_new_def)
  next
    case (Op_socket fd dm ty)
    with socket_ok [OF assms(1), of fd dm ty] c show ?thesis by simp
  next
    case (Op_accept fd flags d)
    with accept_ok [OF assms(1), of fd flags d] c show ?thesis by simp
  next
    case (Op_close rv fd)
    with set_fd_ok [of fd h None] c show ?thesis by (auto simp: hook_close_def)
  next
    case (Op_dup newfd oldfd)
    with share_fd_ok [OF assms(1), of newfd oldfd] c show ?thesis by (simp add: hook_dup_def del: abs_files_sel)
  next
    case (Op_dup2 rv oldfd newfd)
    with share_fd_ok [OF assms(1), of newfd oldfd] c show ?thesis
      by (cases "oldfd = newfd") (simp_all add: hook_dup2_def same_fd del: abs_files_sel)
  next
    case (Op_dupfd newfd oldfd cloexec)
    with share_fd_ok [OF assms(1), of newfd oldfd] c show ?thesis by (simp add: hook_fcntl_def del: abs_files_sel)
  next
    case (Op_setfl rv fd flags)
    with setfl_ok [OF assms(1), of fd rv flags] c show ?thesis by simp
  qed
qed

lemma hook_ops_ok:
  assumes "hooks_inv h" "list_all (op_ok (length (fds h))) ops"
  shows "\<exists>h'. foldE hook_op ops h = Inr h' \<and> hooks_inv h' \<and> length (fds h') = length (fds h) \<and>
    abs_files h' = fold kernel_op ops (abs_files h)"
  using assms
proof (induction ops arbitrary: h)
  case (Cons op ops)
  from hook_op_ok [OF Cons.prems(1)] Cons.prems(2) obtain h1 where
    h1: "hook_op op h = Inr h1" "hooks_inv h1" "length (fds h1) = length (fds h)"
    "abs_files h1 = kernel_op op (abs_files h)" by auto
  with Cons.IH [of h1] Cons.prems(2) show ?case by auto
qed simp

section \<open>Timeout arithmetic\<close>

lemma ucast_word_of_int: "ucast (word_of_int k :: i64) = (word_of_int k :: i32)"
  by (simp add: unsigned_of_int word_of_int_eq_iff)

lemma sint_scast_i32: "sint (scast (w :: i32) :: i64) = sint w"
  by (rule sint_up_scast) (simp add: is_up)

lemma sdiv_smod_nonneg:
  "0 \<le> t \<Longrightarrow> t sdiv 1000000 = t div 1000000" "0 \<le> t \<Longrightarrow> t smod 1000000 = t mod (1000000 :: int)"
  by (cases "t = 0"; simp add: signed_divide_int_def smod_int_alt_def)+

lemma sdiv_smod_neg:
  assumes "0 < (a :: int)"
  shows "- a sdiv 1000000 = - (a div 1000000)" "- a smod 1000000 = - (a mod 1000000)"
  using assms sdiv_smod_nonneg [of a] by simp_all

lemma sint_i64: "- (2 ^ 63) \<le> k \<Longrightarrow> k < 2 ^ 63 \<Longrightarrow> sint (word_of_int k :: i64) = k"
  by (simp add: sint_sbintrunc' signed_take_bit_int_eq_self)

text \<open>The \<open>int\<close> of microseconds that \<open>setsockopt\<close> computes, and what the calls make of it.\<close>

definition microseconds :: "int \<Rightarrow> int \<Rightarrow> i32" where
  "microseconds sec usec = ucast (word_of_int sec * 1000000 + word_of_int usec :: i64)"

lemma microseconds_eq: "microseconds sec usec = word_of_int (sec * 1000000 + usec)"
proof -
  have "(word_of_int sec * 1000000 + word_of_int usec :: i64) = word_of_int (sec * 1000000 + usec)"
    by simp
  then show ?thesis unfolding microseconds_def by (metis ucast_word_of_int)
qed

lemma split_timeout_ok:
  assumes "0 \<le> sec" "0 \<le> usec" "usec < 1000000" "sec * 1000000 + usec < 2 ^ 31"
  shows "split_timeout (scast (microseconds sec usec)) =
    \<lparr>tv_sec = word_of_int sec, tv_nsec = word_of_int (usec * 1000)\<rparr>"
proof -
  have "sint (scast (microseconds sec usec) :: i64) = sec * 1000000 + usec"
    unfolding sint_scast_i32 microseconds_eq by (rule sint_i32) (use assms in auto)
  moreover have "(sec * 1000000 + usec) sdiv 1000000 = sec" "(sec * 1000000 + usec) smod 1000000 = usec"
    using assms by (simp_all add: sdiv_smod_nonneg)
  ultimately show ?thesis by (simp add: split_timeout_def)
qed

lemma split_timeout_overflow:
  assumes "2148 \<le> sec" "sec \<le> 4294"
  shows "tv_sec (split_timeout (scast (microseconds sec 0))) <s 0 \<or>
    tv_nsec (split_timeout (scast (microseconds sec 0))) <s 0"
proof -
  let ?v = "sec * 1000000 - 2 ^ 32"
  have "(word_of_int (sec * 1000000) :: i32) = word_of_int ?v"
    by (simp add: word_of_int_eq_iff take_bit_eq_mod)
  then have "sint (word_of_int (sec * 1000000) :: i32) = ?v"
    by (simp only:) (rule sint_i32; use assms in simp)
  then have v: "sint (scast (microseconds sec 0) :: i64) = ?v"
    unfolding sint_scast_i32 microseconds_eq by simp
  define a where "a = - ?v"
  have a: "0 < a" "a < 2 ^ 31" "?v = - a" using assms by (auto simp: a_def)
  note d = sdiv_smod_neg [OF a(1)]
  have b: "0 \<le> a div 1000000" "a div 1000000 < 2 ^ 31" "0 \<le> a mod 1000000" "a mod 1000000 < 1000000"
    using a by (simp_all add: zdiv_int)
  show ?thesis
  proof (cases "a div 1000000 = 0")
    case False
    then have "sint (word_of_int (- (a div 1000000)) :: i64) < 0"
      using b by (subst sint_i64) auto
    then show ?thesis unfolding split_timeout_def v a(3) d by (simp add: word_sless_alt)
  next
    case True
    then have "a mod 1000000 = a" using a by (metis add_0 mult_zero_left div_mult_mod_eq)
    then have "sint (word_of_int (- (a mod 1000000) * 1000) :: i64) < 0"
      using a b by (subst sint_i64) auto
    then show ?thesis unfolding split_timeout_def v a(3) d by (simp add: word_sless_alt)
  qed
qed

section \<open>Properties\<close>

lemma fds_new_ok:
  assumes "fds_new n = Inr h"
  shows "hooks_inv h \<and> length (fds h) = unat n"
  using assms by (auto simp: fds_new_def hooks_inv_def split: if_splits)

text \<open>
  C13: the table agrees with the kernel on who shares what and who blocks. Starting from the
  fresh table, any sequence of opens, sockets, accepts on a coroutine, closes and duplications,
  whether they succeed or fail, and of successful F_SETFL, on descriptors below the table's size,
  runs without a fault and leaves the table in step with the kernel's own bookkeeping: two
  descriptors share an object exactly when they share a file description, and the recorded flag
  is the description's O_NONBLOCK. Two kinds of calls are excluded (\<open>op_ok\<close>), because the
  table goes wrong on them: sockets created with SOCK_NONBLOCK (\<open>socket_nonblock_ignored\<close>) and an
  F_SETFL that fails (\<open>fcntl_setfl_unchecked\<close>).
\<close>

theorem fds_track_kernel:
  assumes "fds_new n = Inr h" "list_all (op_ok (unat n)) ops"
  shows "\<exists>h'. foldE hook_op ops h = Inr h' \<and> abs_files h' = fold kernel_op ops (abs_files h) \<and>
    (\<forall>fd p d. find_desc fd h' = Inr (Some (p, d)) \<longrightarrow>
      file_of (fold kernel_op ops (abs_files h)) fd = Some p \<and>
      nonblock (fold kernel_op ops (abs_files h)) p = isNonBlocking d)"
proof -
  have inv: "hooks_inv h" "length (fds h) = unat n" using fds_new_ok [OF assms(1)] by auto
  obtain h' where h': "foldE hook_op ops h = Inr h'" "abs_files h' = fold kernel_op ops (abs_files h)"
    using hook_ops_ok [of h ops] inv assms(2) by auto
  show ?thesis
  proof (intro exI [of _ h'] conjI allI impI h')
    fix fd p d assume f: "find_desc fd h' = Inr (Some (p, d))"
    then have "in_table fd h'" "fds h' ! unat fd = Some p" "descs h' p = Some d"
      by (auto simp: find_desc_def get_fd_def get_desc_def bindE_eq_Inr split: if_splits option.splits)
    then have "file_of (abs_files h') fd = Some p" "nonblock (abs_files h') p = isNonBlocking d"
      by (simp_all add: abs_files_def)
    then show "file_of (fold kernel_op ops (abs_files h)) fd = Some p"
      "nonblock (fold kernel_op ops (abs_files h)) p = isNonBlocking d"
      by (simp_all add: h'(2))
  qed
qed

theorem fds_track_kernel_witness:
  "\<exists>h h'. fds_new 8 = Inr h \<and>
    foldE hook_op [Op_open 3 0, Op_dup 4 3, Op_open (- 1) 0, Op_setfl 0 4 0x800, Op_close 0 4] h = Inr h' \<and>
    nonblock (abs_files h') 0"
proof -
  obtain h where h: "fds_new 8 = Inr h" by (simp add: fds_new_def word_sless_alt)
  have "list_all (op_ok (unat (8 :: i32))) [Op_open 3 0, Op_dup 4 3, Op_open (- 1) 0, Op_setfl 0 4 0x800, Op_close 0 4]"
    by (simp add: fd_room_def word_sle_eq)
  from fds_track_kernel [OF h this] obtain h' where
    h': "foldE hook_op [Op_open 3 0, Op_dup 4 3, Op_open (- 1) 0, Op_setfl 0 4 0x800, Op_close 0 4] h = Inr h'"
    "abs_files h' = fold kernel_op [Op_open 3 0, Op_dup 4 3, Op_open (- 1) 0, Op_setfl 0 4 0x800, Op_close 0 4] (abs_files h)"
    by blast
  have "next_desc h = 0" using h by (auto simp: fds_new_def split: if_splits)
  then have "nonblock (abs_files h') 0"
    unfolding h'(2) by (simp add: new_file_def O_NONBLOCK_def kernel_op_def word_sless_alt)
  then show ?thesis using h h'(1) by blast
qed

text \<open>
  A non-blocking descriptor never suspends its caller in \<open>read\<close>, \<open>write\<close>, \<open>connect\<close>,
  \<open>recv\<close>, \<open>send\<close>, \<open>recvmsg\<close> and \<open>sendmsg\<close>, and MSG_DONTWAIT has the same effect where there
  are flags: the original call answers. \<open>accept\<close> and \<open>accept4\<close> alone do not look at the flag
  and suspend a coroutine on a non-blocking listening socket.
\<close>

theorem nonblocking_routes:
  assumes "find_desc fd h = Inr (Some (p, d))"
    and "isNonBlocking d \<or> flags AND MSG_DONTWAIT \<noteq> 0"
  shows "hook_recv cor fd buf len flags h = Inr Direct \<and> hook_send cor fd buf len flags h = Inr Direct \<and>
    hook_recvmsg cor fd buf flags h = Inr Direct \<and> hook_sendmsg cor fd buf flags h = Inr Direct \<and>
    (isNonBlocking d \<longrightarrow> hook_read cor junk fd buf len h = Inr (Direct, h) \<and>
      hook_write cor junk fd buf len h = Inr (Direct, h) \<and> hook_connect cor fd buf al h = Inr Direct) \<and>
    (fdType d = tSocket \<longrightarrow> hook_accept True fd buf lenp h =
      Inr (Async (Prep_accept fd buf lenp 0) no_timeout))"
  using assms
  by (auto simp: hook_recv_def hook_send_def hook_recvmsg_def hook_sendmsg_def socket_route_def
      hook_read_def hook_write_def hook_connect_def hook_accept_def hook_accept4_def)

lemma find_put_desc:
  assumes "find_desc fd h = Inr (Some (p, d))"
  shows "find_desc fd (put_desc p d' h) = Inr (Some (p, d'))"
  using assms by (auto simp: find_desc_def get_fd_def put_desc_def in_table_def get_desc_def
      bindE_eq_Inr split: if_splits option.splits)

lemma setsockopt_recv:
  assumes "find_desc fd h = Inr (Some (p, d))" "fdType d = tSocket" "\<not> isNonBlocking d"
  shows "\<exists>h'. hook_setsockopt 0 fd SOL_SOCKET SO_RCVTIMEO (word_of_int sec) (word_of_int usec) h = Inr h' \<and>
    hook_recv True fd buf len 0 h' = Inr (Async (Prep_recv fd buf len 0)
      (split_timeout (scast (microseconds sec usec))))"
  using assms find_put_desc [OF assms(1)]
  by (simp add: hook_setsockopt_def hook_recv_def socket_route_def SetSocketTimeout_def
      GetSocketTimeout_def microseconds_def Let_def)

definition sample_hooks :: "fd_desc \<Rightarrow> hooks" where
  "sample_hooks d = \<lparr>fds = [None, None, None, Some 0], descs = [0 \<mapsto> d], next_desc = 1\<rparr>"

lemma sample_hooks_find [simp]: "find_desc 3 (sample_hooks d) = Inr (Some (0, d))"
  by (simp add: sample_hooks_def find_desc_def get_fd_def in_table_def get_desc_def word_sle_eq)

definition sample_socket :: "bool \<Rightarrow> fd_desc" where
  "sample_socket nb = SetSocketAttr 2 SOCK_STREAM (FdDesc_new 3 tSocket nb)"

theorem nonblocking_routes_witness:
  "hook_recv True 3 0x1000 64 0 (sample_hooks (sample_socket True)) = Inr Direct \<and>
   hook_accept True 3 0 0 (sample_hooks (sample_socket True)) = Inr (Async (Prep_accept 3 0 0 0) no_timeout)"
  using nonblocking_routes [OF sample_hooks_find [of "sample_socket True"], where flags = 0 and cor = True and buf = "0x1000" and len = 64]
    nonblocking_routes [OF sample_hooks_find [of "sample_socket True"], where flags = 0 and cor = True and buf = 0 and lenp = 0]
  by (simp add: sample_socket_def SetSocketAttr_def FdDesc_new_def)

text \<open>
  SOCK_NONBLOCK in the type of \<open>socket\<close> is not understood. The new descriptor is recorded as
  blocking although the kernel's is not, so a \<open>read\<close> on it suspends the coroutine instead of
  failing with EAGAIN; and since the recorded type is no longer SOCK_STREAM, \<open>connect\<close> is not
  hooked.
\<close>

theorem socket_nonblock_ignored:
  assumes "hooks_inv h" "in_table fd h"
  shows "\<exists>h' p d. hook_socket fd dm (SOCK_STREAM OR SOCK_NONBLOCK) h = Inr h' \<and>
    find_desc fd h' = Inr (Some (p, d)) \<and> \<not> isNonBlocking d \<and>
    nonblock (kernel_op (Op_socket fd dm (SOCK_STREAM OR SOCK_NONBLOCK)) (abs_files h)) p \<and>
    hook_read True junk fd buf count h' = Inr (Async (Prep_recv fd buf count 0) (split_timeout 0), h') \<and>
    hook_connect True fd addr len h' = Inr Direct"
proof -
  obtain p h1 where m: "make_desc (FdDesc_new fd tSocket False) h = (p, h1)" by force
  from new_desc_ok [OF assms(1,2) m] obtain h2 where
    h2: "set_fd fd (Some p) h1 = Inr h2" "get_desc p h2 = Inr (FdDesc_new fd tSocket False)"
    "abs_files h2 = new_file fd False (abs_files h)" "length (fds h2) = length (fds h)"
    by (auto simp: FdDesc_new_def)
  let ?d = "SetSocketAttr dm (SOCK_STREAM OR SOCK_NONBLOCK) (FdDesc_new fd tSocket False)"
  have p: "p = next_desc h" using m by (simp add: make_desc_def)
  have "file_of (abs_files h2) fd = Some p" by (simp add: h2(3) new_file_def p del: abs_files_sel(1))
  then have "get_fd fd h2 = Inr (Some p)" by (auto simp: get_fd_def split: if_splits)
  then have f: "find_desc fd (put_desc p ?d h2) = Inr (Some (p, ?d))"
    by (simp add: find_desc_def get_fd_def put_desc_def in_table_def get_desc_def split: if_splits)
  have s: "hook_socket fd dm (SOCK_STREAM OR SOCK_NONBLOCK) h = Inr (put_desc p ?d h2)"
    using m h2(1,2) assms(2) by (simp add: hook_socket_def in_table_def)
  have "(SOCK_STREAM OR SOCK_NONBLOCK) AND SOCK_NONBLOCK \<noteq> 0" "SOCK_STREAM OR SOCK_NONBLOCK \<noteq> SOCK_STREAM"
    by (simp_all add: SOCK_STREAM_def SOCK_NONBLOCK_def)
  moreover have "\<not> fd <s 0" using assms(2) by (auto simp: in_table_def word_sle_eq word_sless_alt)
  ultimately show ?thesis
    using s f p by (auto simp: kernel_op_def hook_read_def hook_connect_def SetSocketAttr_def FdDesc_new_def
        IsTcpSocket_def new_file_def GetSocketTimeout_def)
qed

theorem socket_nonblock_ignored_witness:
  "\<exists>h' p d. hook_socket 2 2 (SOCK_STREAM OR SOCK_NONBLOCK) (sample_hooks (sample_socket False)) = Inr h' \<and>
    find_desc 2 h' = Inr (Some (p, d)) \<and> \<not> isNonBlocking d \<and>
    hook_connect True 2 0x1000 16 h' = Inr Direct"
proof -
  have "hooks_inv (sample_hooks (sample_socket False))" "in_table 2 (sample_hooks (sample_socket False))"
    by (auto simp: hooks_inv_def sample_hooks_def in_table_def word_sle_eq)
  from socket_nonblock_ignored [OF this, where addr = "0x1000" and len = 16 and dm = 2] show ?thesis
    by blast
qed

text \<open>
  C34: a timeout set on a socket is the one its calls use. \<open>setsockopt\<close> of a receive timeout of
  less than 2^31 microseconds, followed by a blocking \<open>recv\<close>, submits the request with exactly
  these seconds and nanoseconds.
\<close>

theorem timeout_roundtrip:
  assumes "find_desc fd h = Inr (Some (p, d))" "fdType d = tSocket" "\<not> isNonBlocking d"
    and "0 \<le> sec" "0 \<le> usec" "usec < 1000000" "sec * 1000000 + usec < 2 ^ 31"
  shows "\<exists>h'. hook_setsockopt 0 fd SOL_SOCKET SO_RCVTIMEO (word_of_int sec) (word_of_int usec) h = Inr h' \<and>
    hook_recv True fd buf len 0 h' = Inr (Async (Prep_recv fd buf len 0)
      \<lparr>tv_sec = word_of_int sec, tv_nsec = word_of_int (usec * 1000)\<rparr>)"
  using setsockopt_recv [OF assms(1-3)] split_timeout_ok [OF assms(4-7)] by metis

theorem timeout_roundtrip_witness:
  "\<exists>h'. hook_setsockopt 0 3 SOL_SOCKET SO_RCVTIMEO 5 250000 (sample_hooks (sample_socket False)) = Inr h' \<and>
    hook_recv True 3 0x1000 64 0 h' = Inr (Async (Prep_recv 3 0x1000 64 0)
      \<lparr>tv_sec = 5, tv_nsec = 250000000\<rparr>)"
  using timeout_roundtrip [OF sample_hooks_find [of "sample_socket False"], of 5 250000]
  by (simp add: sample_socket_def SetSocketAttr_def FdDesc_new_def)

text \<open>
  C35: a longer timeout breaks the receiver. The microseconds are computed into an \<open>int\<close>: for
  2148 to 4294 seconds they come out negative, and the engine's assertion fails on the next
  \<open>recv\<close>.
\<close>

theorem timeout_overflow_aborts:
  assumes "find_desc fd h = Inr (Some (p, d))" "fdType d = tSocket" "\<not> isNonBlocking d"
    and "2148 \<le> sec" "sec \<le> 4294"
  shows "\<exists>h' ts. hook_setsockopt 0 fd SOL_SOCKET SO_RCVTIMEO (word_of_int sec) 0 h = Inr h' \<and>
    hook_recv True fd buf len 0 h' = Inr (Async (Prep_recv fd buf len 0) ts) \<and>
    Exec f1 f2 (Prep_recv fd buf len 0) r ts e = Inl Assert_fail"
proof -
  have "Exec f1 f2 (Prep_recv fd buf len 0) r (split_timeout (scast (microseconds sec 0))) e = Inl Assert_fail"
    using split_timeout_overflow [OF assms(4,5)]
    by (auto simp: Exec_def word_sle_eq word_sless_alt)
  then show ?thesis using setsockopt_recv [OF assms(1-3), where sec = sec and usec = 0 and buf = buf and len = len]
    by auto
qed

theorem timeout_overflow_aborts_witness:
  "\<exists>h' ts. hook_setsockopt 0 3 SOL_SOCKET SO_RCVTIMEO 3600 0 (sample_hooks (sample_socket False)) = Inr h' \<and>
    hook_recv True 3 0x1000 64 0 h' = Inr (Async (Prep_recv 3 0x1000 64 0) ts) \<and>
    Exec True True (Prep_recv 3 0x1000 64 0) 1 ts sample_engine = Inl Assert_fail"
  using timeout_overflow_aborts [OF sample_hooks_find [of "sample_socket False"], of 3600 "0x1000" 64 True True 1 sample_engine]
  by (simp add: sample_socket_def SetSocketAttr_def FdDesc_new_def)

text \<open>
  Nobody ever sleeps. \<open>sleep\<close> and \<open>usleep\<close> ask whether an unsigned number is negative, and
  \<open>nanosleep\<close> whether a positive one is; none of them sleeps or suspends, and what they return
  is a local that was never written.
\<close>

theorem sleep_never_sleeps:
  "hook_sleep cor seconds = Inl Uninit_read \<and> hook_usleep cor usec = Inl Uninit_read \<and>
   (sec <s 0 \<or> hook_nanosleep cor sec nsec = Inl Uninit_read)"
  by (simp add: hook_sleep_def hook_usleep_def hook_nanosleep_def)

text \<open>
  File offsets do not follow the bytes transferred. The closure of \<open>read\<close> advances the
  shared offset by what the result field holds when the request is submitted, before anything has
  been read; the next \<open>read\<close> asks for that position, whatever the first one returned.
\<close>

theorem offset_ignores_result:
  assumes "find_desc fd h = Inr (Some (p, d))" "fdType d = tOther" "\<not> isNonBlocking d"
  shows "\<exists>h1 h2. hook_read True junk fd buf count h =
      Inr (Async (Prep_read fd buf (ucast count) (offset d)) no_timeout, h1) \<and>
    hook_read True junk' fd buf count h1 = Inr (Async (Prep_read fd buf (ucast count)
      (offset d + (if 0 \<le>s junk then scast junk else 0))) no_timeout, h2)"
proof -
  have f: "find_desc fd (put_desc p d' h) = Inr (Some (p, d'))" for d'
    using find_put_desc [OF assms(1)] .
  show ?thesis using assms f [of "advance junk d"]
    by (simp add: hook_read_def) (simp add: advance_def)
qed

theorem offset_ignores_result_witness:
  "\<exists>h1 h2. hook_read True 0 3 0x1000 64 (sample_hooks (FdDesc_new 3 tOther False)) =
      Inr (Async (Prep_read 3 0x1000 64 0) no_timeout, h1) \<and>
    hook_read True 0 3 0x1000 64 h1 = Inr (Async (Prep_read 3 0x1000 64 0) no_timeout, h2)"
  using offset_ignores_result [OF sample_hooks_find [of "FdDesc_new 3 tOther False"], of 0 "0x1000" 64 0]
  by (simp add: FdDesc_new_def)

text \<open>
  A bad descriptor is undefined behaviour instead of EBADF. Every hooked call but \<open>open\<close> and
  \<open>socket\<close> indexes the table with its argument first: a negative descriptor, or one at or above
  the limit read at start-up, is an access outside the vector.
\<close>

theorem bad_descriptor_faults:
  assumes "fd <s 0 \<or> length (fds h) \<le> unat fd"
  shows "hook_read cor junk fd buf count h = Inl Out_of_bounds \<and>
    hook_write cor junk fd buf count h = Inl Out_of_bounds \<and>
    hook_recv cor fd buf len flags h = Inl Out_of_bounds \<and>
    hook_connect cor fd buf al h = Inl Out_of_bounds \<and>
    hook_accept cor fd buf lenp h = Inl Out_of_bounds \<and>
    hook_fcntl rv fd 4 arg h = Inl Out_of_bounds"
proof -
  have "find_desc fd h = Inl Out_of_bounds"
    using assms by (auto simp: find_desc_def get_fd_def in_table_def word_sle_eq word_sless_alt)
  then show ?thesis
    by (simp add: hook_read_def hook_write_def hook_recv_def socket_route_def hook_connect_def
        hook_accept_def hook_accept4_def hook_fcntl_def)
qed

theorem bad_descriptor_faults_witness:
  "hook_read True 0 (- 1) 0x1000 64 (sample_hooks (sample_socket False)) = Inl Out_of_bounds"
  using bad_descriptor_faults [of "- 1" "sample_hooks (sample_socket False)" True 0 "0x1000" 64]
  by (simp add: word_sless_alt)

text \<open>
  The descriptor limit is read even if it could not be read. The default of 102400 is
  overwritten in both cases, and an unlimited or huge limit becomes a size that the table's
  constructor rejects.
\<close>

theorem fd_limit_default_unused:
  "FdLim_new (- 1) cur = FdLim_new 0 cur \<and>
   fds_new (FdLim_new 0 (- 1)) = Inl (Thrown ''length_error'')"
proof -
  have "(ucast (- 1 :: u64) :: i32) = - 1" by (rule bit_word_eqI) (simp add: bit_simps)
  then show ?thesis by (simp add: FdLim_new_def fds_new_def word_sless_alt)
qed

text \<open>
  F_SETFL is recorded even when it fails, because the object is updated before the original
  call; and a command the switch does not know loses its argument.
\<close>

theorem fcntl_setfl_unchecked:
  "hook_fcntl rv fd 4 flags h = hook_fcntl 0 fd 4 flags h \<and> fcntl_arg_of 1033 = No_arg"
  by (simp add: hook_fcntl_def fcntl_arg_of_def)

end
