(* ===== verification/Scheduler.thy ===== *)
theory Scheduler
  imports Channel Io_Engine "HOL-Library.Multiset" "HOL-Library.Sublist" "HOL-Library.Log_Nat"
begin

text \<open>
  \<open>scheduler/scheduler.cpp\<close>: the list of processers, the routing of new tasks, the load
  balancer, start and stop, and one round of the I/O wait thread. \<open>LoadBalance\<close> computes with
  \<open>float\<close>: \<open>f32\<close> is rounding to binary32 (nearest, ties to even; the values here are far from
  overflow), applied after every operation as the machine does.
\<close>

section \<open>Binary32\<close>

definition pow2 :: "int \<Rightarrow> rat" where
  "pow2 e = (if 0 \<le> e then 2 ^ nat e else 1 / 2 ^ nat (- e))"

text \<open>The exponent of the leading bit of a positive rational.\<close>

definition lead :: "rat \<Rightarrow> int" where
  "lead x = (let (p, q) = quotient_of x; e = bitlen p - bitlen q
     in if x < pow2 e then e - 1 else e)"

definition nearest_even :: "rat \<Rightarrow> int" where
  "nearest_even x = (let f = \<lfloor>x\<rfloor>; r = x - of_int f
     in if r < 1 / 2 \<or> (r = 1 / 2 \<and> even f) then f else f + 1)"

definition f32 :: "rat \<Rightarrow> rat" where
  "f32 x = (if x = 0 then 0
     else let u = pow2 (max (lead \<bar>x\<bar> - 23) (- 149)) in of_int (nearest_even (x / u)) * u)"

text \<open>Conversion of a \<open>float\<close> to \<open>int\<close> drops the fraction.\<close>

definition to_int :: "rat \<Rightarrow> int" where
  "to_int x = (if 0 \<le> x then \<lfloor>x\<rfloor> else \<lceil>x\<rceil>)"

section \<open>State\<close>

record ('f, 'c) sched =
  stopped :: bool
  processers :: "('f, 'c) proc list"
  tempTasks :: "'f list"
  idx_func :: u64
  idx_list :: u64
  ioWait :: bool
  ioQueue :: "'c lfq"
  ioEngine :: engine

definition on_processer ::
  "nat \<Rightarrow> (('f, 'c) proc \<Rightarrow> fault + ('f, 'c) proc) \<Rightarrow> ('f, 'c, 'z) sched_scheme \<Rightarrow> fault + ('f, 'c, 'z) sched_scheme" where
  "on_processer i g s =
     bindE (g (processers s ! i)) (\<lambda>p. Inr (s\<lparr>processers := (processers s)[i := p]\<rparr>))"

section \<open>Routing\<close>

text \<open>
  The overload for functions keeps them aside before the start, prefers the processer of the
  calling thread (\<open>cur\<close>), and deals them out in turn otherwise; the overload for lists of tasks
  deals in turn always. Each has its own static counter.
\<close>

definition sched_AddTask_func ::
  "os \<Rightarrow> tptr \<Rightarrow> nat option \<Rightarrow> 'f \<Rightarrow> ('f, 'c, 'z) sched_scheme \<Rightarrow> fault + ('f, 'c, 'z) sched_scheme" where
  "sched_AddTask_func env fresh cur_proc f s =
     (if processers s = [] then Inr (s\<lparr>tempTasks := tempTasks s @ [f]\<rparr>)
      else case cur_proc of
        Some i \<Rightarrow> on_processer i (AddTask_func env fresh f) s
      | None \<Rightarrow> on_processer (unat (idx_func s mod of_nat (length (processers s))))
                  (AddTask_func env fresh f) (s\<lparr>idx_func := idx_func s + 1\<rparr>))"

definition sched_AddTask_list :: "tptr list \<Rightarrow> ('f, 'c, 'z) sched_scheme \<Rightarrow> fault + ('f, 'c, 'z) sched_scheme" where
  "sched_AddTask_list ts s =
     bindE (check Assert_fail (processers s \<noteq> [])) (\<lambda>_.
       on_processer (unat (idx_list s mod of_nat (length (processers s))))
         (AddTask_list ts) (s\<lparr>idx_list := idx_list s + 1\<rparr>))"

section \<open>Load balancing\<close>

definition task_size :: "('f, 'c) proc \<Rightarrow> int" where
  "task_size p = sint (TaskSize p)"

definition avgTasks :: "('f, 'c) proc list \<Rightarrow> rat" where
  "avgTasks ps =
     (let totalTasks = sum_list (map task_size ps)
      in f32 (f32 (of_int totalTasks) / f32 (of_nat (length ps))))"

definition high :: "rat \<Rightarrow> rat" where
  "high avg = f32 (avg * f32 (11 / 10))"

definition low :: "rat \<Rightarrow> rat" where
  "low avg = f32 (avg * f32 (3 / 10))"

definition is_over :: "rat \<Rightarrow> ('f, 'c) proc \<Rightarrow> bool" where
  "is_over avg p \<longleftrightarrow> high avg < f32 (of_int (task_size p))"

definition is_under :: "rat \<Rightarrow> ('f, 'c) proc \<Rightarrow> bool" where
  "is_under avg p \<longleftrightarrow> \<not> is_over avg p \<and> f32 (of_int (task_size p)) < low avg"

definition over_list :: "rat \<Rightarrow> ('f, 'c) proc list \<Rightarrow> nat list" where
  "over_list avg ps = filter (\<lambda>i. is_over avg (ps ! i)) [0..<length ps]"

definition under_list :: "rat \<Rightarrow> ('f, 'c) proc list \<Rightarrow> nat list" where
  "under_list avg ps = filter (\<lambda>i. is_under avg (ps ! i)) [0..<length ps]"

definition stealNum :: "rat \<Rightarrow> int \<Rightarrow> int" where
  "stealNum avg n = max 1 (to_int (f32 (f32 (f32 (of_int n) - avg) / 4)))"

text \<open>The inner loop: what one underloaded processer takes from the overloaded ones.\<close>

fun balance_dst ::
  "rat \<Rightarrow> nat \<Rightarrow> nat list \<Rightarrow> ('f, 'c) proc list \<Rightarrow> fault + ('f, 'c) proc list" where
  "balance_dst avg dst [] ps = Inr ps"
| "balance_dst avg dst (src # srcs) ps =
     (if f32 (of_int (task_size (ps ! src))) \<le> high avg then balance_dst avg dst srcs ps
      else if low avg \<le> f32 (of_int (task_size (ps ! dst))) then Inr ps
      else let num = stealNum avg (task_size (ps ! src))
        in if 0 < num
           then bindE (Steal (nat num) (ps ! src)) (\<lambda>(ts, p).
                  let ps1 = ps[src := p]
                  in if ts \<noteq> []
                     then bindE (AddTask_list ts (ps1 ! dst)) (\<lambda>p'.
                            balance_dst avg dst srcs (ps1[dst := p']))
                     else balance_dst avg dst srcs ps1)
           else balance_dst avg dst srcs ps)"

definition balance :: "('f, 'c) proc list \<Rightarrow> fault + ('f, 'c) proc list" where
  "balance ps =
     (let avg = avgTasks ps; over = over_list avg ps
      in foldE (\<lambda>dst. balance_dst avg dst over) (under_list avg ps) ps)"

definition LoadBalance :: "('f, 'c, 'z) sched_scheme \<Rightarrow> fault + ('f, 'c, 'z) sched_scheme" where
  "LoadBalance s =
     (if processers s = [] then Inr s
      else bindE (balance (processers s)) (\<lambda>ps. Inr (s\<lparr>processers := ps\<rparr>)))"

section \<open>Start, stop and the I/O threads\<close>

text \<open>
  A processer's \<open>Start\<close> on the calling thread while no other thread acts: a parked loop waits for
  ever.
\<close>

fun Start_alone :: "nat \<Rightarrow> ('f, 'c, unit) calls \<Rightarrow> ('f, 'c) proc \<Rightarrow> fault + ('f, 'c) proc" where
  "Start_alone 0 cs p = Inl Diverges"
| "Start_alone (Suc n) cs p =
     bindE (Start_iter cs p) (\<lambda>(r, p'). case r of
       Stopped \<Rightarrow> Inr p'
     | Parked \<Rightarrow> Inl Diverges
     | Ran \<Rightarrow> Start_alone n cs p')"

definition run_processer :: "nat \<Rightarrow> ('f, 'c, unit) calls \<Rightarrow> ('f, 'c) proc \<Rightarrow> fault + ('f, 'c) proc" where
  "run_processer fuel cs p = Start_alone fuel cs (p\<lparr>proc_status := Running\<rparr>)"

fun main_loop :: "nat \<Rightarrow> ('f, 'c, 'z) sched_scheme \<Rightarrow> fault + ('f, 'c, 'z) sched_scheme" where
  "main_loop 0 s = Inl Diverges"
| "main_loop (Suc n) s =
     (if stopped s then Inr s else bindE (LoadBalance s) (main_loop n))"

definition sched_Start ::
  "nat \<Rightarrow> os \<Rightarrow> tptr \<Rightarrow> ('f, 'c, unit) calls \<Rightarrow> tptr choice \<Rightarrow> 'f pool \<Rightarrow> nat \<Rightarrow> ('f, 'c, 'z) sched_scheme
    \<Rightarrow> fault + ('f, 'c, 'z) sched_scheme" where
  "sched_Start fuel env fresh cs ch pl processer_num s =
     bindE (check Assert_fail (0 < processer_num \<and> processers s = [])) (\<lambda>_.
     bindE (foldE (\<lambda>i s.
         bindE (Processer_new ch (of_nat i) pl) (\<lambda>p.
         bindE (run_processer fuel cs p) (\<lambda>p'. Inr (s\<lparr>processers := processers s @ [p']\<rparr>))))
       [0..<processer_num] s) (\<lambda>s1.
     bindE (foldE (sched_AddTask_func env fresh None) (tempTasks s1) s1) (main_loop fuel)))"

text \<open>
  \<open>Stop\<close>; \<open>WakeUpIOWait\<close> submits a timeout of no length whose result is a local, at
  \<open>res\<close>. \<open>f1\<close> says whether the submission queue has room.
\<close>

definition WakeUpIOSubmit :: "('f, 'c, 'z) sched_scheme \<Rightarrow> ('f, 'c, 'z) sched_scheme" where
  "WakeUpIOSubmit s = (if ioWait s then s\<lparr>ioWait := False\<rparr> else s)"

definition sched_IOSubmit :: "'c \<Rightarrow> ('f, 'c, 'z) sched_scheme \<Rightarrow> fault + ('f, 'c, 'z) sched_scheme" where
  "sched_IOSubmit func s =
     bindE (lfq_push func (ioQueue s)) (\<lambda>q.
       let s1 = s\<lparr>ioQueue := q\<rparr> in Inr (if ioWait s1 then WakeUpIOSubmit s1 else s1))"

definition WakeUpIOWait :: "bool \<Rightarrow> nat \<Rightarrow> ('f, 'c, 'z) sched_scheme \<Rightarrow> fault + ('f, 'c, 'z) sched_scheme" where
  "WakeUpIOWait f1 res s =
     bindE (TimeOut f1 True res no_timeout (ioEngine s)) (\<lambda>(b, e). Inr (s\<lparr>ioEngine := e\<rparr>))"

definition sched_Stop :: "bool \<Rightarrow> nat \<Rightarrow> ('f, 'c, 'z) sched_scheme \<Rightarrow> fault + ('f, 'c, 'z) sched_scheme" where
  "sched_Stop f1 res s =
     WakeUpIOWait f1 res (WakeUpIOSubmit (s\<lparr>stopped := True, processers := map Stop (processers s)\<rparr>))"

text \<open>
  One round of \<open>IOSubmitThread\<close> up to the call of the function it has taken, or up to its wait;
  \<open>run\<close> calls the function. After the wait the loop goes around.
\<close>

definition IOSubmit_round ::
  "('c \<Rightarrow> ('f, 'c, 'z) sched_scheme \<Rightarrow> fault + ('f, 'c, 'z) sched_scheme) \<Rightarrow>
     ('f, 'c, 'z) sched_scheme \<Rightarrow> fault + (round \<times> ('f, 'c, 'z) sched_scheme)" where
  "IOSubmit_round run s =
     (if stopped s then Inr (Stopped, s)
      else bindE (lfq_pop (ioQueue s)) (\<lambda>(r, q).
        let s1 = s\<lparr>ioQueue := q\<rparr>
        in case r of
             Some func \<Rightarrow> bindE (run func s1) (\<lambda>s2. Inr (Ran, s2))
           | None \<Rightarrow> bindE (lfq_pop (ioQueue s1)) (\<lambda>(r', q').
               let s2 = s1\<lparr>ioWait := True, ioQueue := q'\<rparr>
               in case r' of
                    Some func \<Rightarrow> bindE (run func (s2\<lparr>ioWait := False\<rparr>)) (\<lambda>s3. Inr (Ran, s3))
                  | None \<Rightarrow> Inr (Parked, s2))))"

text \<open>The body of the loop of \<open>IOWaitThread\<close>, given the completions that are to come; the loop tests
  \<open>stop_\<close> before it (\<open>IOWait_iter\<close>), and the thread is in the body while it waits in \<open>WaitResult\<close>.\<close>

definition IOWait_round ::
  "event list \<Rightarrow> ('f, 'c, 'z) sched_scheme \<Rightarrow> fault + (event list \<times> ('f, 'c, 'z) sched_scheme)" where
  "IOWait_round evs s =
     bindE (WaitResult evs (ioEngine s)) (\<lambda>(tk, evs', e).
       let s1 = s\<lparr>ioEngine := e\<rparr>
       in case tk of
            None \<Rightarrow> Inr (evs', s1)
          | Some t \<Rightarrow> bindE (sched_AddTask_list [unat t] s1) (\<lambda>s2. Inr (evs', s2)))"

definition IOWait_iter ::
  "event list \<Rightarrow> ('f, 'c, 'z) sched_scheme \<Rightarrow> fault + (round \<times> event list \<times> ('f, 'c, 'z) sched_scheme)" where
  "IOWait_iter evs s =
     (if stopped s then Inr (Stopped, evs, s)
      else bindE (IOWait_round evs s) (\<lambda>(evs', s'). Inr (Ran, evs', s')))"

section \<open>Lemmas\<close>

lemma sum_list_update_add:
  "i < length ps \<Longrightarrow> sum_list (map f (ps[i := p])) + f (ps ! i) =
     sum_list (map f ps) + (f p :: 'a :: comm_monoid_add)"
  by (induction ps arbitrary: i) (auto split: nat.splits simp: ac_simps nth_Cons)

definition all_tasks :: "('f, 'c) proc list \<Rightarrow> tptr multiset" where
  "all_tasks ps = sum_list (map (\<lambda>p. mset (queue p)) ps)"

definition procs_ok :: "('f, 'c) proc list \<Rightarrow> bool" where
  "procs_ok ps \<longleftrightarrow> (\<forall>p \<in> set ps. lfq_invar (runnableQueue p)) \<and> size (all_tasks ps) \<le> lfq_room"

lemma all_tasks_update:
  "i < length ps \<Longrightarrow> all_tasks (ps[i := p]) + mset (queue (ps ! i)) = all_tasks ps + mset (queue p)"
  unfolding all_tasks_def by (rule sum_list_update_add)

lemma size_all_tasks_update:
  "i < length ps \<Longrightarrow>
     size (all_tasks (ps[i := p])) + length (queue (ps ! i)) = size (all_tasks ps) + length (queue p)"
  by (metis all_tasks_update size_mset size_union)

lemma queue_le_all: "i < length ps \<Longrightarrow> length (queue (ps ! i)) \<le> size (all_tasks ps)"
proof -
  assume i: "i < length ps"
  obtain p :: "('a, 'b) proc" where "p = (ps ! i)\<lparr>runnableQueue := lfq_empty\<rparr>" by blast
  then have "length (queue p) = 0" by simp
  with size_all_tasks_update [OF i, of p] show ?thesis by simp
qed

lemma procs_ok_nth: "procs_ok ps \<Longrightarrow> i < length ps \<Longrightarrow> lfq_invar (runnableQueue (ps ! i))"
  by (simp add: procs_ok_def)

lemma AddTask_list_ok:
  assumes "lfq_invar (runnableQueue p)" "length (queue p) + length ts \<le> lfq_room"
  shows "\<exists>p'. AddTask_list ts p = Inr p' \<and> lfq_invar (runnableQueue p') \<and> queue p' = queue p @ ts"
  using lfq.push_all_law [OF assms] by (auto simp: AddTask_list_def WakeUp_def Let_def)

lemma Steal_ok:
  assumes "lfq_invar (runnableQueue p)" "0 < n"
  shows "\<exists>p'. Steal n p = Inr (take n (queue p), p') \<and> lfq_invar (runnableQueue p') \<and>
    queue p' = drop n (queue p)"
  using lfq.pop_n_law [OF assms(1), of n] assms(2) by (auto simp: Steal_def)

text \<open>What may have happened to a list of processers while tasks move from \<open>src\<close> to \<open>dst\<close>.\<close>

definition moved :: "nat set \<Rightarrow> nat set \<Rightarrow> ('f, 'c) proc list \<Rightarrow> ('f, 'c) proc list \<Rightarrow> bool" where
  "moved src dst ps ps' \<longleftrightarrow> length ps' = length ps \<and> procs_ok ps' \<and> all_tasks ps' = all_tasks ps \<and>
     (\<forall>i < length ps.
        (i \<notin> src \<and> i \<notin> dst \<longrightarrow> ps' ! i = ps ! i) \<and>
        (i \<in> src \<longrightarrow> suffix (queue (ps' ! i)) (queue (ps ! i))) \<and>
        (i \<in> dst \<longrightarrow> prefix (queue (ps ! i)) (queue (ps' ! i))))"

lemma moved_refl: "procs_ok ps \<Longrightarrow> moved src dst ps ps"
  by (simp add: moved_def)

lemma moved_trans: "moved src dst ps ps1 \<Longrightarrow> moved src dst ps1 ps2 \<Longrightarrow> moved src dst ps ps2"
proof -
  assume m: "moved src dst ps ps1" "moved src dst ps1 ps2"
  then have len: "length ps1 = length ps" by (simp add: moved_def)
  show ?thesis unfolding moved_def
  proof (intro conjI allI impI)
    fix i assume i: "i < length ps"
    show "ps2 ! i = ps ! i" if "i \<notin> src \<and> i \<notin> dst"
      using m i that len by (simp add: moved_def)
    show "suffix (queue (ps2 ! i)) (queue (ps ! i))" if "i \<in> src"
    proof (rule suffix_order.trans)
      show "suffix (queue (ps2 ! i)) (queue (ps1 ! i))" using m(2) i that len by (simp add: moved_def)
      show "suffix (queue (ps1 ! i)) (queue (ps ! i))" using m(1) i that by (simp add: moved_def)
    qed
    show "prefix (queue (ps ! i)) (queue (ps2 ! i))" if "i \<in> dst"
    proof (rule prefix_order.trans)
      show "prefix (queue (ps ! i)) (queue (ps1 ! i))" using m(1) i that by (simp add: moved_def)
      show "prefix (queue (ps1 ! i)) (queue (ps2 ! i))" using m(2) i that len by (simp add: moved_def)
    qed
  qed (use m in \<open>simp_all add: moved_def\<close>)
qed

lemma moved_ok: "moved src dst ps ps' \<Longrightarrow> procs_ok ps' \<and> length ps' = length ps"
  by (simp add: moved_def)

lemma procs_ok_update:
  assumes "procs_ok ps" "i < length ps" "lfq_invar (runnableQueue p)" "size (all_tasks (ps[i := p])) \<le> lfq_room"
  shows "procs_ok (ps[i := p])"
  using assms by (auto simp: procs_ok_def dest!: subsetD [OF set_update_subset_insert])

lemma moved_steal:
  assumes ok: "procs_ok ps" and i: "s < length ps" "d < length ps" "s \<noteq> d" "s \<in> src" "d \<in> dst"
    and dis: "src \<inter> dst = {}" and n: "0 < n"
  shows "\<exists>ts p p'. Steal n (ps ! s) = Inr (ts, p) \<and>
    AddTask_list ts (ps[s := p] ! d) = Inr p' \<and> moved src dst ps (ps[s := p, d := p'])"
proof -
  from Steal_ok [OF procs_ok_nth [OF ok i(1)] n] obtain p where
    p: "Steal n (ps ! s) = Inr (take n (queue (ps ! s)), p)" "lfq_invar (runnableQueue p)"
    "queue p = drop n (queue (ps ! s))" by blast
  let ?ts = "take n (queue (ps ! s))"
  let ?ps1 = "ps[s := p]"
  have d1: "d < length ?ps1" "?ps1 ! d = ps ! d" using i by auto
  have split: "queue (ps ! s) = ?ts @ queue p" by (simp add: p(3))
  have "all_tasks ?ps1 + mset (?ts @ queue p) = all_tasks ps + mset (queue p)"
    using all_tasks_update [OF i(1), of p] split by metis
  then have at1: "all_tasks ?ps1 + mset ?ts = all_tasks ps" by simp
  then have sz: "size (all_tasks ?ps1) + length ?ts = size (all_tasks ps)"
    by (metis size_mset size_union)
  have room: "length (queue (ps ! d)) + length ?ts \<le> lfq_room"
    using queue_le_all [OF d1(1)] sz ok d1(2) by (simp add: procs_ok_def)
  from AddTask_list_ok [OF procs_ok_nth [OF ok i(2)] room] obtain p' where
    p': "AddTask_list ?ts (ps ! d) = Inr p'" "lfq_invar (runnableQueue p')"
    "queue p' = queue (ps ! d) @ ?ts" by blast
  have "all_tasks (?ps1[d := p']) + mset (queue (ps ! d)) = all_tasks ?ps1 + mset (queue (ps ! d) @ ?ts)"
    using all_tasks_update [OF d1(1), of p'] d1(2) p'(3) by metis
  then have at2: "all_tasks (?ps1[d := p']) = all_tasks ps" using at1 by simp
  have "procs_ok ?ps1"
    using procs_ok_update [OF ok i(1) p(2)] sz ok by (simp add: procs_ok_def)
  then have "procs_ok (?ps1[d := p'])"
    using procs_ok_update [OF _ d1(1) p'(2)] at2 ok by (simp add: procs_ok_def)
  moreover have "suffix (queue p) (queue (ps ! s))" using split by (rule suffixI)
  ultimately have "moved src dst ps (?ps1[d := p'])"
    using i dis at2 p'(3) by (auto simp: moved_def nth_list_update)
  with p(1) p'(1) d1(2) show ?thesis by auto
qed

lemma Steal_only:
  assumes "procs_ok ps" "s < length ps" "Steal n (ps ! s) = Inr ([], p)" "0 < n"
  shows "queue (ps ! s) = [] \<and> queue p = [] \<and> lfq_invar (runnableQueue p)"
  using Steal_ok [OF procs_ok_nth [OF assms(1,2)] assms(4)] assms(3,4) by auto

lemma moved_steal_nothing:
  assumes "procs_ok ps" "s < length ps" "Steal n (ps ! s) = Inr ([], p)" "0 < n" "s \<in> src" "src \<inter> dst = {}"
  shows "moved src dst ps (ps[s := p])"
proof -
  note q = Steal_only [OF assms(1-4)]
  have "all_tasks (ps[s := p]) = all_tasks ps"
    using all_tasks_update [OF assms(2), of p] q by simp
  moreover from this have "procs_ok (ps[s := p])"
    using procs_ok_update [OF assms(1,2), of p] q assms(1) by (simp add: procs_ok_def)
  ultimately show ?thesis using assms q by (auto simp: moved_def nth_list_update)
qed

lemma balance_dst_moved:
  assumes "procs_ok ps" "d < length ps" "d \<in> dst" "set srcs \<subseteq> src" "src \<subseteq> {..<length ps}" "src \<inter> dst = {}"
  shows "\<exists>ps'. balance_dst avg d srcs ps = Inr ps' \<and> moved src dst ps ps'"
  using assms
proof (induction srcs arbitrary: ps)
  case Nil
  then show ?case by (simp add: moved_refl)
next
  case (Cons s srcs)
  have s: "s \<in> src" "s < length ps" "s \<noteq> d" using Cons.prems by auto
  let ?n = "stealNum avg (task_size (ps ! s))"
  have n: "0 < ?n" by (simp add: stealNum_def)
  then have nn: "0 < nat ?n" by simp
  have ih: "\<exists>ps'. balance_dst avg d srcs ps1 = Inr ps' \<and> moved src dst ps ps'"
    if m: "moved src dst ps ps1" for ps1
  proof -
    have "procs_ok ps1" "length ps1 = length ps" using moved_ok [OF m] by auto
    with Cons.IH [of ps1] Cons.prems obtain ps' where
      "balance_dst avg d srcs ps1 = Inr ps'" "moved src dst ps1 ps'" by auto
    with moved_trans [OF m] show ?thesis by blast
  qed
  from moved_steal [OF Cons.prems(1) s(2) Cons.prems(2) s(3,1) Cons.prems(3,6) nn]
  obtain ts p p' where st: "Steal (nat ?n) (ps ! s) = Inr (ts, p)"
    "AddTask_list ts (ps[s := p] ! d) = Inr p'" "moved src dst ps (ps[s := p, d := p'])" by blast
  show ?case
  proof (cases "ts = []")
    case True
    have "moved src dst ps (ps[s := p])"
      using moved_steal_nothing [OF Cons.prems(1) s(2) _ nn s(1) Cons.prems(6)] st(1) True by simp
    then show ?thesis
      using ih [OF moved_refl [OF Cons.prems(1)]] ih st(1) n True moved_refl [OF Cons.prems(1)]
      by (simp add: Let_def)
  next
    case False
    then show ?thesis
      using ih [OF moved_refl [OF Cons.prems(1)]] ih [OF st(3)] st(1,2) n moved_refl [OF Cons.prems(1)]
      by (simp add: Let_def)
  qed
qed

lemma balance_fold_moved:
  assumes "procs_ok ps" "set ds \<subseteq> dst" "dst \<subseteq> {..<length ps}" "set srcs \<subseteq> src" "src \<subseteq> {..<length ps}"
    "src \<inter> dst = {}"
  shows "\<exists>ps'. foldE (\<lambda>d. balance_dst avg d srcs) ds ps = Inr ps' \<and> moved src dst ps ps'"
  using assms
proof (induction ds arbitrary: ps)
  case (Cons d ds)
  then have "d < length ps" "d \<in> dst" by auto
  from balance_dst_moved [OF Cons.prems(1) this Cons.prems(4-6)] obtain ps1 where
    ps1: "balance_dst avg d srcs ps = Inr ps1" "moved src dst ps ps1" by blast
  with Cons.IH [of ps1] Cons.prems moved_ok [OF ps1(2)] obtain ps' where
    "foldE (\<lambda>d. balance_dst avg d srcs) ds ps1 = Inr ps'" "moved src dst ps1 ps'" by auto
  with ps1 moved_trans [OF ps1(2)] show ?case by auto
qed (simp add: moved_refl)

lemma over_under_disjoint: "set (over_list avg ps) \<inter> set (under_list avg ps) = {}"
  by (auto simp: over_list_def under_list_def is_under_def)

lemma balance_moved:
  assumes "procs_ok ps"
  shows "\<exists>ps'. balance ps = Inr ps' \<and>
    moved (set (over_list (avgTasks ps) ps)) (set (under_list (avgTasks ps) ps)) ps ps'"
  unfolding balance_def Let_def
  by (rule balance_fold_moved [OF assms])
    (auto simp: over_list_def under_list_def is_under_def)

text \<open>Dealing tasks out in turn.\<close>

fun dealt :: "nat \<Rightarrow> nat \<Rightarrow> nat \<Rightarrow> 'a list list \<Rightarrow> 'a list" where
  "dealt n k i [] = []"
| "dealt n k i (ts # tss) = (if k mod n = i then ts else []) @ dealt n (Suc k) i tss"

lemma sched_AddTask_list_ok:
  assumes "procs_ok (processers s)" "processers s \<noteq> []" "length (processers s) < 2 ^ 64"
    and "idx_list s = of_nat k" "k < 2 ^ 64" "size (all_tasks (processers s)) + length ts \<le> lfq_room"
  shows "\<exists>s'. sched_AddTask_list ts s = Inr s' \<and> procs_ok (processers s') \<and>
    length (processers s') = length (processers s) \<and> idx_list s' = of_nat (Suc k) \<and>
    size (all_tasks (processers s')) = size (all_tasks (processers s)) + length ts \<and>
    (\<forall>i < length (processers s). queue (processers s' ! i) =
      queue (processers s ! i) @ (if k mod length (processers s) = i then ts else []))"
proof -
  let ?ps = "processers s"
  let ?i = "k mod length ?ps"
  have i: "?i < length ?ps" using assms(2) by simp
  have idx: "unat (idx_list s mod of_nat (length ?ps)) = ?i"
    using assms(3-5) by (simp add: unat_mod unat_of_nat_u64)
  have "length (queue (?ps ! ?i)) + length ts \<le> lfq_room"
    using queue_le_all [OF i] assms(6) by linarith
  from AddTask_list_ok [OF procs_ok_nth [OF assms(1) i] this] obtain p where
    p: "AddTask_list ts (?ps ! ?i) = Inr p" "lfq_invar (runnableQueue p)" "queue p = queue (?ps ! ?i) @ ts"
    by blast
  have sz: "size (all_tasks (?ps[?i := p])) = size (all_tasks ?ps) + length ts"
    using size_all_tasks_update [OF i, of p] p(3) by simp
  have "procs_ok (?ps[?i := p])"
    using procs_ok_update [OF assms(1) i p(2)] sz assms(6) by simp
  with sz p idx assms(2,4) show ?thesis
    by (auto simp: sched_AddTask_list_def on_processer_def nth_list_update)
qed

lemma deal_out:
  assumes "procs_ok (processers s)" "processers s \<noteq> []" "length (processers s) < 2 ^ 64"
    and "idx_list s = of_nat k" "k + length tss < 2 ^ 64"
    and "size (all_tasks (processers s)) + length (concat tss) \<le> lfq_room"
  shows "\<exists>s'. foldE sched_AddTask_list tss s = Inr s' \<and>
    length (processers s') = length (processers s) \<and>
    (\<forall>i < length (processers s). queue (processers s' ! i) =
      queue (processers s ! i) @ dealt (length (processers s)) k i tss)"
  using assms
proof (induction tss arbitrary: s k)
  case (Cons ts tss)
  have "k < 2 ^ 64" "size (all_tasks (processers s)) + length ts \<le> lfq_room"
    using Cons.prems(5,6) by simp_all
  from sched_AddTask_list_ok [OF Cons.prems(1-4) this] obtain s1 where
    s1: "sched_AddTask_list ts s = Inr s1" "procs_ok (processers s1)"
    "length (processers s1) = length (processers s)" "idx_list s1 = of_nat (Suc k)"
    "size (all_tasks (processers s1)) = size (all_tasks (processers s)) + length ts"
    "\<forall>i < length (processers s). queue (processers s1 ! i) =
      queue (processers s ! i) @ (if k mod length (processers s) = i then ts else [])" by blast
  have "\<exists>s'. foldE sched_AddTask_list tss s1 = Inr s' \<and>
    length (processers s') = length (processers s1) \<and>
    (\<forall>i < length (processers s1). queue (processers s' ! i) =
      queue (processers s1 ! i) @ dealt (length (processers s1)) (Suc k) i tss)"
    by (rule Cons.IH) (use s1 Cons.prems in auto)
  with s1 show ?case by auto
qed simp

text \<open>One round of the I/O wait thread that wakes a task.\<close>

lemma IOWait_round_wakes:
  assumes "procs_ok (processers s)" "processers s \<noteq> []" "length (processers s) < 2 ^ 64"
    and "idx_list s = of_nat k" "k < 2 ^ 64" "size (all_tasks (processers s)) < lfq_room"
    and "WaitResult evs (ioEngine s) = Inr (Some u, evs', e)"
  shows "\<exists>s'. IOWait_round evs s = Inr (evs', s') \<and> ioEngine s' = e \<and> procs_ok (processers s') \<and>
    stopped s' = stopped s \<and> length (processers s') = length (processers s) \<and> idx_list s' = of_nat (Suc k) \<and>
    size (all_tasks (processers s')) = Suc (size (all_tasks (processers s))) \<and>
    (\<forall>i < length (processers s). queue (processers s' ! i) = queue (processers s ! i) @
      (if k mod length (processers s) = i then [unat u] else []))"
proof -
  let ?s = "s\<lparr>ioEngine := e\<rparr>"
  have "\<exists>s'. sched_AddTask_list [unat u] ?s = Inr s' \<and> procs_ok (processers s') \<and>
    length (processers s') = length (processers ?s) \<and> idx_list s' = of_nat (Suc k) \<and>
    size (all_tasks (processers s')) = size (all_tasks (processers ?s)) + length [unat u] \<and>
    (\<forall>i < length (processers ?s). queue (processers s' ! i) = queue (processers ?s ! i) @
      (if k mod length (processers ?s) = i then [unat u] else []))"
    by (rule sched_AddTask_list_ok) (use assms in auto)
  then obtain s' where s': "sched_AddTask_list [unat u] ?s = Inr s'" "procs_ok (processers s')"
    "length (processers s') = length (processers s)" "idx_list s' = of_nat (Suc k)"
    "size (all_tasks (processers s')) = Suc (size (all_tasks (processers s)))"
    "\<forall>i < length (processers s). queue (processers s' ! i) = queue (processers s ! i) @
      (if k mod length (processers s) = i then [unat u] else [])" by auto
  moreover have "ioEngine s' = e" "stopped s' = stopped s"
    using s'(1) by (auto simp: sched_AddTask_list_def on_processer_def bindE_eq_Inr check_def
        split: if_splits)
  ultimately show ?thesis using assms(7) by (simp add: IOWait_round_def)
qed

section \<open>Properties\<close>

text \<open>
  C15: balancing moves tasks and loses none. From any quiescent list of processers with at most
  2^31-1 queued tasks in all, \<open>LoadBalance\<close> ends without a fault, whatever the rounding of its
  \<open>float\<close> averages does; the multiset of queued tasks is unchanged, a processer that is neither
  overloaded nor underloaded is not touched at all, an overloaded one only loses tasks from the
  front of its queue, and an underloaded one only gains at the end.
\<close>

theorem load_balance_conserves:
  assumes "procs_ok (processers s)"
  shows "\<exists>s'. LoadBalance s = Inr s' \<and>
    moved (set (over_list (avgTasks (processers s)) (processers s)))
      (set (under_list (avgTasks (processers s)) (processers s))) (processers s) (processers s')"
proof (cases "processers s = []")
  case True
  with assms show ?thesis by (simp add: LoadBalance_def moved_refl)
next
  case False
  with balance_moved [OF assms] show ?thesis by (auto simp: LoadBalance_def)
qed

definition sample_sched :: "tptr list list \<Rightarrow> (nat, unit) sched" where
  "sample_sched qs = \<lparr>stopped = False, processers = map (\<lambda>q. sample_proc q None (\<lambda>_. Runnable)) qs,
     tempTasks = [], idx_func = 0, idx_list = 0, ioWait = False, ioQueue = lfq_of [],
     ioEngine = sample_engine\<rparr>"

lemma sample_sched_sel [simp]:
  "processers (sample_sched qs) = map (\<lambda>q. sample_proc q None (\<lambda>_. Runnable)) qs"
  "idx_list (sample_sched qs) = 0" "stopped (sample_sched qs) = False"
  "ioQueue (sample_sched qs) = lfq_of []" "ioEngine (sample_sched qs) = sample_engine"
  by (simp_all add: sample_sched_def)

lemma sample_all_tasks:
  "length (concat qs) \<le> lfq_room \<Longrightarrow>
     all_tasks (processers (sample_sched qs)) = mset (concat qs)"
proof (induction qs)
  case (Cons q qs)
  then have "length q \<le> lfq_room" "length (concat qs) \<le> lfq_room" by simp_all
  with Cons.IH show ?case by (simp add: all_tasks_def)
qed (simp add: all_tasks_def)

lemma sample_procs_ok:
  assumes "length (concat qs) \<le> lfq_room"
  shows "procs_ok (processers (sample_sched qs))"
proof -
  have "length q \<le> lfq_room" if "q \<in> set qs" for q
  proof -
    have "length q \<le> length (concat qs)" using that
      by (induction qs) auto
    with assms show ?thesis by simp
  qed
  then show ?thesis unfolding procs_ok_def sample_all_tasks [OF assms] using assms
    by (auto simp del: size_mset simp add: size_mset)
qed

theorem load_balance_conserves_witness:
  "\<exists>s'. LoadBalance (sample_sched [[11, 12, 13], []]) = Inr s' \<and>
    all_tasks (processers s') = {#11, 12, 13#}"
proof -
  have r: "length (concat [[11, 12, 13], []]) \<le> lfq_room" by (simp add: lfq_room_def)
  from load_balance_conserves [OF sample_procs_ok [OF r]] show ?thesis
    unfolding moved_def sample_all_tasks [OF r] by auto
qed

text \<open>
  Tasks that come back from I/O are dealt out in turn. Successive calls of \<open>AddTask\<close> with
  lists of tasks give the \<open>j\<close>-th list, counted from the static index \<open>k\<close>, to processer
  \<open>(k + j) mod n\<close>, at the end of its queue, in order, and touch no other processer.
\<close>

theorem add_task_round_robin:
  assumes "procs_ok (processers s)" "processers s \<noteq> []" "length (processers s) < 2 ^ 64"
    and "idx_list s = of_nat k" "k + length tss < 2 ^ 64"
    and "size (all_tasks (processers s)) + length (concat tss) \<le> lfq_room"
  shows "\<exists>s'. foldE sched_AddTask_list tss s = Inr s' \<and>
    length (processers s') = length (processers s) \<and>
    (\<forall>i < length (processers s). queue (processers s' ! i) =
      queue (processers s ! i) @ dealt (length (processers s)) k i tss)"
  using deal_out [OF assms] .

theorem add_task_round_robin_witness:
  "\<exists>s'. foldE sched_AddTask_list [[21], [22], [23]] (sample_sched [[11], []]) = Inr s' \<and>
    queue (processers s' ! 0) = [11, 21, 23] \<and> queue (processers s' ! 1) = [22]"
proof -
  have r: "length (concat [[11 :: tptr], []]) \<le> lfq_room" by (simp add: lfq_room_def)
  have "\<exists>s'. foldE sched_AddTask_list [[21], [22], [23]] (sample_sched [[11], []]) = Inr s' \<and>
    length (processers s') = length (processers (sample_sched [[11], []])) \<and>
    (\<forall>i < length (processers (sample_sched [[11], []])). queue (processers s' ! i) =
      queue (processers (sample_sched [[11], []]) ! i) @
      dealt (length (processers (sample_sched [[11], []]))) 0 i [[21], [22], [23]])"
    by (rule add_task_round_robin [OF sample_procs_ok [OF r]])
      (simp_all add: sample_all_tasks [OF r, simplified] lfq_room_def)
  then show ?thesis by (fastforce simp: lfq_room_def)
qed

text \<open>
  A finished request puts its task back into exactly one run queue. When the kernel completes
  the request whose ring data is \<open>p\<close> with result \<open>v\<close>, a round of the I/O wait thread stores
  \<open>v\<close> in the request's result, frees the ring data and appends the task that waits, and nothing
  else, to the next processer in turn.
\<close>

theorem io_completion_requeues:
  assumes "procs_ok (processers s)" "processers s \<noteq> []" "length (processers s) < 2 ^ 64"
    and "idx_list s = of_nat k" "k < 2 ^ 64" "size (all_tasks (processers s)) < lfq_room"
    and "rdata (ioEngine s) p = Some \<lparr>rd_type = NORMAL, rd_res = r\<rparr>"
  shows "\<exists>s'. IOWait_round (Cqe v p # evs) s = Inr (evs, s') \<and>
    ret (results (ioEngine s') r) = v \<and> rdata (ioEngine s') p = None \<and>
    (\<forall>i < length (processers s). queue (processers s' ! i) = queue (processers s ! i) @
      (if k mod length (processers s) = i then [unat (user_data (results (ioEngine s) r))] else []))"
proof -
  have "WaitResult (Cqe v p # evs) (ioEngine s) = Inr (Some (user_data (results (ioEngine s) r)), evs,
      snd (finish_data p r v (ioEngine s)))"
    using assms(7) by (simp add: on_cqe_def finish_data_def)
  from IOWait_round_wakes [OF assms(1-6) this] show ?thesis by (auto simp: finish_data_def)
qed

theorem io_completion_requeues_witness:
  "\<exists>s'. IOWait_round [Cqe 512 0] (sample_sched [[11], []]
      \<lparr>ioEngine := sample_engine\<lparr>rdata := [0 \<mapsto> \<lparr>rd_type = NORMAL, rd_res = 1\<rparr>]\<rparr>\<rparr>) = Inr ([], s') \<and>
    queue (processers s' ! 0) = [11, 77]"
proof -
  let ?s = "sample_sched [[11], []]
      \<lparr>ioEngine := sample_engine\<lparr>rdata := [0 \<mapsto> \<lparr>rd_type = NORMAL, rd_res = 1\<rparr>]\<rparr>\<rparr>"
  have r: "length (concat [[11 :: tptr], []]) \<le> lfq_room" by (simp add: lfq_room_def)
  have "\<exists>s'. IOWait_round (Cqe 512 0 # []) ?s = Inr ([], s') \<and>
    ret (results (ioEngine s') 1) = 512 \<and> rdata (ioEngine s') 0 = None \<and>
    (\<forall>i < length (processers ?s). queue (processers s' ! i) = queue (processers ?s ! i) @
      (if 0 mod length (processers ?s) = i then [unat (user_data (results (ioEngine ?s) 1))] else []))"
    by (rule io_completion_requeues)
      (use sample_procs_ok [OF r] in \<open>simp_all add: sample_all_tasks [OF r, simplified] lfq_room_def\<close>)
  then show ?thesis by (fastforce simp: lfq_room_def)
qed

text \<open>
  The scheduler never gets past its first processer. \<open>Scheduler::Start\<close> calls the blocking
  \<open>Processer::Start\<close> for each processer in turn: the first one finds its fresh queue empty and
  waits. The other processers are not created, the tasks added before the start are never handed
  out, and the balancing loop is not reached, for any number of steps.
\<close>

theorem scheduler_start_blocks:
  fixes cs :: "('f, 'c, unit) calls"
  assumes "0 < num" "processers s = []" "alloc_ok ([] :: (u64 \<times> tptr node) list) (ch_addr ch)"
  shows "sched_Start fuel env fresh cs ch pl num s = Inl Diverges"
proof -
  obtain q where q: "lfq_new ch = Inr q" using assms(3)
    by (auto simp: lfq_new_def alloc_node_def Let_def)
  with lfq_pop_new [OF q] have "run_processer fuel cs p = Inl Diverges" if "Processer_new ch i pl = Inr p" for p :: "('f, 'c) proc" and i
    using that by (cases fuel)
      (auto simp: run_processer_def Processer_new_def Start_iter_def pop_runnable_def
        Wait_enter_def Let_def)
  moreover obtain p :: "('f, 'c) proc" where "Processer_new ch (of_nat 0) pl = Inr p" using q by (simp add: Processer_new_def)
  moreover have "[0..<num] = 0 # [1..<num]" using assms(1) by (simp add: upt_conv_Cons)
  ultimately show ?thesis using assms(1,2) by (simp add: sched_Start_def)
qed

theorem scheduler_start_blocks_witness:
  "sched_Start 1000000 sample_os 9 (checked_calls (\<lambda>_. True))
     \<lparr>ch_addr = 1, ch_data = Some 13, ch_junk = 0, ch_spurious = False\<rparr> (sample_pool [] 0 100 (\<lambda>_. Done)) 4
     ((sample_sched [])\<lparr>tempTasks := [3]\<rparr>) = Inl Diverges"
  by (rule scheduler_start_blocks) (simp_all add: alloc_ok_def)

lemma Stop_fields [simp]:
  "runnableQueue (Stop p) = runnableQueue p" "stop (Stop p)"
  by (simp_all add: Stop_def WakeUp_def)

lemma Stop_tasks: "all_tasks (map Stop ps) = all_tasks ps"
  by (simp add: all_tasks_def comp_def)

text \<open>
  C32: \<open>Stop\<close> ends every thread, and queues a wild pointer. After \<open>Scheduler::Stop\<close> each processer's
  loop, the balancing loop and the submit thread leave at their next test. The wait thread has to be
  woken, by a timeout without a length whose \<open>result\<close> is a local that is never initialised: its
  completion, whatever its value, makes the wait thread, which sits in \<open>WaitResult\<close>, append the
  pointer found there to the next run queue, where the queue's destructor will delete it; then
  it leaves its loop too.
\<close>

theorem stop_queues_wild_pointer:
  fixes cs :: "('f, 'c, unit) calls"
  assumes "procs_ok (processers s)" "processers s \<noteq> []" "length (processers s) < 2 ^ 64"
    and "idx_list s = of_nat k" "k < 2 ^ 64" "size (all_tasks (processers s)) < lfq_room"
  shows "\<exists>s1 s2. sched_Stop True res s = Inr s1 \<and>
    (\<forall>p \<in> set (processers s1). Start_iter cs p = Inr (Stopped, p)) \<and> main_loop (Suc n) s1 = Inr s1 \<and>
    IOSubmit_round run s1 = Inr (Stopped, s1) \<and>
    IOWait_round [Cqe v (next_data (ioEngine s))] s1 = Inr ([], s2) \<and>
    IOWait_iter evs s2 = Inr (Stopped, evs, s2) \<and>
    (\<forall>i < length (processers s). queue (processers s2 ! i) = queue (processers s ! i) @
      (if k mod length (processers s) = i then [unat (user_data (results (ioEngine s) res))] else []))"
proof -
  let ?e = "ioEngine s"
  obtain e where e: "Exec True True (Prep_timeout no_timeout) res no_timeout ?e = Inr (True, e)"
    "rdata e (next_data ?e) = Some \<lparr>rd_type = NORMAL, rd_res = res\<rparr>" "results e = results ?e"
    by (auto simp: Exec_def new_data_def Submit_def no_timeout_def Let_def)
  let ?s0 = "s\<lparr>stopped := True, processers := map Stop (processers s)\<rparr>"
  let ?s1 = "(WakeUpIOSubmit ?s0)\<lparr>ioEngine := e\<rparr>"
  have f: "processers ?s1 = map Stop (processers s)" "stopped ?s1" "idx_list ?s1 = idx_list s" "ioEngine ?s1 = e"
    by (simp_all add: WakeUpIOSubmit_def)
  have 1: "sched_Stop True res s = Inr ?s1"
    using e(1) by (simp add: sched_Stop_def WakeUpIOWait_def TimeOut_def WakeUpIOSubmit_def)
  have po: "procs_ok (processers ?s1)" using assms(1) by (auto simp: f(1) procs_ok_def Stop_tasks)
  have w: "WaitResult [Cqe v (next_data ?e)] (ioEngine ?s1) =
      Inr (Some (user_data (results ?e res)), [], snd (finish_data (next_data ?e) res v e))"
    using e(2,3) by (simp add: f(4) on_cqe_def finish_data_def)
  from IOWait_round_wakes [OF po _ _ _ assms(5) _ w] assms f obtain s2 where
    "IOWait_round [Cqe v (next_data ?e)] ?s1 = Inr ([], s2)" "stopped s2"
    "\<forall>i < length (processers s). queue (processers s2 ! i) = queue (map Stop (processers s) ! i) @
      (if k mod length (processers s) = i then [unat (user_data (results ?e res))] else [])"
    by (auto simp: Stop_tasks)
  then show ?thesis using 1 f
    by (intro exI [of _ ?s1] exI [of _ s2]) (simp add: Start_iter_def IOSubmit_round_def IOWait_iter_def)
qed

theorem stop_queues_wild_pointer_witness:
  "\<exists>s1 s2. sched_Stop True 1 (sample_sched [[11], []]) = Inr s1 \<and>
    IOWait_round [Cqe 0 0] s1 = Inr ([], s2) \<and> queue (processers s2 ! 0) = [11, 77]"
proof -
  let ?s = "sample_sched [[11], []]"
  have r: "length (concat [[11 :: tptr], []]) \<le> lfq_room" by (simp add: lfq_room_def)
  have "\<exists>s1 s2. sched_Stop True 1 ?s = Inr s1 \<and>
    (\<forall>p \<in> set (processers s1). Start_iter (checked_calls (\<lambda>_. True)) p = Inr (Stopped, p)) \<and>
    main_loop (Suc 0) s1 = Inr s1 \<and> IOSubmit_round (\<lambda>_. Inr) s1 = Inr (Stopped, s1) \<and>
    IOWait_round [Cqe 0 (next_data (ioEngine ?s))] s1 = Inr ([], s2) \<and>
    IOWait_iter [] s2 = Inr (Stopped, [], s2) \<and>
    (\<forall>i < length (processers ?s). queue (processers s2 ! i) = queue (processers ?s ! i) @
      (if 0 mod length (processers ?s) = i then [unat (user_data (results (ioEngine ?s) 1))] else []))"
    by (rule stop_queues_wild_pointer)
      (use sample_procs_ok [OF r] in \<open>simp_all add: sample_all_tasks [OF r, simplified] lfq_room_def\<close>)
  then show ?thesis by (fastforce simp: lfq_room_def)
qed

end
