(* ===== verification/Switching.thy ===== *)
theory Switching
  imports Processer "HOL-Library.Multiset"
begin

text \<open>
  How threads exchange coroutines: \<open>Processer::Start\<close>, \<open>TaskFunc\<close>, \<open>SuspendTask\<close>, \<open>Yield\<close> and
  \<open>AfterLastSche\<close> of \<open>processer/processer.cpp\<close> with \<open>Context::Swap\<close> taken apart. \<open>swapcontext\<close> first
  writes the registers of the running context into its \<open>ucontext_t\<close> and then loads the other one;
  between the two, and before the first, other threads run. A task that is in a queue can be taken by
  any thread, so it must not get there before its registers are saved: this is what the deferred
  closures of \<open>LastScheToDos_\<close> are for.

  A machine is a list of threads, each with the fields of its processer and the place in the code
  where it is (\<open>code\<close>), and for every context what it will resume with (\<open>saved\<close>): nothing while it is
  executing, or when it does not exist. Queues are lists whose operations are single steps
  (\<open>LFQueue_Linear\<close>), a thread without work stays at the head of its loop (\<open>Parking\<close>), and
  processers are not stopped. \<open>Yield\<close> and \<open>Release\<close> are the repaired ones: the status of the
  yielding task is read from the task (\<open>Yield_cur\<close>), and the stack check returns.

  Anybody may queue any task on any thread at any time (\<open>Queued t j\<close>): an intercepted call that has
  completed, but also a channel that has found the task in its queue, or a second wake-up. \<open>expected\<close>
  says which of these moves are safe.
\<close>

section \<open>State\<close>

datatype cx = Loop_cx nat | Task_cx tptr

text \<open>Where a context resumes: the start of \<open>TaskFunc\<close>, behind the swap of \<open>Start\<close>, of a \<open>Yield\<close> in
  the body of the coroutine, or of the \<open>Yield\<close> that ends \<open>TaskFunc\<close>.\<close>

datatype point = P_func | P_loop | P_yield | P_end

datatype code =
    In_loop
  | In_body tptr
  | In_yield task_status tptr
  | In_save cx point cx
  | In_load cx
  | In_after cx point

record worker =
  w_code :: code
  w_running :: "tptr option"
  w_queue :: "tptr list"
  w_todo :: "tptr todo list"

record cpus =
  workers :: "worker list"
  saved :: "cx \<rightharpoonup> point"
  awaited :: "tptr list"
  pooled :: "tptr list"

text \<open>What goes wrong: a thread loads a context whose registers are not saved; \<open>Yield\<close> without a
  running task; the return from \<open>TaskFunc\<close>, whose \<open>uc_link\<close> was never set.\<close>

datatype trap = Unsaved cx | No_running | No_link

definition cpus_new :: "nat \<Rightarrow> cpus" where
  "cpus_new n = \<lparr>workers = replicate n \<lparr>w_code = In_loop, w_running = None, w_queue = [], w_todo = []\<rparr>,
     saved = Map.empty, awaited = [], pooled = []\<rparr>"

definition put_worker :: "nat \<Rightarrow> worker \<Rightarrow> cpus \<Rightarrow> cpus" where
  "put_worker i w s = s\<lparr>workers := (workers s)[i := w]\<rparr>"

section \<open>Steps of a thread\<close>

text \<open>The two halves of \<open>swapcontext\<close>.\<close>

definition swap_save :: "cx \<Rightarrow> point \<Rightarrow> (cx \<rightharpoonup> point) \<Rightarrow> (cx \<rightharpoonup> point)" where
  "swap_save c pt sv = sv(c \<mapsto> pt)"

definition swap_load :: "cx \<Rightarrow> (cx \<rightharpoonup> point) \<Rightarrow> trap + (point \<times> (cx \<rightharpoonup> point))" where
  "swap_load d sv = (case sv d of None \<Rightarrow> Inl (Unsaved d) | Some pt \<Rightarrow> Inr (pt, sv(d := None)))"

text \<open>One closure of \<open>LastScheToDos_\<close>: \<open>Requeue\<close> and \<open>Release_task\<close> are those of \<open>Yield\<close>, \<open>Call t\<close> the one
  through which a blocking call of \<open>t\<close> hands its request over. \<open>small\<close> is the answer of the stack check.\<close>

fun todo_step :: "bool \<Rightarrow> nat \<Rightarrow> tptr todo \<Rightarrow> cpus \<Rightarrow> cpus" where
  "todo_step small i (Requeue t) s = put_worker i ((workers s ! i)\<lparr>w_queue := w_queue (workers s ! i) @ [t]\<rparr>) s"
| "todo_step small i (Release_task t) s =
     (if small then s\<lparr>pooled := pooled s @ [t]\<rparr> else s\<lparr>saved := (saved s)(Task_cx t := None)\<rparr>)"
| "todo_step small i (Call t) s = s\<lparr>awaited := awaited s @ [t]\<rparr>"

fun resume_at :: "cx \<Rightarrow> point \<Rightarrow> trap + code" where
  "resume_at (Task_cx t) P_end = Inl No_link"
| "resume_at (Task_cx t) pt = Inr (In_body t)"
| "resume_at (Loop_cx i) pt = Inr In_loop"

definition yield_point :: "task_status \<Rightarrow> point" where
  "yield_point st = (if st = Done then P_end else P_yield)"

text \<open>The next step of thread \<open>i\<close>. In the body of a coroutine it is the coroutine that decides.\<close>

definition go :: "bool \<Rightarrow> nat \<Rightarrow> cpus \<Rightarrow> trap + cpus" where
  "go small i s = (let w = workers s ! i in
     case w_code w of
       In_loop \<Rightarrow> (case w_queue w of
           [] \<Rightarrow> Inr (put_worker i (w\<lparr>w_running := None\<rparr>) s)
         | u # us \<Rightarrow> Inr (put_worker i (w\<lparr>w_queue := us, w_running := Some u,
             w_code := In_save (Loop_cx i) P_loop (Task_cx u)\<rparr>) s))
     | In_body t \<Rightarrow> Inr s
     | In_yield st t \<Rightarrow> (case w_queue w of
           u # us \<Rightarrow> Inr (put_worker i (w\<lparr>w_queue := us, w_running := Some u,
             w_code := In_save (Task_cx t) (yield_point st) (Task_cx u)\<rparr>) s)
         | [] \<Rightarrow> if st = Runnable
             then Inr (put_worker i (w\<lparr>w_running := None, w_todo := butlast (w_todo w),
               w_code := In_after (Task_cx t) P_yield\<rparr>) s)
             else Inr (put_worker i (w\<lparr>w_running := None,
               w_code := In_save (Task_cx t) (yield_point st) (Loop_cx i)\<rparr>) s))
     | In_save c pt d \<Rightarrow>
         Inr (put_worker i (w\<lparr>w_code := In_load d\<rparr>) (s\<lparr>saved := swap_save c pt (saved s)\<rparr>))
     | In_load d \<Rightarrow> bindE (swap_load d (saved s)) (\<lambda>(pt, sv).
         Inr (put_worker i (w\<lparr>w_code := In_after d pt\<rparr>) (s\<lparr>saved := sv\<rparr>)))
     | In_after d pt \<Rightarrow> (case w_todo w of
           x # xs \<Rightarrow> Inr (todo_step small i x (put_worker i (w\<lparr>w_todo := xs\<rparr>) s))
         | [] \<Rightarrow> bindE (resume_at d pt) (\<lambda>k. Inr (put_worker i (w\<lparr>w_code := k\<rparr>) s))))"

section \<open>Moves of the machine\<close>

text \<open>
  \<open>Yield_at i st\<close>: the coroutine on thread \<open>i\<close> calls \<open>Yield\<close> with status \<open>st\<close> (\<open>Done\<close>: at the end
  of \<open>TaskFunc\<close>). \<open>Call_at i\<close>: a blocking call, which adds its closure and then suspends.
  \<open>Queued t j\<close>: somebody queues task \<open>t\<close> on \<open>j\<close>. \<open>Move_n i j n\<close>: load balancing.
  \<open>New_task\<close> and \<open>Reuse\<close>: a task from \<open>TaskPool::Get\<close>, fresh or pooled, is queued.
\<close>

datatype move =
    Go nat bool
  | Yield_at nat task_status
  | Call_at nat
  | Queued tptr nat
  | Move_n nat nat nat
  | New_task tptr nat
  | Reuse tptr nat

definition tasks_of :: "cx \<Rightarrow> tptr list" where
  "tasks_of c = (case c of Loop_cx i \<Rightarrow> [] | Task_cx t \<Rightarrow> [t])"

text \<open>The coroutine a thread executes.\<close>

definition runs :: "worker \<Rightarrow> tptr list" where
  "runs w = (case w_code w of
       In_loop \<Rightarrow> [] | In_body t \<Rightarrow> [t] | In_yield st t \<Rightarrow> [t]
     | In_save c pt d \<Rightarrow> tasks_of c | In_load d \<Rightarrow> [] | In_after d pt \<Rightarrow> tasks_of d)"

definition enqueue :: "tptr \<Rightarrow> nat \<Rightarrow> cpus \<Rightarrow> cpus" where
  "enqueue t j s = put_worker j ((workers s ! j)\<lparr>w_queue := w_queue (workers s ! j) @ [t]\<rparr>) s"

text \<open>What a coroutine does up to the pop of \<open>Yield\<close>: \<open>todos\<close> is the closure it defers.\<close>

definition leave_body :: "nat \<Rightarrow> task_status \<Rightarrow> (tptr \<Rightarrow> tptr todo list) \<Rightarrow> cpus \<Rightarrow> trap + cpus" where
  "leave_body i st todos s = (let w = workers s ! i in
     case w_code w of
       In_body t \<Rightarrow> (case w_running w of
           None \<Rightarrow> Inl No_running
         | Some r \<Rightarrow> Inr (put_worker i (w\<lparr>w_running := None, w_todo := w_todo w @ todos r,
             w_code := In_yield st r\<rparr>) s))
     | _ \<Rightarrow> Inr s)"

definition yield_todo :: "task_status \<Rightarrow> tptr \<Rightarrow> tptr todo list" where
  "yield_todo st t = (case st of Runnable \<Rightarrow> [Requeue t] | Done \<Rightarrow> [Release_task t] | Block \<Rightarrow> [])"

text \<open>A move that is not possible changes nothing. A fresh task is where no other task is.\<close>

definition sw_move :: "move \<Rightarrow> cpus \<Rightarrow> trap + cpus" where
  "sw_move m s = (let n = length (workers s) in
     case m of
       Go i small \<Rightarrow> if i < n then go small i s else Inr s
     | Yield_at i st \<Rightarrow> if i < n then leave_body i st (yield_todo st) s else Inr s
     | Call_at i \<Rightarrow> if i < n then leave_body i Block (\<lambda>t. [Call t]) s else Inr s
     | Queued t j \<Rightarrow> if j < n then Inr (enqueue t j (s\<lparr>awaited := remove1 t (awaited s)\<rparr>)) else Inr s
     | Move_n i j k \<Rightarrow> if i < n \<and> j < n \<and> i \<noteq> j then
         (let q = w_queue (workers s ! i);
              s1 = put_worker i ((workers s ! i)\<lparr>w_queue := drop k q\<rparr>) s
          in Inr (put_worker j ((workers s1 ! j)\<lparr>w_queue := w_queue (workers s1 ! j) @ take k q\<rparr>) s1))
         else Inr s
     | New_task t j \<Rightarrow> if j < n \<and> saved s (Task_cx t) = None \<and> t \<notin> set (concat (map runs (workers s)))
         then Inr (enqueue t j (s\<lparr>saved := (saved s)(Task_cx t \<mapsto> P_func)\<rparr>)) else Inr s
     | Reuse t j \<Rightarrow> if j < n \<and> t \<in> set (pooled s)
         then Inr (enqueue t j (s\<lparr>pooled := remove1 t (pooled s)\<rparr>)) else Inr s)"

definition sw_run :: "move list \<Rightarrow> cpus \<Rightarrow> trap + cpus" where
  "sw_run = foldE sw_move"

section \<open>Counting tasks\<close>

text \<open>Tasks that execute, whose registers are in a processor, and tasks that somebody may load: in a
  queue, about to be loaded, in a closure that will run, awaited or pooled.\<close>

definition todo_tasks :: "tptr todo list \<Rightarrow> tptr list" where
  "todo_tasks xs = map (\<lambda>x. case x of Requeue t \<Rightarrow> t | Release_task t \<Rightarrow> t | Call t \<Rightarrow> t) xs"

definition live :: "worker \<Rightarrow> tptr multiset" where
  "live w = mset (runs w)"

definition in_hand :: "worker \<Rightarrow> tptr multiset" where
  "in_hand w = (case w_code w of
       In_save c pt d \<Rightarrow> mset (tasks_of d)
     | In_load d \<Rightarrow> mset (tasks_of d) + mset (todo_tasks (w_todo w))
     | In_after d pt \<Rightarrow> mset (todo_tasks (w_todo w))
     | _ \<Rightarrow> {#})"

definition loadable :: "worker \<Rightarrow> tptr multiset" where
  "loadable w = mset (w_queue w) + in_hand w"

definition all_live :: "cpus \<Rightarrow> tptr multiset" where
  "all_live s = sum_list (map live (workers s))"

definition all_loadable :: "cpus \<Rightarrow> tptr multiset" where
  "all_loadable s = sum_list (map loadable (workers s)) + mset (awaited s) + mset (pooled s)"

text \<open>A wake-up is expected if its task was handed over by a deferred closure and not queued since, or
  if it is suspended with its registers saved and nobody else can load it.\<close>

definition expected :: "move \<Rightarrow> cpus \<Rightarrow> bool" where
  "expected m s \<longleftrightarrow> (case m of
       Queued t j \<Rightarrow> t \<in> set (awaited s) \<or> saved s (Task_cx t) \<noteq> None \<and> t \<notin># all_loadable s
     | _ \<Rightarrow> True)"

fun all_expected :: "move list \<Rightarrow> cpus \<Rightarrow> bool" where
  "all_expected [] s = True"
| "all_expected (m # ms) s \<longleftrightarrow> expected m s \<and>
     (case sw_move m s of Inl e \<Rightarrow> True | Inr s' \<Rightarrow> all_expected ms s')"

definition ctx_ok :: "(cx \<rightharpoonup> point) \<Rightarrow> tptr multiset \<Rightarrow> tptr multiset \<Rightarrow> bool" where
  "ctx_ok sv L P \<longleftrightarrow> (\<forall>t. count L t + count P t \<le> 1) \<and> (\<forall>t \<in># L. sv (Task_cx t) = None) \<and>
     (\<forall>t \<in># P. sv (Task_cx t) \<noteq> None)"

definition deferred_for :: "task_status \<Rightarrow> tptr \<Rightarrow> tptr todo list \<Rightarrow> bool" where
  "deferred_for st t xs \<longleftrightarrow> xs = yield_todo st t \<or> st = Block \<and> xs = [Call t]"

text \<open>Where the loop of thread \<open>i\<close> is, and what is deferred, at each place of the code.\<close>

definition shape :: "nat \<Rightarrow> point option \<Rightarrow> worker \<Rightarrow> bool" where
  "shape i lp w = (case w_code w of
       In_loop \<Rightarrow> lp = None \<and> w_todo w = []
     | In_body t \<Rightarrow> lp \<noteq> None \<and> w_todo w = [] \<and> (w_running w = None \<or> w_running w = Some t)
     | In_yield st t \<Rightarrow> lp \<noteq> None \<and> deferred_for st t (w_todo w)
     | In_save c pt d \<Rightarrow> (case c of
           Loop_cx j \<Rightarrow> j = i \<and> lp = None \<and> w_todo w = [] \<and> tasks_of d \<noteq> [] \<and> w_running w = next_running (tasks_of d)
         | Task_cx t \<Rightarrow> lp \<noteq> None \<and> (tasks_of d = [] \<longrightarrow> d = Loop_cx i) \<and>
             w_running w = next_running (tasks_of d) \<and> (\<exists>st. deferred_for st t (w_todo w)))
     | In_load d \<Rightarrow> lp \<noteq> None \<and> (tasks_of d = [] \<longrightarrow> d = Loop_cx i) \<and>
         w_running w = next_running (tasks_of d)
     | In_after d pt \<Rightarrow> (case d of Loop_cx j \<Rightarrow> j = i \<and> lp = None | Task_cx t \<Rightarrow> lp \<noteq> None \<and>
         (w_running w = None \<or> w_running w = Some t)))"


section \<open>Lemmas on the counts\<close>

lemma queue_views [simp]:
  "live (w\<lparr>w_queue := q\<rparr>) = live w" "in_hand (w\<lparr>w_queue := q\<rparr>) = in_hand w"
  "shape i lp (w\<lparr>w_queue := q\<rparr>) = shape i lp w"
  by (simp_all add: live_def runs_def in_hand_def shape_def cong: code.case_cong cx.case_cong)

lemma ctx_mono: "ctx_ok sv L P \<Longrightarrow> L' \<subseteq># L \<Longrightarrow> P' \<subseteq># P \<Longrightarrow> ctx_ok sv L' P'"
  unfolding ctx_ok_def
  by (meson add_mono le_trans mset_subset_eqD mset_subset_eq_count)

lemma ctx_loop [simp]: "ctx_ok (sv(Loop_cx i := x)) L P = ctx_ok sv L P"
  by (simp add: ctx_ok_def)

lemma ctx_count: "ctx_ok sv L P \<Longrightarrow> count L t + count P t \<le> 1"
  by (simp add: ctx_ok_def)

lemma ctx_okI:
  assumes "\<And>t. count L t + count P t \<le> 1" "\<And>t. t \<in># L \<Longrightarrow> sv (Task_cx t) = None"
    and "\<And>t. t \<in># P \<Longrightarrow> sv (Task_cx t) \<noteq> None"
  shows "ctx_ok sv L P"
  using assms by (simp add: ctx_ok_def)

lemma ctx_save:
  assumes c: "ctx_ok sv (L + {#t#}) P"
  shows "ctx_ok (sv(Task_cx t \<mapsto> pt)) L (P + {#t#})"
proof (rule ctx_okI)
  have "t \<notin># L" using ctx_count [OF c, of t] by (simp add: not_in_iff)
  then show "(sv(Task_cx t \<mapsto> pt)) (Task_cx u) = None" if "u \<in># L" for u
    using that c by (auto simp: ctx_ok_def)
  show "count L u + count (P + {#t#}) u \<le> 1" for u using ctx_count [OF c, of u] by (auto split: if_splits)
qed (use c in \<open>auto simp: ctx_ok_def\<close>)

lemma ctx_save_lost: "ctx_ok sv (L + {#t#}) P \<Longrightarrow> ctx_ok (sv(Task_cx t \<mapsto> pt)) L P"
  by (drule ctx_save [where pt = pt], erule ctx_mono) simp_all

lemma ctx_load:
  assumes c: "ctx_ok sv L (P + {#t#})"
  shows "ctx_ok (sv(Task_cx t := None)) (L + {#t#}) P"
proof (rule ctx_okI)
  have "t \<notin># P" using ctx_count [OF c, of t] by (simp add: not_in_iff)
  then show "(sv(Task_cx t := None)) (Task_cx u) \<noteq> None" if "u \<in># P" for u
    using that c by (auto simp: ctx_ok_def)
  show "count (L + {#t#}) u + count P u \<le> 1" for u using ctx_count [OF c, of u] by (auto split: if_splits)
qed (use c in \<open>auto simp: ctx_ok_def\<close>)

lemma ctx_delete: "ctx_ok sv L (P + {#t#}) \<Longrightarrow> ctx_ok (sv(Task_cx t := None)) L P"
  by (drule ctx_load, erule ctx_mono) simp_all

lemma ctx_new:
  assumes c: "ctx_ok sv L P" "sv (Task_cx t) = None" "t \<notin># L"
  shows "ctx_ok (sv(Task_cx t \<mapsto> pt)) L (P + {#t#})"
proof (rule ctx_okI)
  have "t \<notin># P" using assms(1,2) by (auto simp: ctx_ok_def)
  then show "count L u + count (P + {#t#}) u \<le> 1" for u
    using ctx_count [OF c(1), of u] c(3) by (auto simp: not_in_iff)
qed (use c in \<open>auto simp: ctx_ok_def\<close>)

lemma ctx_queue:
  assumes c: "ctx_ok sv L P" "sv (Task_cx t) \<noteq> None" "t \<notin># P"
  shows "ctx_ok sv L (add_mset t P)"
proof (rule ctx_okI)
  have "t \<notin># L" using c(1,2) by (auto simp: ctx_ok_def)
  then show "count L u + count (add_mset t P) u \<le> 1" for u
    using ctx_count [OF c(1), of u] c(3) by (auto simp: not_in_iff)
qed (use c in \<open>auto simp: ctx_ok_def\<close>)

lemmas ctx_simped = ctx_save [simplified] ctx_save_lost [simplified] ctx_load [simplified]
  ctx_delete [simplified] ctx_new [simplified]

text \<open>Everything but thread \<open>i\<close>.\<close>

lemma rest_of:
  assumes "i < length (workers s)"
  obtains RL RP where "all_live s = RL + live (workers s ! i)"
    "all_loadable s = RP + loadable (workers s ! i) + mset (awaited s) + mset (pooled s)"
    "\<And>s' w. workers s' = (workers s)[i := w] \<Longrightarrow> all_live s' = RL + live w"
    "\<And>s' w. workers s' = (workers s)[i := w] \<Longrightarrow>
       all_loadable s' = RP + loadable w + mset (awaited s') + mset (pooled s')"
proof -
  let ?rest = "\<lambda>f. sum_list (map f (take i (workers s))) + sum_list (map f (drop (Suc i) (workers s)))"
  have u: "sum_list (map f ((workers s)[i := w])) = ?rest f + f w"
    for f :: "worker \<Rightarrow> tptr multiset" and w
    by (simp add: upd_conv_take_nth_drop [OF assms] ac_simps)
  have "sum_list (map f (workers s)) = ?rest f + f (workers s ! i)" for f :: "worker \<Rightarrow> tptr multiset"
    using u [of f "workers s ! i"] by simp
  with u show ?thesis
    by (intro that [of "?rest live" "?rest loadable"]) (simp_all add: all_live_def all_loadable_def)
qed

lemma rest_upd:
  assumes "i < length (workers s)" "workers s' = (workers s)[i := w]"
  shows "\<exists>RL RP. all_live s = RL + live (workers s ! i) \<and>
    all_loadable s = RP + loadable (workers s ! i) + mset (awaited s) + mset (pooled s) \<and>
    all_live s' = RL + live w \<and> all_loadable s' = RP + loadable w + mset (awaited s') + mset (pooled s')"
  by (rule rest_of [OF assms(1)]) (use assms(2) in blast)

section \<open>The invariant\<close>

definition sw_inv :: "cpus \<Rightarrow> bool" where
  "sw_inv s \<longleftrightarrow> (\<forall>i < length (workers s). shape i (saved s (Loop_cx i)) (workers s ! i)) \<and>
     ctx_ok (saved s) (all_live s) (all_loadable s)"

text \<open>A step of thread \<open>i\<close>: what has to be shown of the thread, and of the counts.\<close>

lemma inv_step:
  assumes s: "sw_inv s" and i: "i < length (workers s)"
    and w: "workers s' = (workers s)[i := w]" "shape i (saved s' (Loop_cx i)) w"
    and sv: "\<And>j. j \<noteq> i \<Longrightarrow> saved s' (Loop_cx j) = saved s (Loop_cx j)"
    and c: "\<And>RL RP. ctx_ok (saved s) (RL + live (workers s ! i))
        (RP + loadable (workers s ! i) + mset (awaited s) + mset (pooled s)) \<Longrightarrow>
      ctx_ok (saved s') (RL + live w) (RP + loadable w + mset (awaited s') + mset (pooled s'))"
  shows "sw_inv s'"
proof -
  obtain RL RP where r: "all_live s = RL + live (workers s ! i)"
    "all_loadable s = RP + loadable (workers s ! i) + mset (awaited s) + mset (pooled s)"
    "all_live s' = RL + live w"
    "all_loadable s' = RP + loadable w + mset (awaited s') + mset (pooled s')"
    using rest_upd [OF i w(1)] by blast
  have "ctx_ok (saved s') (all_live s') (all_loadable s')"
    using s c [of RL RP] by (simp only: sw_inv_def r)
  moreover have "shape j (saved s' (Loop_cx j)) (workers s' ! j)" if "j < length (workers s')" for j
    using s i w sv that by (cases "j = i") (auto simp: sw_inv_def)
  ultimately show ?thesis by (simp add: sw_inv_def)
qed

lemma put_worker_fields [simp]:
  "workers (put_worker i w s) = (workers s)[i := w]" "saved (put_worker i w s) = saved s"
  "awaited (put_worker i w s) = awaited s" "pooled (put_worker i w s) = pooled s"
  by (simp_all add: put_worker_def)

lemmas views = live_def loadable_def in_hand_def runs_def shape_def todo_tasks_def

lemma tasks_of_simps [simp]: "tasks_of (Loop_cx j) = []" "tasks_of (Task_cx t) = [t]"
  by (simp_all add: tasks_of_def)

lemma tasks_of_nonempty: "tasks_of d \<noteq> [] \<longleftrightarrow> (\<exists>t. d = Task_cx t)"
  by (cases d) simp_all

lemma go_loop:
  assumes "sw_inv s" "i < length (workers s)" "w_code (workers s ! i) = In_loop" "go small i s = Inr s'"
  shows "sw_inv s'"
proof -
  have sh: "shape i (saved s (Loop_cx i)) (workers s ! i)" using assms by (simp add: sw_inv_def)
  show ?thesis
  proof (cases "w_queue (workers s ! i)")
    case Nil
    show ?thesis by (rule inv_step [OF assms(1,2)])
      (use assms(3,4) Nil sh in \<open>auto simp: go_def Let_def views\<close>)
  next
    case (Cons u us)
    show ?thesis by (rule inv_step [OF assms(1,2)])
      (use assms(3,4) Cons sh in \<open>auto simp: go_def Let_def views next_running_def\<close>)
  qed
qed

lemma go_yield:
  assumes "sw_inv s" "i < length (workers s)" "w_code (workers s ! i) = In_yield st t" "go small i s = Inr s'"
  shows "sw_inv s'"
proof -
  have sh: "shape i (saved s (Loop_cx i)) (workers s ! i)" using assms by (simp add: sw_inv_def)
  show ?thesis
  proof (cases "w_queue (workers s ! i)")
    case Nil
    show ?thesis 
      by (rule inv_step [OF assms(1,2), where w = "if st = Runnable then (workers s ! i)\<lparr>w_running := None, w_todo := butlast (w_todo (workers s ! i)),
               w_code := In_after (Task_cx t) P_yield\<rparr> else (workers s ! i)\<lparr>w_running := None,
               w_code := In_save (Task_cx t) (yield_point st) (Loop_cx i)\<rparr>"])
      (use assms(3,4) Nil sh in \<open>auto simp: go_def Let_def views next_running_def deferred_for_def yield_todo_def split: if_splits\<close>)
  next
    case (Cons u us)
    show ?thesis by (rule inv_step [OF assms(1,2)])
      (use assms(3,4) Cons sh in \<open>auto simp: go_def Let_def views next_running_def\<close>)
  qed
qed

lemma go_save:
  assumes "sw_inv s" "i < length (workers s)" "w_code (workers s ! i) = In_save c pt d" "go small i s = Inr s'"
  shows "sw_inv s'"
proof -
  have sh: "shape i (saved s (Loop_cx i)) (workers s ! i)" using assms by (simp add: sw_inv_def)
  show ?thesis
  proof (cases c)
    case (Loop_cx j)
    show ?thesis by (rule inv_step [OF assms(1,2)])
      (use assms(3,4) Loop_cx sh in \<open>auto simp: go_def Let_def views swap_save_def\<close>)
  next
    case (Task_cx t)
    then obtain st where st: "deferred_for st t (w_todo (workers s ! i))"
      using sh assms(3) by (auto simp: shape_def)
    show ?thesis
    proof (rule inv_step [OF assms(1,2)])
      fix RL RP
      assume *: "ctx_ok (saved s) (RL + live (workers s ! i))
          (RP + loadable (workers s ! i) + mset (awaited s) + mset (pooled s))"
      show "ctx_ok (saved s') (RL + live ((workers s ! i)\<lparr>w_code := In_load d\<rparr>))
          (RP + loadable ((workers s ! i)\<lparr>w_code := In_load d\<rparr>) + mset (awaited s') + mset (pooled s'))"
      proof (cases "w_todo (workers s ! i) = []")
        case True
        show ?thesis using * assms(3,4) Task_cx True
          by (auto simp: go_def Let_def views swap_save_def ac_simps intro: ctx_simped)
      next
        case False
        then obtain x where x: "w_todo (workers s ! i) = [x]" "todo_tasks [x] = [t]"
          using st by (auto simp: deferred_for_def yield_todo_def todo_tasks_def split: task_status.splits)
        show ?thesis
          using * assms(3,4) Task_cx x
          by (auto simp: go_def Let_def live_def loadable_def in_hand_def runs_def swap_save_def ac_simps intro: ctx_simped)
      qed
    qed (use assms(3,4) Task_cx sh in \<open>auto simp: go_def Let_def shape_def swap_save_def\<close>)
  qed
qed

lemma go_load:
  assumes "sw_inv s" "i < length (workers s)" "w_code (workers s ! i) = In_load d" "go small i s = Inr s'"
  shows "sw_inv s'"
proof -
  have sh: "shape i (saved s (Loop_cx i)) (workers s ! i)" using assms by (simp add: sw_inv_def)
  from assms(3,4) obtain pt where pt: "saved s d = Some pt"
    "s' = put_worker i ((workers s ! i)\<lparr>w_code := In_after d pt\<rparr>) (s\<lparr>saved := (saved s)(d := None)\<rparr>)"
    by (auto simp: go_def swap_load_def split: option.splits)
  show ?thesis
  proof (cases d)
    case (Loop_cx j)
    show ?thesis by (rule inv_step [OF assms(1,2)])
      (use assms(3) pt Loop_cx sh in \<open>auto simp: views\<close>)
  next
    case (Task_cx t)
    show ?thesis by (rule inv_step [OF assms(1,2)])
      (use assms(3) pt Task_cx sh in \<open>auto simp: views next_running_def ac_simps intro: ctx_simped\<close>)
  qed
qed

lemma load_ok:
  assumes "sw_inv s" "i < length (workers s)" "w_code (workers s ! i) = In_load d"
  shows "saved s d \<noteq> None"
proof (cases d)
  case (Loop_cx j)
  then show ?thesis using assms by (auto simp: sw_inv_def shape_def)
next
  case (Task_cx t)
  obtain RP where "all_loadable s = RP + loadable (workers s ! i) + mset (awaited s) + mset (pooled s)"
    using rest_of [OF assms(2)] by metis
  then have "t \<in># all_loadable s" using assms(3) Task_cx by (simp add: loadable_def in_hand_def)
  then show ?thesis using assms(1) Task_cx by (auto simp: sw_inv_def ctx_ok_def)
qed

lemma go_after:
  assumes "sw_inv s" "i < length (workers s)" "w_code (workers s ! i) = In_after d pt" "go small i s = Inr s'"
  shows "sw_inv s'"
proof -
  have sh: "shape i (saved s (Loop_cx i)) (workers s ! i)" using assms by (simp add: sw_inv_def)
  show ?thesis
  proof (cases "w_todo (workers s ! i)")
    case Nil
    obtain k where k: "resume_at d pt = Inr k" "s' = put_worker i ((workers s ! i)\<lparr>w_code := k\<rparr>) s"
      using assms(3,4) Nil by (auto simp: go_def bindE_eq_Inr)
    have "(\<exists>j. d = Loop_cx j \<and> k = In_loop) \<or> (\<exists>t. d = Task_cx t \<and> k = In_body t)"
      using k(1) by (cases "(d, pt)" rule: resume_at.cases) auto
    then show ?thesis by (intro inv_step [OF assms(1,2)])
      (use assms(3) k(2) Nil sh in \<open>auto simp: views\<close>)
  next
    case (Cons x xs)
    show ?thesis
    proof (cases x)
      case (Requeue t)
      show ?thesis by (rule inv_step [OF assms(1,2)])
        (use assms(3,4) Cons Requeue sh assms(2) in \<open>auto simp: go_def Let_def views ac_simps split: cx.splits\<close>)
    next
      case (Release_task t)
      show ?thesis
      proof (cases small)
        case True
        show ?thesis by (rule inv_step [OF assms(1,2)])
          (use assms(3,4) Cons Release_task sh True in \<open>auto simp: go_def Let_def views ac_simps split: cx.splits\<close>)
      next
        case False
        show ?thesis by (rule inv_step [OF assms(1,2)])
          (use assms(3,4) Cons Release_task sh False in
            \<open>auto simp: go_def Let_def views ac_simps split: cx.splits intro: ctx_simped\<close>)
      qed
    next
      case (Call t)
      show ?thesis by (rule inv_step [OF assms(1,2)])
        (use assms(3,4) Cons Call sh in \<open>auto simp: go_def Let_def views ac_simps split: cx.splits\<close>)
    qed
  qed
qed

lemma go_inv:
  assumes "sw_inv s" "i < length (workers s)" "go small i s = Inr s'"
  shows "sw_inv s'"
proof (cases "w_code (workers s ! i)")
  case In_loop
  then show ?thesis using assms by (blast intro: go_loop)
next
  case (In_body t)
  then show ?thesis using assms by (simp add: go_def)
next
  case (In_yield st t)
  then show ?thesis using assms by (blast intro: go_yield)
next
  case (In_save c pt d)
  then show ?thesis using assms by (blast intro: go_save)
next
  case (In_load d)
  then show ?thesis using assms by (blast intro: go_load)
next
  case (In_after d pt)
  then show ?thesis using assms by (blast intro: go_after)
qed

lemma go_trap: "sw_inv s \<Longrightarrow> i < length (workers s) \<Longrightarrow> go small i s \<noteq> Inl (Unsaved c)"
  using load_ok [of s i]
  by (auto simp: go_def Let_def swap_load_def bindE_def elim!: resume_at.elims
      split: code.splits list.splits option.splits sum.splits)

lemma leave_inv:
  assumes "sw_inv s" "i < length (workers s)" "leave_body i st todos s = Inr s'"
    and "\<And>t. deferred_for st t (todos t)"
  shows "sw_inv s'"
proof (cases "\<exists>t. w_code (workers s ! i) = In_body t")
  case True
  have sh: "shape i (saved s (Loop_cx i)) (workers s ! i)" using assms by (simp add: sw_inv_def)
  obtain t where t: "w_code (workers s ! i) = In_body t" using True by blast
  then obtain r where r: "w_running (workers s ! i) = Some r"
    using assms(3) by (cases "w_running (workers s ! i)") (simp_all add: leave_body_def Let_def)
  show ?thesis by (rule inv_step [OF assms(1,2)])
    (use assms(3,4) t r sh in \<open>auto simp: leave_body_def Let_def views\<close>)
next
  case False
  then have "s' = s" using assms(3) by (cases "w_code (workers s ! i)") (simp_all add: leave_body_def Let_def)
  with assms(1) show ?thesis by simp
qed

lemma enqueue_inv:
  assumes s: "sw_inv s" and j: "j < length (workers s)"
    and s': "workers s' = workers s" "\<And>k. saved s' (Loop_cx k) = saved s (Loop_cx k)"
    and c: "\<And>P. all_loadable s = P + mset (awaited s) + mset (pooled s) \<Longrightarrow>
       ctx_ok (saved s) (all_live s) (P + mset (awaited s) + mset (pooled s)) \<Longrightarrow>
       ctx_ok (saved s') (all_live s) (add_mset t (P + mset (awaited s') + mset (pooled s')))"
  shows "sw_inv (enqueue t j s')"
proof -
  let ?w = "(workers s ! j)\<lparr>w_queue := w_queue (workers s ! j) @ [t]\<rparr>"
  have w: "workers (enqueue t j s') = (workers s)[j := ?w]" by (simp add: enqueue_def s'(1))
  have f: "awaited (enqueue t j s') = awaited s'" "pooled (enqueue t j s') = pooled s'"
    by (simp_all add: enqueue_def)
  obtain RL RP where r: "all_live s = RL + live (workers s ! j)"
    "all_loadable s = RP + loadable (workers s ! j) + mset (awaited s) + mset (pooled s)"
    "all_live (enqueue t j s') = RL + live ?w"
    "all_loadable (enqueue t j s') = RP + loadable ?w + mset (awaited s') + mset (pooled s')"
    using rest_upd [OF j w] unfolding f by blast
  have sv: "saved (enqueue t j s') = saved s'" by (simp add: enqueue_def)
  have l: "live ?w = live (workers s ! j)" "loadable ?w = add_mset t (loadable (workers s ! j))"
    by (simp_all add: loadable_def)
  have "ctx_ok (saved s) (all_live s) ((RP + loadable (workers s ! j)) + mset (awaited s) + mset (pooled s))"
    using s by (simp add: sw_inv_def r(2))
  from c [OF r(2) this] have "ctx_ok (saved (enqueue t j s')) (all_live (enqueue t j s')) (all_loadable (enqueue t j s'))"
    by (simp add: r l sv)
  moreover have "shape k (saved (enqueue t j s') (Loop_cx k)) (workers (enqueue t j s') ! k)"
    if "k < length (workers s)" for k
    using s j s' that by (cases "k = j") (auto simp: sw_inv_def enqueue_def)
  ultimately show ?thesis using s'(1) by (simp add: sw_inv_def enqueue_def)
qed

lemma move_inv:
  assumes s: "sw_inv s" and ij: "i < length (workers s)" "j < length (workers s)" "i \<noteq> j"
    and s1: "s1 = put_worker i ((workers s ! i)\<lparr>w_queue := drop k (w_queue (workers s ! i))\<rparr>) s"
  shows "sw_inv (put_worker j ((workers s1 ! j)\<lparr>w_queue := w_queue (workers s1 ! j) @
    take k (w_queue (workers s ! i))\<rparr>) s1)" (is "sw_inv ?s")
proof -
  let ?q = "w_queue (workers s ! i)"
  have f: "workers s1 = (workers s)[i := (workers s ! i)\<lparr>w_queue := drop k ?q\<rparr>]"
    "awaited s1 = awaited s" "pooled s1 = pooled s" by (simp_all add: s1)
  obtain RL RP where r: "all_loadable s = RP + loadable (workers s ! i) + mset (awaited s) + mset (pooled s)"
    "all_live s = RL + live (workers s ! i)"
    "all_live s1 = RL + live ((workers s ! i)\<lparr>w_queue := drop k ?q\<rparr>)"
    "all_loadable s1 = RP + loadable ((workers s ! i)\<lparr>w_queue := drop k ?q\<rparr>) + mset (awaited s) + mset (pooled s)"
    using rest_upd [OF ij(1) f(1)] unfolding f(2,3) by blast
  have j1: "j < length (workers s1)" using ij s1 by simp
  let ?w = "(workers s1 ! j)\<lparr>w_queue := w_queue (workers s1 ! j) @ take k ?q\<rparr>"
  have f': "workers ?s = (workers s1)[j := ?w]" "awaited ?s = awaited s1" "pooled ?s = pooled s1" by simp_all
  obtain RL' RP' where r': "all_live s1 = RL' + live (workers s1 ! j)"
    "all_loadable s1 = RP' + loadable (workers s1 ! j) + mset (awaited s1) + mset (pooled s1)"
    "all_live ?s = RL' + live ?w" "all_loadable ?s = RP' + loadable ?w + mset (awaited s1) + mset (pooled s1)"
    using rest_upd [OF j1 f'(1)] unfolding f'(2,3) by blast
  have q: "mset ?q = mset (take k ?q) + mset (drop k ?q)" by (metis append_take_drop_id mset_append)
  have "all_loadable ?s = all_loadable s1 + mset (take k ?q)" by (simp add: r'(2,4) loadable_def ac_simps)
  also have "\<dots> = all_loadable s" by (simp add: r(1,4) loadable_def q ac_simps)
  finally have "all_loadable ?s = all_loadable s" .
  moreover have "all_live ?s = all_live s1" by (simp add: r'(1,3))
  moreover have "all_live s1 = all_live s" by (simp add: r(2,3))
  moreover have "saved ?s = saved s" using s1 by simp
  moreover have "shape x (saved s (Loop_cx x)) (workers ?s ! x)" if "x < length (workers s)" for x
    using s ij s1 that by (cases "x = j"; cases "x = i") (auto simp: sw_inv_def)
  ultimately show ?thesis using s s1 by (simp add: sw_inv_def)
qed

lemma runs_live: "t \<in># all_live s \<longleftrightarrow> t \<in> set (concat (map runs (workers s)))"
  unfolding all_live_def by (induction "workers s" arbitrary: s) (auto simp: live_def)

lemma sw_move_inv:
  assumes s: "sw_inv s" and "expected m s" "sw_move m s = Inr s'"
  shows "sw_inv s'"
proof (cases m)
  case (Go i small)
  then show ?thesis using assms go_inv [of s i small s'] by (auto simp: sw_move_def split: if_splits)
next
  case (Yield_at i st)
  then show ?thesis using assms leave_inv [of s i st "yield_todo st" s']
    by (auto simp: sw_move_def deferred_for_def split: if_splits)
next
  case (Call_at i)
  then show ?thesis using assms leave_inv [of s i Block "\<lambda>t. [Call t]" s']
    by (auto simp: sw_move_def deferred_for_def split: if_splits)
next
  case (Queued t j)
  show ?thesis
  proof (cases "j < length (workers s)")
    case True
    then have "sw_inv (enqueue t j (s\<lparr>awaited := remove1 t (awaited s)\<rparr>))"
    proof (cases "t \<in> set (awaited s)")
      case True
      then show ?thesis
        using \<open>j < length (workers s)\<close> by (intro enqueue_inv [OF s]) (auto simp: add.assoc)
    next
      case False
      then have t: "saved s (Task_cx t) \<noteq> None" "t \<notin># all_loadable s"
        using assms(2) Queued by (simp_all add: expected_def)
      show ?thesis
        by (rule enqueue_inv [OF s True]) (use t False in \<open>auto simp: remove1_idem intro!: ctx_queue\<close>)
    qed
    then show ?thesis using assms(3) Queued True by (simp add: sw_move_def)
  qed (use assms Queued in \<open>auto simp: sw_move_def\<close>)
next
  case (Reuse t j)
  show ?thesis
  proof (cases "j < length (workers s) \<and> t \<in> set (pooled s)")
    case True
    then have "sw_inv (enqueue t j (s\<lparr>pooled := remove1 t (pooled s)\<rparr>))"
      by (intro enqueue_inv [OF s]) (auto simp: add.assoc)
    then show ?thesis using assms(3) Reuse True by (simp add: sw_move_def)
  qed (use assms Reuse in \<open>auto simp: sw_move_def\<close>)
next
  case (New_task t j)
  show ?thesis
  proof (cases "j < length (workers s) \<and> saved s (Task_cx t) = None \<and> t \<notin> set (concat (map runs (workers s)))")
    case True
    then have "sw_inv (enqueue t j (s\<lparr>saved := (saved s)(Task_cx t \<mapsto> P_func)\<rparr>))"
      by (intro enqueue_inv [OF s]) (auto simp: runs_live intro: ctx_simped)
    then show ?thesis using assms(3) New_task True by (simp add: sw_move_def)
  next
    case False
    then have "s' = s" using assms(3) by (simp only: New_task sw_move_def Let_def move.simps if_False sum.inject)
    with s show ?thesis by simp
  qed
next
  case (Move_n i j k)
  then show ?thesis using assms move_inv [of s i j _ k] by (auto simp: sw_move_def Let_def split: if_splits)
qed

lemma sw_move_trap: "sw_inv s \<Longrightarrow> sw_move m s \<noteq> Inl (Unsaved c)"
  using go_trap by (auto simp: sw_move_def Let_def leave_body_def split: move.splits code.splits option.splits)

lemma cpus_new_inv: "sw_inv (cpus_new n)"
proof -
  have z: "sum_list (replicate n {#}) = ({#} :: tptr multiset)" by (induction n) simp_all
  show ?thesis
    by (simp add: sw_inv_def cpus_new_def views all_live_def all_loadable_def map_replicate_const z ctx_ok_def)
qed

lemma sw_run_inv:
  assumes "sw_inv s" "all_expected ms s"
  shows "case sw_run ms s of Inl e \<Rightarrow> \<forall>c. e \<noteq> Unsaved c | Inr s' \<Rightarrow> sw_inv s'"
  using assms
proof (induction ms arbitrary: s)
  case Nil
  then show ?case by (simp add: sw_run_def)
next
  case (Cons m ms)
  show ?case
  proof (cases "sw_move m s")
    case (Inl e)
    then show ?thesis using sw_move_trap [OF Cons.prems(1), of m] by (auto simp: sw_run_def)
  next
    case (Inr s')
    then have "sw_inv s'" "all_expected ms s'" using sw_move_inv [OF Cons.prems(1) _ Inr] Cons.prems(2) by simp_all
    from Cons.IH [OF this] Inr show ?thesis by (simp add: sw_run_def)
  qed
qed

text \<open>Threads that execute the same task are the same thread.\<close>

lemma one_thread:
  assumes "sw_inv s" "i < length (workers s)" "j < length (workers s)"
    and "t \<in> set (runs (workers s ! i))" "t \<in> set (runs (workers s ! j))"
  shows "i = j"
proof (rule ccontr)
  assume ne: "i \<noteq> j"
  let ?w = "(workers s ! i)\<lparr>w_code := In_loop\<rparr>"
  have f: "workers (put_worker i ?w s) = (workers s)[i := ?w]" by simp
  obtain RL where r: "all_live s = RL + live (workers s ! i)" "all_live (put_worker i ?w s) = RL + live ?w"
    using rest_of [OF assms(2)] f by metis
  obtain RL' where "all_live (put_worker i ?w s) = RL' + live (workers (put_worker i ?w s) ! j)"
    using rest_of [of j "put_worker i ?w s"] assms(3) f by (metis length_list_update)
  then have "RL = RL' + live (workers s ! j)" using r(2) ne by (simp add: live_def runs_def)
  moreover have "t \<in># live (workers s ! i)" "t \<in># live (workers s ! j)"
    using assms(4,5) by (simp_all add: live_def)
  moreover have "count (all_live s) t + count (all_loadable s) t \<le> 1" using assms(1) by (simp add: sw_inv_def ctx_ok_def)
  ultimately show False using r(1) by (simp flip: count_greater_zero_iff)
qed

lemma loadable_saved:
  assumes "sw_inv s" "t \<in> set (w_queue (workers s ! i)) \<or> t \<in> set (awaited s)" "i < length (workers s)"
  shows "saved s (Task_cx t) \<noteq> None"
proof -
  obtain RP where "all_loadable s = RP + loadable (workers s ! i) + mset (awaited s) + mset (pooled s)"
    using rest_of [OF assms(3)] by metis
  with assms(2) have "t \<in># all_loadable s" by (auto simp: loadable_def)
  then show ?thesis using assms(1) by (auto simp: sw_inv_def ctx_ok_def)
qed

section \<open>One thread alone\<close>

text \<open>A thread and its processer as \<open>Processer\<close> has them, between two steps of the source.\<close>

definition mirrors :: "worker \<Rightarrow> ('f, tptr, 'z) proc_scheme \<Rightarrow> bool" where
  "mirrors w p \<longleftrightarrow> w_queue w = queue p \<and> w_running w = runningTask p \<and> w_todo w = LastScheToDos p \<and>
     w_code w = (case cur p of Main \<Rightarrow> In_loop | Coroutine t \<Rightarrow> In_body t)"

text \<open>A task that will go on in its body when it is loaded.\<close>

definition resumable :: "cpus \<Rightarrow> tptr \<Rightarrow> bool" where
  "resumable s u \<longleftrightarrow> saved s (Task_cx u) = Some P_func \<or> saved s (Task_cx u) = Some P_yield"

definition after_yield :: "nat \<Rightarrow> task_status \<Rightarrow> tptr \<Rightarrow> tptr list \<Rightarrow> worker" where
  "after_yield i st t q = (case q of
       [] \<Rightarrow> \<lparr>w_code = (if st = Runnable then In_body t else In_loop), w_running = None,
              w_queue = [], w_todo = []\<rparr>
     | u # us \<Rightarrow> \<lparr>w_code = In_body u, w_running = Some u,
              w_queue = us @ (if st = Runnable then [t] else []), w_todo = []\<rparr>)"

lemma sw_run_simps [simp]:
  "sw_run [] s = Inr s" "sw_run (m # ms) s = bindE (sw_move m s) (sw_run ms)"
  by (auto simp: sw_run_def bindE_def split: sum.splits)

lemmas go_simps = Let_def sw_move_def go_def leave_body_def yield_todo_def yield_point_def swap_save_def swap_load_def

lemma solo_yield:
  assumes i: "i < length (workers s)" and w: "workers s ! i = \<lparr>w_code = In_body t, w_running = Some t,
      w_queue = q, w_todo = []\<rparr>"
    and sv: "saved s (Loop_cx i) = Some pt" "\<forall>u \<in> set q. resumable s u \<and> u \<noteq> t"
  shows "\<exists>s'. sw_run (Yield_at i st # replicate 5 (Go i small)) s = Inr s' \<and>
    workers s' ! i = after_yield i st t q"
proof (cases q)
  case Nil
  show ?thesis using i w sv Nil
    by (cases st; cases small) (simp_all add: numeral_eq_Suc go_simps after_yield_def)
next
  case (Cons u us)
  with sv have u: "saved s (Task_cx u) = Some P_func \<or> saved s (Task_cx u) = Some P_yield" "u \<noteq> t"
    by (auto simp: resumable_def)
  show ?thesis using i w sv(1) u Cons
    by (cases st; cases small) (auto simp: numeral_eq_Suc go_simps after_yield_def)
qed

section \<open>Properties\<close>

text \<open>C9: with every wake-up expected, a coroutine is never resumed from registers that are not saved,
  and never runs on two threads. Whatever any number of threads do in whatever order - rounds of the
  loop, yields, blocking calls, ends of tasks, stealing, new and recycled tasks, and wake-ups by anybody -
  as long as each wake-up is of a task that a deferred closure has handed over and that nobody has queued
  since, or of a suspended one that nobody else can load (\<open>expected\<close>), every context that a thread loads
  has been saved, each coroutine executes on one thread at most, and the contexts of all queued and
  awaited tasks are saved. The channel, which announces the running task before it suspends, and a
  timed-out call, which is woken twice (\<open>timed_out_task_queued_twice\<close>), break the condition, and
  \<open>unexpected_wakeup_tears\<close> says what follows. \<open>Yield\<close> and \<open>Release\<close> are the repaired ones.\<close>

theorem switches_are_safe:
  assumes "all_expected ms (cpus_new n)"
  shows "case sw_run ms (cpus_new n) of
    Inl e \<Rightarrow> \<forall>c. e \<noteq> Unsaved c
  | Inr s \<Rightarrow> (\<forall>i < length (workers s). \<forall>j < length (workers s). \<forall>t.
        t \<in> set (runs (workers s ! i)) \<and> t \<in> set (runs (workers s ! j)) \<longrightarrow> i = j) \<and>
      (\<forall>i < length (workers s). \<forall>t \<in> set (w_queue (workers s ! i)) \<union> set (awaited s).
        saved s (Task_cx t) \<noteq> None)"
  using sw_run_inv [OF cpus_new_inv assms]
  by (auto split: sum.splits dest: one_thread loadable_saved)

text \<open>Task 1 blocks on thread 0 and is stolen, woken and resumed on thread 1.\<close>

definition steal_moves :: "move list" where
  "steal_moves = [New_task 1 0, Go 0 True, Go 0 True, Go 0 True, Go 0 True, Call_at 0, Go 0 True, Go 0 True,
     Go 0 True, Go 0 True, Queued 1 0, Move_n 0 1 1, Go 1 True, Go 1 True, Go 1 True, Go 0 True, Go 1 True]"

theorem switches_are_safe_witness:
  "\<exists>s. sw_run steal_moves (cpus_new 2) = Inr s \<and> runs (workers s ! 1) = [1] \<and>
    1 \<notin> set (runs (workers s ! 0)) \<and> length (workers s) = 2"
proof -
  have "case sw_run steal_moves (cpus_new 2) of Inl e \<Rightarrow> False
      | Inr s \<Rightarrow> runs (workers s ! 1) = [1] \<and> length (workers s) = 2" by code_simp
  then obtain s where s: "sw_run steal_moves (cpus_new 2) = Inr s" "runs (workers s ! 1) = [1]"
    "length (workers s) = 2" by (auto split: sum.splits)
  have "all_expected steal_moves (cpus_new 2)" by code_simp
  from switches_are_safe [OF this] s(1)
  have u: "\<forall>i < length (workers s). \<forall>j < length (workers s). \<forall>t.
      t \<in> set (runs (workers s ! i)) \<and> t \<in> set (runs (workers s ! j)) \<longrightarrow> i = j" by simp
  have "1 \<notin> set (runs (workers s ! 0))"
    using u [rule_format, of 0 1 1] s(2,3) by auto
  with s show ?thesis by blast
qed

text \<open>An unexpected wake-up tears a coroutine. While thread \<open>i\<close> executes task \<open>t\<close>, whatever else is
  going on, somebody queues \<open>t\<close> on another thread without work - a sender that has found the task in
  \<open>recvQueue_\<close>, where the channel puts it before it suspends (\<open>co_chan.hpp\<close> lines 89 and 130, with a mutex
  that excludes nobody), or the second completion of a timed-out call. Three steps later that thread
  loads a context that is not saved.\<close>

theorem unexpected_wakeup_tears:
  assumes "sw_inv s" "i < length (workers s)" "j < length (workers s)" "i \<noteq> j"
    and "t \<in> set (runs (workers s ! i))" "w_code (workers s ! j) = In_loop" "w_queue (workers s ! j) = []"
  shows "\<exists>s'. sw_run [Queued t j, Go j small, Go j small] s = Inr s' \<and> t \<in> set (runs (workers s' ! i)) \<and>
    sw_move (Go j small) s' = Inl (Unsaved (Task_cx t))"
proof -
  have "t \<in># all_live s" using assms(2,5) by (auto simp: runs_live)
  then have "saved s (Task_cx t) = None" using assms(1) by (simp add: sw_inv_def ctx_ok_def)
  with assms(2-) show ?thesis by (simp add: go_simps enqueue_def)
qed

text \<open>C10: the repaired \<open>Yield\<close> in steps is the repaired \<open>Yield\<close> at once (\<open>Yield_cur\<close>, which reads the status
  from the yielding task; as written the read faults, \<open>yield_null_deref\<close>). For each status of the yielding task and whether or not the
  run queue is empty, the thread that saves, loads and runs the deferred closures step by step arrives
  where \<open>Yield_cur\<close> of the processer's model arrives: the same queue, the same running task, nothing
  deferred, and the same coroutine or the loop in control.\<close>

theorem switch_refines_yield:
  assumes m: "i < length (workers s)" "mirrors (workers s ! i) p" "saved s (Loop_cx i) = Some pt"
    "\<forall>u \<in> set (queue p). resumable s u \<and> u \<noteq> t"
    and p: "cur p = Coroutine t" "runningTask p = Some t" "\<not> stop p" "LastScheToDos p = []"
    "lfq_invar (runnableQueue p)" "length (queue p) < lfq_room"
    and t: "store (taskPool p) t = Some tk" "c_release cs t (taskPool p) = Inr pool"
  shows "\<exists>p' s'. Yield_cur cs p = Inr p' \<and>
    sw_run (Yield_at i (status tk) # replicate 5 (Go i small)) s = Inr s' \<and> mirrors (workers s' ! i) p'"
proof -
  let ?p = "p\<lparr>runningTask := None\<rparr>"
  have y: "Yield_cur cs p = Yield_body cs (status tk) t ?p" by (rule Yield_cur_running [OF p(2) t(1)])
  have "\<exists>p'. Yield_body cs (status tk) t ?p = Inr p' \<and> mirrors (after_yield i (status tk) t (queue p)) p'"
  proof (cases "status tk")
    case Runnable
    show ?thesis
    proof (cases "queue p")
      case Nil
      with Yield_runnable_alone [of ?p t tk cs] p t Runnable show ?thesis
        by (auto simp: mirrors_def after_yield_def)
    next
      case (Cons u us)
      with Yield_runnable_switch [of ?p u us cs t] p t Runnable show ?thesis
        by (auto simp: mirrors_def after_yield_def)
    qed
  next
    case Block
    with Yield_block [of ?p t tk cs] p t show ?thesis
      by (cases "queue p") (auto simp: mirrors_def after_yield_def next_running_def next_ctl_def)
  next
    case Done
    with Yield_done [of ?p t tk cs pool] p t show ?thesis
      by (cases "queue p") (auto simp: mirrors_def after_yield_def next_running_def next_ctl_def)
  qed
  moreover have "workers s ! i = \<lparr>w_code = In_body t, w_running = Some t, w_queue = queue p, w_todo = []\<rparr>"
    using m(2) p by (cases "workers s ! i") (simp add: mirrors_def)
  ultimately show ?thesis using solo_yield [OF m(1) _ m(3,4), where small = small and st = "status tk"] y by metis
qed

definition sample_thread :: "(nat, tptr) proc" where
  "sample_thread = \<lparr>stop = False, runningTask = Some 10, runnableQueue = lfq_of [11],
     LastScheToDos = [], proc_id = 0, proc_status = Running,
     taskPool = sample_pool [] 0 100 (\<lambda>_. Runnable), cur = Coroutine 10\<rparr>"

definition sample_cpus :: cpus where
  "sample_cpus = \<lparr>workers = [\<lparr>w_code = In_body 10, w_running = Some 10, w_queue = [11], w_todo = []\<rparr>],
     saved = [Loop_cx 0 \<mapsto> P_loop, Task_cx 11 \<mapsto> P_func], awaited = [], pooled = []\<rparr>"

theorem switch_refines_yield_witness:
  "\<exists>p' s'. Yield_cur (checked_calls (\<lambda>_. True)) sample_thread = Inr p' \<and>
    sw_run (Yield_at 0 Runnable # replicate 5 (Go 0 True)) sample_cpus = Inr s' \<and>
    mirrors (workers s' ! 0) p'"
proof -
  let ?pl = "sample_pool [] 0 100 (\<lambda>_. Runnable)"
  have "pool_inv ?pl" "10 \<notin> set (idle ?pl)" "store ?pl 10 \<noteq> None" "length (idle ?pl) < lfq_room"
    by (simp_all add: sample_pool_inv lfq_room_def)
  from Release_checked_inv [OF this, of True] obtain pl where
    "c_release (checked_calls (\<lambda>_. True) :: (nat, tptr, unit) calls) 10 (taskPool sample_thread) = Inr pl"
    by (auto simp: checked_calls_def sample_thread_def)
  from switch_refines_yield [OF _ _ _ _ _ _ _ _ _ _ _ this, of 0 sample_cpus P_loop
      "sample_task Runnable" True]
  show ?thesis
    by (simp add: sample_thread_def sample_cpus_def mirrors_def resumable_def lfq_room_def
        sample_pool_inv sample_task_def)
qed

end
