(* ===== verification/Async_Io.thy ===== *)
theory Async_Io
  imports Scheduler Fd_Hook
begin

text \<open>
  A blocking call of a coroutine from end to end: the hook (\<open>hook/hook.cpp\<close>, \<open>IOSubmit\<close>) leaves a
  closure on its processer's deferred list and suspends the coroutine; after the switch the
  closure hands the request to the scheduler's queue; the submit thread takes it and prepares the
  entry; the wait thread puts the task back on a run queue when the completion arrives.

  \<open>hooked\<close> has one constructor per intercepted call that submits, with the arguments its lambda
  captures; \<open>run_hooked\<close> is the body of that lambda. \<open>runtime\<close> is the scheduler together with
  the pool of tasks and the descriptor table, \<open>thread\<close> a processer whose \<open>scheduler_\<close> is at
  hand; \<open>on_thread\<close> runs code on the thread of one processer of a runtime. The \<open>taskPool_\<close> of the
  scheduler and of its processers are one shared object: \<open>sharedPool\<close> is that object, which a
  processer has as its \<open>taskPool\<close> while its thread runs.
\<close>

section \<open>State\<close>

datatype hooked =
    H_connect i32 u64 u32
  | H_accept4 i32 u64 u64 i32
  | H_read i32 u64 u64
  | H_write i32 u64 u64
  | H_recv i32 u64 u64 i32
  | H_send i32 u64 u64 i32
  | H_recvmsg i32 u64 i32
  | H_sendmsg i32 u64 i32

text \<open>The lambda of a call: what it does, the object \<open>fdPtr\<close> and the result it refers to.\<close>

record io_call =
  io_fun :: hooked
  io_fdPtr :: nat
  io_res :: ref

record 'f runtime = "('f, io_call) sched" +
  sharedPool :: "'f pool"
  hks :: hooks

record 'f thread = "('f, io_call) proc" +
  getScheduler :: "'f runtime"

type_synonym 'f thread_calls = "('f, io_call, ('f, unit) thread_ext) calls"

definition enter :: "nat \<Rightarrow> 'f runtime \<Rightarrow> 'f thread" where
  "enter i s = proc.extend ((processers s ! i)\<lparr>taskPool := sharedPool s\<rparr>) (thread.fields s)"

definition leave :: "nat \<Rightarrow> 'f thread \<Rightarrow> 'f runtime" where
  "leave i p = (getScheduler p)\<lparr>processers := (processers (getScheduler p))[i := proc.truncate p],
     sharedPool := taskPool p\<rparr>"

definition on_thread ::
  "nat \<Rightarrow> ('f thread \<Rightarrow> fault + ('b \<times> 'f thread)) \<Rightarrow> 'f runtime \<Rightarrow> fault + ('b \<times> 'f runtime)" where
  "on_thread i g s = bindE (g (enter i s)) (\<lambda>(b, p). Inr (b, leave i p))"

section \<open>The lambdas\<close>

primrec fd_of :: "hooked \<Rightarrow> i32" where
  "fd_of (H_connect fd addr len) = fd"
| "fd_of (H_accept4 fd addr lenp flags) = fd"
| "fd_of (H_read fd buf n) = fd"
| "fd_of (H_write fd buf n) = fd"
| "fd_of (H_recv fd buf len flags) = fd"
| "fd_of (H_send fd buf len flags) = fd"
| "fd_of (H_recvmsg fd msg flags) = fd"
| "fd_of (H_sendmsg fd msg flags) = fd"

definition done_with :: "hooks \<Rightarrow> fault + (bool \<times> engine) \<Rightarrow> fault + (engine \<times> hooks)" where
  "done_with h r = bindE r (\<lambda>(b, e). Inr (e, h))"

text \<open>\<open>read\<close> and \<open>write\<close> of a file advance the offset by what \<open>res.ret\<close> holds when the request
  has been submitted. No lambda looks at the answer of the engine.\<close>

primrec run_hooked ::
  "bool \<Rightarrow> bool \<Rightarrow> nat \<Rightarrow> ref \<Rightarrow> hooked \<Rightarrow> engine \<Rightarrow> hooks \<Rightarrow> fault + (engine \<times> hooks)" where
  "run_hooked f1 f2 q r (H_connect fd addr len) e h =
     done_with h (Connect f1 f2 fd addr len r no_timeout e)"
| "run_hooked f1 f2 q r (H_accept4 fd addr lenp flags) e h =
     done_with h (Accept f1 f2 fd addr lenp flags r no_timeout e)"
| "run_hooked f1 f2 q r (H_read fd buf n) e h =
     bindE (get_desc q h) (\<lambda>d. case fdType d of
       tOther \<Rightarrow> bindE (Read f1 f2 fd buf n (offset d) r no_timeout e) (\<lambda>(b, e').
         Inr (e', put_desc q (advance (ret (results e' r)) d) h))
     | tSocket \<Rightarrow> done_with h
         (Recv f1 f2 fd buf n 0 r (split_timeout (GetSocketTimeout SO_RCVTIMEO d)) e))"
| "run_hooked f1 f2 q r (H_write fd buf n) e h =
     bindE (get_desc q h) (\<lambda>d. case fdType d of
       tOther \<Rightarrow> bindE (Write f1 f2 fd buf n (offset d) r no_timeout e) (\<lambda>(b, e').
         Inr (e', put_desc q (advance (ret (results e' r)) d) h))
     | tSocket \<Rightarrow> done_with h
         (Send f1 f2 fd buf n 0 r (split_timeout (GetSocketTimeout SO_SNDTIMEO d)) e))"
| "run_hooked f1 f2 q r (H_recv fd buf len flags) e h =
     bindE (get_desc q h) (\<lambda>d. done_with h
       (Recv f1 f2 fd buf len flags r (split_timeout (GetSocketTimeout SO_RCVTIMEO d)) e))"
| "run_hooked f1 f2 q r (H_send fd buf len flags) e h =
     bindE (get_desc q h) (\<lambda>d. done_with h
       (Send f1 f2 fd buf len flags r (split_timeout (GetSocketTimeout SO_SNDTIMEO d)) e))"
| "run_hooked f1 f2 q r (H_recvmsg fd msg flags) e h =
     bindE (get_desc q h) (\<lambda>d. done_with h
       (Recvmsg f1 f2 fd msg flags r (split_timeout (GetSocketTimeout SO_RCVTIMEO d)) e))"
| "run_hooked f1 f2 q r (H_sendmsg fd msg flags) e h =
     bindE (get_desc q h) (\<lambda>d. done_with h
       (Sendmsg f1 f2 fd msg flags r (split_timeout (GetSocketTimeout SO_SNDTIMEO d)) e))"

text \<open>\<open>(*ioFuncPtr)(ioEngine_)\<close> on the submit thread.\<close>

definition run_io :: "bool \<Rightarrow> bool \<Rightarrow> io_call \<Rightarrow> 'f runtime \<Rightarrow> fault + 'f runtime" where
  "run_io f1 f2 c s =
     bindE (run_hooked f1 f2 (io_fdPtr c) (io_res c) (io_fun c) (ioEngine s) (hks s)) (\<lambda>(e, h).
       Inr (s\<lparr>ioEngine := e, hks := h\<rparr>))"

section \<open>The call\<close>

text \<open>
  The calls a processer makes outside itself: the pool's \<open>Release\<close>, and the closure that
  \<open>IOSubmit\<close> leaves, which hands the lambda to the scheduler.
\<close>

definition io_calls :: "(tptr \<Rightarrow> bool) \<Rightarrow> 'f thread_calls" where
  "io_calls small = \<lparr>c_release = (\<lambda>t. Release_checked (small t) t),
     c_call = (\<lambda>c p. bindE (sched_IOSubmit c (getScheduler p)) (\<lambda>s. Inr (p\<lparr>getScheduler := s\<rparr>)))\<rparr>"

definition task_ptr :: "tptr option \<Rightarrow> i64" where
  "task_ptr t = (case t of None \<Rightarrow> 0 | Some a \<Rightarrow> of_nat a)"

definition set_user_data :: "ref \<Rightarrow> i64 \<Rightarrow> engine \<Rightarrow> engine" where
  "set_user_data r v e = e\<lparr>results := (results e)(r := (results e r)\<lparr>user_data := v\<rparr>)\<rparr>"

definition on_engine :: "(engine \<Rightarrow> engine) \<Rightarrow> 'f thread \<Rightarrow> 'f thread" where
  "on_engine g p = p\<lparr>getScheduler := (getScheduler p)\<lparr>ioEngine := g (ioEngine (getScheduler p))\<rparr>\<rparr>"

text \<open>\<open>IOSubmit\<close> up to the point where the coroutine is suspended; what it does when it runs again
  is \<open>IOSubmit_result\<close>. The answer false means that there is no processer.\<close>

definition IOSubmit :: "(tptr \<Rightarrow> bool) \<Rightarrow> io_call \<Rightarrow> 'f thread option \<Rightarrow> fault + (bool \<times> 'f thread option)" where
  "IOSubmit small func proc =
     (case proc of
        None \<Rightarrow> Inr (False, None)
      | Some p \<Rightarrow>
          let p1 = on_engine (set_user_data (io_res func) (task_ptr (runningTask p))) p
          in bindE (SuspendTask (Yield_cur (io_calls small)) (Some (AddToDo func p1))) (\<lambda>p2.
               Inr (True, p2)))"

text \<open>The decision of each call: the routes of Fd_Hook, for a caller on a processer.\<close>

primrec route_of :: "hooked \<Rightarrow> hooks \<Rightarrow> fault + route" where
  "route_of (H_connect fd addr len) h = hook_connect True fd addr len h"
| "route_of (H_accept4 fd addr lenp flags) h = hook_accept4 True fd addr lenp flags h"
| "route_of (H_read fd buf n) h = bindE (hook_read True 0 fd buf n h) (\<lambda>(r, _). Inr r)"
| "route_of (H_write fd buf n) h = bindE (hook_write True 0 fd buf n h) (\<lambda>(r, _). Inr r)"
| "route_of (H_recv fd buf len flags) h = hook_recv True fd buf len flags h"
| "route_of (H_send fd buf len flags) h = hook_send True fd buf len flags h"
| "route_of (H_recvmsg fd msg flags) h = hook_recvmsg True fd msg flags h"
| "route_of (H_sendmsg fd msg flags) h = hook_sendmsg True fd msg flags h"

text \<open>An intercepted call on a coroutine, up to the original call or the suspension.\<close>

definition co_call :: "(tptr \<Rightarrow> bool) \<Rightarrow> ref \<Rightarrow> hooked \<Rightarrow> 'f thread \<Rightarrow> fault + (bool \<times> 'f thread)" where
  "co_call small res f p =
     bindE (route_of f (hks (getScheduler p))) (\<lambda>route. case route of
       Direct \<Rightarrow> Inr (False, p)
     | Async _ _ \<Rightarrow> bindE (get_fd (fd_of f) (hks (getScheduler p))) (\<lambda>fdPtr.
         case fdPtr of
           None \<Rightarrow> Inl Null_deref
         | Some q \<Rightarrow> bindE (IOSubmit small \<lparr>io_fun = f, io_fdPtr = q, io_res = res\<rparr> (Some p))
             (\<lambda>(b, p'). case p' of None \<Rightarrow> Inl Null_deref | Some p2 \<Rightarrow> Inr (b, p2))))"

section \<open>Lemmas\<close>

text \<open>Where the rest of a runtime goes while a thread runs.\<close>

lemma enter_sel [simp]:
  "stop (enter i s) = stop (processers s ! i)"
  "runningTask (enter i s) = runningTask (processers s ! i)"
  "runnableQueue (enter i s) = runnableQueue (processers s ! i)"
  "LastScheToDos (enter i s) = LastScheToDos (processers s ! i)"
  "taskPool (enter i s) = sharedPool s"
  "cur (enter i s) = cur (processers s ! i)"
  "getScheduler (enter i s) = s"
  by (simp_all add: enter_def proc.extend_def thread.fields_def)

lemma truncate_sel [simp]:
  "runnableQueue (proc.truncate p) = runnableQueue p" "taskPool (proc.truncate p) = taskPool p"
  "runningTask (proc.truncate p) = runningTask p" "cur (proc.truncate p) = cur p"
  "stop (proc.truncate p) = stop p" "LastScheToDos (proc.truncate p) = LastScheToDos p"
  by (simp_all add: proc.truncate_def)

lemma sched_IOSubmit_ok:
  assumes "lfq_invar (ioQueue s)" "length (lfq_contents (ioQueue s)) < lfq_room"
  shows "\<exists>q. sched_IOSubmit f s = Inr (s\<lparr>ioQueue := q, ioWait := False\<rparr>) \<and> lfq_invar q \<and>
    lfq_contents q = lfq_contents (ioQueue s) @ [f]"
proof -
  from lfq.push_law [OF assms, of f] obtain q where
    "lfq_push f (ioQueue s) = Inr q" "lfq_invar q" "lfq_contents q = lfq_contents (ioQueue s) @ [f]"
    by blast
  then show ?thesis
    by (intro exI [of _ q]) (cases s, simp add: sched_IOSubmit_def WakeUpIOSubmit_def Let_def)
qed

text \<open>
  The thread after the running task \<open>t\<close> has suspended itself in \<open>IOSubmit\<close>: the next task runs,
  or the loop, and the scheduler has the request. \<open>q\<close> and \<open>qi\<close> are the queues left.
\<close>

definition suspended ::
  "tptr \<Rightarrow> 'f task \<Rightarrow> ref \<Rightarrow> tptr lfq \<Rightarrow> io_call lfq \<Rightarrow> 'f thread \<Rightarrow> 'f thread" where
  "suspended t tk r q qi p = p\<lparr>taskPool := put_task t (tk\<lparr>status := Block\<rparr>) (taskPool p),
     runnableQueue := q, runningTask := next_running (queue p), cur := next_ctl (queue p),
     getScheduler := (getScheduler p)\<lparr>ioWait := False, ioQueue := qi,
       ioEngine := set_user_data r (of_nat t) (ioEngine (getScheduler p))\<rparr>\<rparr>"

lemma Yield_block_todo:
  assumes p: "lfq_invar (runnableQueue p)" "\<not> stop p" "LastScheToDos p = [Call c]"
    and t: "store (taskPool p) t = Some tk" "status tk = Block"
    and s: "lfq_invar (ioQueue (getScheduler p))"
      "length (lfq_contents (ioQueue (getScheduler p))) < lfq_room"
  shows "\<exists>q qi. Yield_body (io_calls small) Block t p = Inr (p\<lparr>LastScheToDos := [],
      runnableQueue := q, runningTask := next_running (queue p), cur := next_ctl (queue p),
      getScheduler := (getScheduler p)\<lparr>ioQueue := qi, ioWait := False\<rparr>\<rparr>) \<and>
    lfq_invar q \<and> lfq_contents q = tl (queue p) \<and>
    lfq_invar qi \<and> lfq_contents qi = lfq_contents (ioQueue (getScheduler p)) @ [c]"
proof -
  from sched_IOSubmit_ok [OF s, of c] obtain qi where
    qi: "sched_IOSubmit c (getScheduler p) = Inr ((getScheduler p)\<lparr>ioQueue := qi, ioWait := False\<rparr>)"
    "lfq_invar qi" "lfq_contents qi = lfq_contents (ioQueue (getScheduler p)) @ [c]" by blast
  show ?thesis
  proof (cases "queue p")
    case Nil
    with p t pop_runnable_Nil [of p] qi show ?thesis
      by (cases p) (auto simp: Yield_body_def Yield_todos_def Swap_to_def AfterLastSche_def Let_def
          get_task_def next_running_def next_ctl_def io_calls_def)
  next
    case (Cons u us)
    with p t pop_runnable_Cons [of p u us] qi show ?thesis
      by (cases p) (auto simp: Yield_body_def Yield_todos_def Swap_to_def AfterLastSche_def Let_def
          get_task_def next_running_def next_ctl_def io_calls_def)
  qed
qed

lemma IOSubmit_suspends:
  assumes "in_coroutine p" "runningTask p = Some t" "store (taskPool p) t = Some tk"
    and "lfq_invar (ioQueue (getScheduler p))"
      "length (lfq_contents (ioQueue (getScheduler p))) < lfq_room"
  shows "\<exists>q qi. IOSubmit small c (Some p) = Inr (True, Some (suspended t tk (io_res c) q qi p)) \<and>
    lfq_invar q \<and> lfq_contents q = tl (queue p) \<and>
    lfq_invar qi \<and> lfq_contents qi = lfq_contents (ioQueue (getScheduler p)) @ [c]"
proof -
  let ?b = "tk\<lparr>status := Block\<rparr>"
  let ?e = "set_user_data (io_res c) (of_nat t) (ioEngine (getScheduler p))"
  let ?p = "p\<lparr>LastScheToDos := [Call c], taskPool := put_task t ?b (taskPool p),
    getScheduler := (getScheduler p)\<lparr>ioEngine := ?e\<rparr>\<rparr>"
  let ?p1 = "?p\<lparr>runningTask := None\<rparr>"
  have c: "lfq_invar (runnableQueue p)" "\<not> stop p" "LastScheToDos p = []"
    using assms(1) by (auto simp: in_coroutine_def)
  have st: "store (put_task t ?b (taskPool p)) t = Some ?b" by (simp add: put_task_def)
  have y: "Yield_cur (io_calls small) ?p = Yield_body (io_calls small) Block t ?p1"
    using Yield_cur_running [of ?p t ?b "io_calls small"] assms(2) st by simp
  have "\<exists>q qi. Yield_body (io_calls small) Block t ?p1 = Inr (?p1\<lparr>LastScheToDos := [],
      runnableQueue := q, runningTask := next_running (queue ?p1), cur := next_ctl (queue ?p1),
      getScheduler := (getScheduler ?p1)\<lparr>ioQueue := qi, ioWait := False\<rparr>\<rparr>) \<and>
    lfq_invar q \<and> lfq_contents q = tl (queue ?p1) \<and>
    lfq_invar qi \<and> lfq_contents qi = lfq_contents (ioQueue (getScheduler ?p1)) @ [c]"
    by (rule Yield_block_todo) (use assms c st in auto)
  then obtain q qi where q: "Yield_body (io_calls small) Block t ?p1 = Inr (?p1\<lparr>LastScheToDos := [],
      runnableQueue := q, runningTask := next_running (queue p), cur := next_ctl (queue p),
      getScheduler := (getScheduler ?p1)\<lparr>ioQueue := qi, ioWait := False\<rparr>\<rparr>)"
    "lfq_invar q" "lfq_contents q = tl (queue p)"
    "lfq_invar qi" "lfq_contents qi = lfq_contents (ioQueue (getScheduler p)) @ [c]" by auto
  have "AddToDo c (on_engine (set_user_data (io_res c) (task_ptr (runningTask p))) p) =
      p\<lparr>LastScheToDos := [Call c], getScheduler := (getScheduler p)\<lparr>ioEngine := ?e\<rparr>\<rparr>"
    using c assms(2) by (cases p) (simp add: AddToDo_def on_engine_def task_ptr_def)
  then have "IOSubmit small c (Some p) =
      bindE (Yield_body (io_calls small) Block t ?p1) (\<lambda>p2. Inr (True, Some p2))"
    using assms(2,3) y by (cases p)
      (simp add: IOSubmit_def SuspendTask_def set_status_def get_task_def Let_def bindE_assoc)
  also have "\<dots> = Inr (True, Some (suspended t tk (io_res c) q qi p))"
    using q(1) c by (cases p; cases "getScheduler p") (simp add: suspended_def)
  finally show ?thesis using q by blast
qed

text \<open>What a lambda submits is what the route of its call says.\<close>

lemma Exec_results: "Exec f1 f2 req r ts e = Inr (b, e') \<Longrightarrow> results e' = results e"
  by (auto simp: Exec_def new_data_def Submit_def Let_def bindE_eq_Inr check_def split: if_splits)

lemmas route_defs = hook_connect_def hook_accept4_def hook_read_def hook_write_def hook_recv_def
  hook_send_def hook_recvmsg_def hook_sendmsg_def socket_route_def

lemmas request_defs = Connect_def Accept_def Read_def Write_def Recv_def Send_def Recvmsg_def
  Sendmsg_def

lemma route_desc:
  assumes "route_of f h = Inr (Async req ts)"
  shows "\<exists>q d. find_desc (fd_of f) h = Inr (Some (q, d)) \<and> get_fd (fd_of f) h = Inr (Some q) \<and>
    get_desc q h = Inr d"
proof -
  have "\<exists>q d. find_desc (fd_of f) h = Inr (Some (q, d))"
    using assms by (cases f) (auto simp: route_defs bindE_eq_Inr split: option.splits)
  then show ?thesis by (auto simp: find_desc_def bindE_eq_Inr split: option.splits)
qed

text \<open>The table after the request: \<open>read\<close> and \<open>write\<close> of a file have advanced the offset.\<close>

definition table_after :: "hooked \<Rightarrow> i32 \<Rightarrow> hooks \<Rightarrow> hooks" where
  "table_after f junk h = (case f of
       H_read fd buf n \<Rightarrow> (case hook_read True junk fd buf n h of Inr (_, h') \<Rightarrow> h' | Inl _ \<Rightarrow> h)
     | H_write fd buf n \<Rightarrow> (case hook_write True junk fd buf n h of Inr (_, h') \<Rightarrow> h' | Inl _ \<Rightarrow> h)
     | _ \<Rightarrow> h)"

lemma bindE_Exec_cong:
  "(\<And>b e'. results e' = results e \<Longrightarrow> g (b, e') = g' (b, e')) \<Longrightarrow>
     bindE (Exec f1 f2 req r ts e) g = bindE (Exec f1 f2 req r ts e) g'"
  by (cases "Exec f1 f2 req r ts e") (auto dest: Exec_results)

lemma run_hooked_route:
  assumes "route_of f h = Inr (Async req ts)" "get_fd (fd_of f) h = Inr (Some q)"
  shows "run_hooked f1 f2 q r f e h =
    bindE (Exec f1 f2 req r ts e) (\<lambda>(b, e'). Inr (e', table_after f (ret (results e r)) h))"
proof -
  obtain d where d: "find_desc (fd_of f) h = Inr (Some (q, d))" "get_desc q h = Inr d"
    using route_desc [OF assms(1)] assms(2) by auto
  show ?thesis
  proof (cases f)
    case (H_read fd buf n)
    with assms d show ?thesis
      by (auto simp: route_defs request_defs table_after_def done_with_def split: if_splits fd_type.splits
          intro!: bindE_Exec_cong)
  next
    case (H_write fd buf n)
    with assms d show ?thesis
      by (auto simp: route_defs request_defs table_after_def done_with_def split: if_splits fd_type.splits
          intro!: bindE_Exec_cong)
  qed (use assms d in \<open>auto simp: route_defs request_defs table_after_def done_with_def split: if_splits\<close>)
qed

text \<open>One round of the submit thread with a request waiting.\<close>

lemma IOSubmit_round_runs:
  assumes "\<not> stopped s" "lfq_invar (ioQueue s)" "lfq_contents (ioQueue s) = c # cs"
  shows "\<exists>q. IOSubmit_round run s = bindE (run c (s\<lparr>ioQueue := q\<rparr>)) (\<lambda>s'. Inr (Ran, s')) \<and>
    lfq_invar q \<and> lfq_contents q = cs"
  using lfq.pop_Cons_law [OF assms(2,3)] assms(1) by (auto simp: IOSubmit_round_def Let_def)

lemma run_io_queue:
  "run_io f1 f2 c (s\<lparr>ioQueue := q\<rparr>) = bindE (run_io f1 f2 c s) (\<lambda>s'. Inr (s'\<lparr>ioQueue := q\<rparr>))"
  by (cases "run_hooked f1 f2 (io_fdPtr c) (io_res c) (io_fun c) (ioEngine s) (hks s)")
    (auto simp: run_io_def)

fun submit_rounds :: "(bool \<times> bool) list \<Rightarrow> 'f runtime \<Rightarrow> fault + 'f runtime" where
  "submit_rounds [] s = Inr s"
| "submit_rounds ((f1, f2) # fl) s =
     bindE (IOSubmit_round (run_io f1 f2) s) (\<lambda>(r, s'). submit_rounds fl s')"

definition run_all :: "((bool \<times> bool) \<times> io_call) list \<Rightarrow> engine \<times> hooks \<Rightarrow> fault + (engine \<times> hooks)" where
  "run_all = foldE (\<lambda>((f1, f2), c) (e, h). run_hooked f1 f2 (io_fdPtr c) (io_res c) (io_fun c) e h)"

lemma run_all_simps [simp]:
  "run_all [] x = Inr x"
  "run_all (((f1, f2), c) # xs) (e, h) =
     bindE (run_hooked f1 f2 (io_fdPtr c) (io_res c) (io_fun c) e h) (run_all xs)"
  by (simp_all add: run_all_def)

text \<open>C21: requests are submitted in the order of the calls. As many rounds of the submit thread as
  there are requests in its queue, or fewer, run exactly the first lambdas of the queue in order, each on the
  engine and the table the one before it left, and leave the rest of the queue.\<close>

theorem submit_thread_fifo:
  fixes s :: "'f runtime"
  assumes "\<not> stopped s" "lfq_invar (ioQueue s)" "length fl \<le> length (lfq_contents (ioQueue s))"
  shows "\<exists>q. submit_rounds fl s =
      bindE (run_all (zip fl (lfq_contents (ioQueue s))) (ioEngine s, hks s)) (\<lambda>(e, h).
        Inr (s\<lparr>ioQueue := q, ioEngine := e, hks := h\<rparr>)) \<and>
    lfq_invar q \<and> lfq_contents q = drop (length fl) (lfq_contents (ioQueue s))"
  using assms
proof (induction fl arbitrary: s)
  case Nil
  then show ?case by (intro exI [of _ "ioQueue s"]) (cases s, simp)
next
  case (Cons x fl)
  obtain f1 f2 where x: "x = (f1, f2)" by force
  obtain c cs where cs: "lfq_contents (ioQueue s) = c # cs" using Cons.prems(3)
    by (cases "lfq_contents (ioQueue s)") auto
  from IOSubmit_round_runs [OF Cons.prems(1,2) cs, where run = "run_io f1 f2"]
  obtain q where q: "IOSubmit_round (run_io f1 f2) s =
      bindE (run_io f1 f2 c (s\<lparr>ioQueue := q\<rparr>)) (\<lambda>s'. Inr (Ran, s'))"
    "lfq_invar q" "lfq_contents q = cs" by blast
  show ?case
  proof (cases "run_hooked f1 f2 (io_fdPtr c) (io_res c) (io_fun c) (ioEngine s) (hks s)")
    case (Inl err)
    have r: "run_io f1 f2 c (s\<lparr>ioQueue := q\<rparr>) = Inl err" using Inl by (simp add: run_io_def)
    from lfq.pop_n_law [OF q(2), of "length fl"] q(3) obtain q' where
      "lfq_invar q'" "lfq_contents q' = drop (length fl) cs" by auto
    with r Inl q(1) cs show ?thesis by (intro exI [of _ q']) (simp add: x)
  next
    case (Inr eh)
    obtain e h where eh: "eh = (e, h)" by force
    let ?s = "s\<lparr>ioQueue := q, ioEngine := e, hks := h\<rparr>"
    have r: "run_io f1 f2 c (s\<lparr>ioQueue := q\<rparr>) = Inr ?s" using Inr by (simp add: run_io_def eh)
    have "length fl \<le> length (lfq_contents (ioQueue ?s))" using Cons.prems(3) cs q(3) by simp
    from Cons.IH [of ?s, OF _ _ this] Cons.prems(1) q
    obtain q' where "submit_rounds fl ?s = bindE (run_all (zip fl cs) (e, h)) (\<lambda>(e, h).
        Inr (?s\<lparr>ioQueue := q', ioEngine := e, hks := h\<rparr>))" "lfq_invar q'"
      "lfq_contents q' = drop (length fl) cs" by auto
    with Inr r q cs show ?thesis by (intro exI [of _ q']) (simp add: x eh)
  qed
qed

section \<open>A call from end to end\<close>

lemma co_call_suspends:
  assumes "in_coroutine p" "runningTask p = Some t" "store (taskPool p) t = Some tk"
    and "lfq_invar (ioQueue (getScheduler p))"
      "length (lfq_contents (ioQueue (getScheduler p))) < lfq_room"
    and "route_of f (hks (getScheduler p)) = Inr (Async req ts)"
  shows "\<exists>q qi a. co_call small r f p = Inr (True, suspended t tk r q qi p) \<and>
    get_fd (fd_of f) (hks (getScheduler p)) = Inr (Some a) \<and>
    lfq_invar q \<and> lfq_contents q = tl (queue p) \<and>
    lfq_invar qi \<and> lfq_contents qi = lfq_contents (ioQueue (getScheduler p)) @
      [\<lparr>io_fun = f, io_fdPtr = a, io_res = r\<rparr>]"
proof -
  from route_desc [OF assms(6)] obtain a where
    a: "get_fd (fd_of f) (hks (getScheduler p)) = Inr (Some a)" by blast
  from IOSubmit_suspends [OF assms(1-5), of small "\<lparr>io_fun = f, io_fdPtr = a, io_res = r\<rparr>"]
  obtain q qi where "IOSubmit small \<lparr>io_fun = f, io_fdPtr = a, io_res = r\<rparr> (Some p) =
      Inr (True, Some (suspended t tk r q qi p))"
    "lfq_invar q" "lfq_contents q = tl (queue p)" "lfq_invar qi"
    "lfq_contents qi = lfq_contents (ioQueue (getScheduler p)) @
      [\<lparr>io_fun = f, io_fdPtr = a, io_res = r\<rparr>]" by auto
  with a assms(6) show ?thesis by (auto simp: co_call_def)
qed

text \<open>The runtime after the coroutine of processer \<open>i\<close> has suspended itself.\<close>

definition after_call :: "nat \<Rightarrow> ref \<Rightarrow> tptr \<Rightarrow> io_call lfq \<Rightarrow> ('f, io_call) proc \<Rightarrow> 'f runtime \<Rightarrow> 'f runtime" where
  "after_call i r t qi p s = s\<lparr>processers := (processers s)[i := p], sharedPool := taskPool p, ioWait := False, ioQueue := qi,
     ioEngine := set_user_data r (of_nat t) (ioEngine s)\<rparr>"

text \<open>The processer it leaves behind.\<close>

definition left_by :: "tptr \<Rightarrow> ('f, 'c) proc \<Rightarrow> ('f, 'c) proc \<Rightarrow> bool" where
  "left_by t p p' \<longleftrightarrow> lfq_invar (runnableQueue p') \<and> queue p' = tl (queue p) \<and>
     cur p' = next_ctl (queue p) \<and> runningTask p' = next_running (queue p) \<and>
     (\<exists>tk. store (taskPool p') t = Some tk \<and> status tk = Block)"

lemma call_suspends:
  assumes "in_coroutine (processers s ! i)" "runningTask (processers s ! i) = Some t"
    and "store (sharedPool s) t = Some tk"
    and "lfq_invar (ioQueue s)" "length (lfq_contents (ioQueue s)) < lfq_room"
    and "route_of f (hks s) = Inr (Async req ts)"
  shows "\<exists>p' qi a. on_thread i (co_call small r f) s = Inr (True, after_call i r t qi p' s) \<and>
    left_by t (processers s ! i) p' \<and> get_fd (fd_of f) (hks s) = Inr (Some a) \<and>
    lfq_invar qi \<and> lfq_contents qi = lfq_contents (ioQueue s) @
      [\<lparr>io_fun = f, io_fdPtr = a, io_res = r\<rparr>]"
proof -
  let ?p = "enter i s"
  have p: "in_coroutine ?p" using assms(1) by (simp add: in_coroutine_def)
  from co_call_suspends [OF p, of t tk f req ts small r] assms(2-)
  obtain q qi a where co: "co_call small r f ?p = Inr (True, suspended t tk r q qi ?p)"
    "get_fd (fd_of f) (hks s) = Inr (Some a)" "lfq_invar q"
    "lfq_contents q = tl (queue (processers s ! i))" "lfq_invar qi"
    "lfq_contents qi = lfq_contents (ioQueue s) @ [\<lparr>io_fun = f, io_fdPtr = a, io_res = r\<rparr>]"
    by auto
  let ?q = "suspended t tk r q qi ?p"
  have "leave i ?q = after_call i r t qi (proc.truncate ?q) s"
    by (simp add: leave_def suspended_def after_call_def)
  moreover have "left_by t (processers s ! i) (proc.truncate ?q)"
    using co(3,4) by (simp add: left_by_def suspended_def put_task_def)
  ultimately show ?thesis using co by (auto simp: on_thread_def)
qed

definition submitted :: "prep \<Rightarrow> ref \<Rightarrow> engine \<Rightarrow> engine" where
  "submitted req r e = e\<lparr>sq := [],
     kernel := kernel e @ sq e @ [\<lparr>sq_op = req, sq_link = False, sq_data = next_data e\<rparr>],
     rdata := (rdata e)(next_data e \<mapsto> \<lparr>rd_type = NORMAL, rd_res = r\<rparr>),
     next_data := Suc (next_data e)\<rparr>"

lemma Exec_plain: "Exec True f2 req r no_timeout e = Inr (True, submitted req r e)"
  by (simp add: Exec_def no_timeout_def new_data_def Submit_def Let_def word_sless_alt word_sle_eq
      submitted_def)

text \<open>The submit thread takes the request of one call.\<close>

lemma submit_one:
  assumes "\<not> stopped s" "lfq_invar (ioQueue s)"
    and "lfq_contents (ioQueue s) = [\<lparr>io_fun = f, io_fdPtr = a, io_res = r\<rparr>]"
    and "route_of f (hks s) = Inr (Async req ts)" "get_fd (fd_of f) (hks s) = Inr (Some a)"
  shows "\<exists>q. IOSubmit_round (run_io f1 f2) s = bindE (Exec f1 f2 req r ts (ioEngine s)) (\<lambda>(b, e).
      Inr (Ran, s\<lparr>ioQueue := q, ioEngine := e,
        hks := table_after f (ret (results (ioEngine s) r)) (hks s)\<rparr>)) \<and>
    lfq_invar q \<and> lfq_contents q = []"
proof -
  from IOSubmit_round_runs [OF assms(1-3), where run = "run_io f1 f2"]
  obtain q where "IOSubmit_round (run_io f1 f2) s = bindE
      (run_io f1 f2 \<lparr>io_fun = f, io_fdPtr = a, io_res = r\<rparr> (s\<lparr>ioQueue := q\<rparr>)) (\<lambda>s'. Inr (Ran, s'))"
    "lfq_invar q" "lfq_contents q = []" by blast
  with run_hooked_route [OF assms(4,5), of f1 f2 r "ioEngine s"] show ?thesis
    by (cases "Exec f1 f2 req r ts (ioEngine s)") (auto simp: run_io_def)
qed

text \<open>The call and the submit thread together, on a runtime whose request queue is empty.\<close>

definition call_ready :: "nat \<Rightarrow> tptr \<Rightarrow> 'f runtime \<Rightarrow> bool" where
  "call_ready i t s \<longleftrightarrow> i < length (processers s) \<and> in_coroutine (processers s ! i) \<and>
     runningTask (processers s ! i) = Some t \<and> store (sharedPool s) t \<noteq> None \<and>
     t < 2 ^ 64 \<and> \<not> stopped s \<and> lfq_invar (ioQueue s) \<and> lfq_contents (ioQueue s) = []"

lemma call_and_submit:
  assumes ready: "call_ready i t s" and route: "route_of f (hks s) = Inr (Async req ts)"
  shows "\<exists>s1 q p' qi. on_thread i (co_call small r f) s = Inr (True, s1) \<and>
    s1 = after_call i r t qi p' s \<and> left_by t (processers s ! i) p' \<and>
    IOSubmit_round (run_io f1 f2) s1 =
      bindE (Exec f1 f2 req r ts (set_user_data r (of_nat t) (ioEngine s))) (\<lambda>(b, e).
        Inr (Ran, s1\<lparr>ioQueue := q, ioEngine := e,
          hks := table_after f (ret (results (ioEngine s) r)) (hks s)\<rparr>)) \<and> lfq_contents q = []"
proof -
  from ready obtain tk where run: "in_coroutine (processers s ! i)"
    "runningTask (processers s ! i) = Some t" "store (sharedPool s) t = Some tk"
    "\<not> stopped s" "lfq_invar (ioQueue s)" "lfq_contents (ioQueue s) = []"
    by (auto simp: call_ready_def)
  then have "length (lfq_contents (ioQueue s)) < lfq_room" by simp
  from call_suspends [OF run(1-3,5) this route, of small r] run(6)
  obtain p' qi a where co: "on_thread i (co_call small r f) s = Inr (True, after_call i r t qi p' s)"
    "left_by t (processers s ! i) p'" "get_fd (fd_of f) (hks s) = Inr (Some a)" "lfq_invar qi"
    "lfq_contents qi = [\<lparr>io_fun = f, io_fdPtr = a, io_res = r\<rparr>]" by auto
  let ?s1 = "after_call i r t qi p' s"
  have s1: "ioEngine ?s1 = set_user_data r (of_nat t) (ioEngine s)" "hks ?s1 = hks s"
    "\<not> stopped ?s1" "ioQueue ?s1 = qi" using run(4) by (simp_all add: after_call_def)
  have r: "ret (results (set_user_data r (of_nat t) (ioEngine s)) r) = ret (results (ioEngine s) r)"
    by (simp add: set_user_data_def)
  have "\<exists>q. IOSubmit_round (run_io f1 f2) ?s1 = bindE (Exec f1 f2 req r ts (ioEngine ?s1))
      (\<lambda>(b, e). Inr (Ran, ?s1\<lparr>ioQueue := q, ioEngine := e,
        hks := table_after f (ret (results (ioEngine ?s1) r)) (hks ?s1)\<rparr>)) \<and>
    lfq_invar q \<and> lfq_contents q = []"
    by (rule submit_one) (use s1 co route in simp_all)
  then show ?thesis using co unfolding s1 r by blast
qed

text \<open>What the call leaves of the processers.\<close>

definition queue_after :: "nat \<Rightarrow> 'f runtime \<Rightarrow> nat \<Rightarrow> tptr list" where
  "queue_after i s j =
     (if i = j then tl (queue (processers s ! j)) else queue (processers s ! j))"

lemma procs_ok_left:
  assumes "procs_ok ps" "i < length ps" "left_by t (ps ! i) p'"
  shows "procs_ok (ps[i := p'])" "size (all_tasks (ps[i := p'])) \<le> size (all_tasks ps)"
proof -
  have "length (queue p') \<le> length (queue (ps ! i))" using assms(3) by (simp add: left_by_def)
  with size_all_tasks_update [OF assms(2), of p']
  show le: "size (all_tasks (ps[i := p'])) \<le> size (all_tasks ps)" by linarith
  show "procs_ok (ps[i := p'])"
    using assms le by (auto simp: procs_ok_def left_by_def dest!: subsetD [OF set_update_subset_insert])
qed

lemma queue_left:
  assumes "left_by t (processers s ! i) p'" "i < length (processers s)"
  shows "queue ((processers s)[i := p'] ! j) = queue_after i s j"
  using assms by (simp add: left_by_def nth_list_update queue_after_def)

text \<open>After the call and the submission: what the wait thread starts from.\<close>

lemma call_submitted:
  assumes ready: "call_ready i t s" and route: "route_of f (hks s) = Inr (Async req ts)"
    and ex: "Exec True True req r ts (set_user_data r (of_nat t) (ioEngine s)) = Inr (True, e)"
    and ps: "procs_ok (processers s)"
  shows "\<exists>s1 s2. on_thread i (co_call small r f) s = Inr (True, s1) \<and>
    cur (processers s1 ! i) = next_ctl (queue (processers s ! i)) \<and>
    IOSubmit_round (run_io True True) s1 = Inr (Ran, s2) \<and>
    ioEngine s2 = e \<and> idx_list s2 = idx_list s \<and> procs_ok (processers s2) \<and>
    length (processers s2) = length (processers s) \<and>
    size (all_tasks (processers s2)) \<le> size (all_tasks (processers s)) \<and>
    (\<forall>j. queue (processers s2 ! j) = queue_after i s j)"
proof -
  obtain s1 q p' qi where s1: "on_thread i (co_call small r f) s = Inr (True, s1)"
    "s1 = after_call i r t qi p' s" and left: "left_by t (processers s ! i) p'"
    and s2: "IOSubmit_round (run_io True True) s1 = Inr (Ran, s1\<lparr>ioQueue := q, ioEngine := e,
      hks := table_after f (ret (results (ioEngine s) r)) (hks s)\<rparr>)"
    using call_and_submit [OF ready route, of small r True True] by (auto simp: ex)
  have i: "i < length (processers s)" using ready by (simp add: call_ready_def)
  have "cur (processers s1 ! i) = next_ctl (queue (processers s ! i))"
    using left i by (simp add: s1(2) after_call_def left_by_def)
  with s1 s2 procs_ok_left [OF ps i left] queue_left [OF left i] show ?thesis
    by (intro exI conjI) (assumption | simp add: after_call_def)+
qed

text \<open>C20: a blocking call from end to end, with the repaired suspension (\<open>Yield_cur\<close>, the status read
  through \<open>cur_task\<close>; as written \<open>SuspendTask\<close> faults in \<open>Yield\<close>). On any processer, a coroutine makes
  an intercepted call that the hooks route to the engine without a timeout, while no other request
  is queued (\<open>call_ready\<close>) and the submission ring has room. It is suspended, and its processer goes on with the next task
  of its queue or its loop. The submit thread takes the request and gives the kernel exactly the
  entry the route asks for. When the kernel completes that entry, the wait thread stores the
  result where the coroutine will read it and puts the task at the end of one run queue, the next
  in turn; every other queue is as it was.\<close>

theorem blocking_call_roundtrip:
  fixes s :: "'f runtime"
  assumes ready: "call_ready i t s" and route: "route_of f (hks s) = Inr (Async req no_timeout)"
    and procs: "procs_ok (processers s)" "length (processers s) < 2 ^ 64"
      "size (all_tasks (processers s)) < lfq_room" "idx_list s = of_nat k" "k < 2 ^ 64"
  shows "\<exists>s1 s2 s3. on_thread i (co_call small r f) s = Inr (True, s1) \<and>
    cur (processers s1 ! i) = next_ctl (queue (processers s ! i)) \<and>
    IOSubmit_round (run_io True True) s1 = Inr (Ran, s2) \<and>
    kernel (ioEngine s2) = kernel (ioEngine s) @ sq (ioEngine s) @
      [\<lparr>sq_op = req, sq_link = False, sq_data = next_data (ioEngine s)\<rparr>] \<and>
    IOWait_round [Cqe v (next_data (ioEngine s))] s2 = Inr ([], s3) \<and>
    ret (results (ioEngine s3) r) = v \<and>
    (\<forall>j < length (processers s). queue (processers s3 ! j) = queue_after i s j @
      (if k mod length (processers s) = j then [t] else []))"
proof -
  let ?e = "submitted req r (set_user_data r (of_nat t) (ioEngine s))" and ?n = "next_data (ioEngine s)"
  have i: "i < length (processers s)" "t < 2 ^ 64" using ready by (simp_all add: call_ready_def)
  obtain s1 s2 where s: "on_thread i (co_call small r f) s = Inr (True, s1)"
    "cur (processers s1 ! i) = next_ctl (queue (processers s ! i))"
    "IOSubmit_round (run_io True True) s1 = Inr (Ran, s2)"
    and e: "ioEngine s2 = ?e" and idx: "idx_list s2 = of_nat k" and ok: "procs_ok (processers s2)"
    and len: "length (processers s2) = length (processers s)"
    and sz: "size (all_tasks (processers s2)) \<le> size (all_tasks (processers s))"
    and q: "\<forall>j. queue (processers s2 ! j) = queue_after i s j"
    using call_submitted [OF ready route Exec_plain procs(1), of small] procs(4) by metis
  have w: "WaitResult [Cqe v ?n] (ioEngine s2) = Inr (Some (of_nat t), [], snd (finish_data ?n r v ?e))"
    by (simp add: e on_cqe_def finish_data_def submitted_def set_user_data_def)
  have "processers s2 \<noteq> []" "length (processers s2) < 2 ^ 64" "size (all_tasks (processers s2)) < lfq_room"
    using len sz i(1) procs by auto
  from IOWait_round_wakes [OF ok this(1,2) idx procs(5) this(3) w]
  obtain s3 where "IOWait_round [Cqe v ?n] s2 = Inr ([], s3)" "ioEngine s3 = snd (finish_data ?n r v ?e)"
    "\<forall>j < length (processers s). queue (processers s3 ! j) = queue_after i s j @
      (if k mod length (processers s) = j then [t] else [])"
    unfolding len spec [OF q] unat_of_nat_u64 [OF i(2)] by blast
  then show ?thesis using s
    by (intro exI [of _ s1] exI [of _ s2] exI [of _ s3])
      (simp add: finish_data_def e submitted_def set_user_data_def)
qed

text \<open>C26: the deferred submission is the immediate one. Making the call on a processer, with the repaired
  suspension (\<open>Yield_cur\<close>; as written the call faults before its request is handed over) and no other request queued, and then letting
  the submit thread run has the same effect on the engine and the descriptor table as preparing
  the routed request at the call, with the running task as the user data of its result, and the submission
  faults where that faults; the offset of a file moves by what \<open>res.ret\<close> held at the call.\<close>

theorem deferred_is_direct:
  assumes "call_ready i t s" "route_of f (hks s) = Inr (Async req ts)"
  shows "bindE (on_thread i (co_call small r f) s) (\<lambda>(b, s1).
      bindE (IOSubmit_round (run_io f1 f2) s1) (\<lambda>(x, s2). Inr (ioEngine s2, hks s2))) =
    bindE (Exec f1 f2 req r ts (set_user_data r (of_nat t) (ioEngine s))) (\<lambda>(b, e).
      Inr (e, table_after f (ret (results (ioEngine s) r)) (hks s)))"
proof -
  obtain s1 q where "on_thread i (co_call small r f) s = Inr (True, s1)"
    "IOSubmit_round (run_io f1 f2) s1 =
      bindE (Exec f1 f2 req r ts (set_user_data r (of_nat t) (ioEngine s))) (\<lambda>(b, e).
        Inr (Ran, s1\<lparr>ioQueue := q, ioEngine := e,
          hks := table_after f (ret (results (ioEngine s) r)) (hks s)\<rparr>))"
    using call_and_submit [OF assms, of small r f1 f2] by blast
  then show ?thesis
    by (cases "Exec f1 f2 req r ts (set_user_data r (of_nat t) (ioEngine s))") auto
qed

text \<open>C27: a request that finds the ring full is dropped and its coroutine is lost. The lambdas of the
  hooks do not look at what the engine answers: when no submission entry is free, the request is gone
  from the queue, the engine is as it was but for the user data, so no completion to come belongs
  to the call; and the task is marked blocked, no longer running, and in none of the queues. The call
  suspends through \<open>Yield_cur\<close>, the repaired yield; no other request is queued when it is made.\<close>

theorem full_ring_loses_task:
  assumes "call_ready i t s" "route_of f (hks s) = Inr (Async req ts)"
    and "0 \<le>s tv_sec ts" "0 \<le>s tv_nsec ts" "\<And>p. p \<in> set (processers s) \<Longrightarrow> t \<notin> set (queue p)"
  shows "\<exists>s1 s2. on_thread i (co_call small r f) s = Inr (True, s1) \<and>
    IOSubmit_round (run_io False f2) s1 = Inr (Ran, s2) \<and> lfq_contents (ioQueue s2) = [] \<and>
    ioEngine s2 = set_user_data r (of_nat t) (ioEngine s) \<and>
    (\<forall>j < length (processers s). t \<notin> set (queue (processers s2 ! j))) \<and>
    runningTask (processers s2 ! i) = next_running (queue (processers s ! i)) \<and>
    (\<exists>tk. store (sharedPool s2) t = Some tk \<and> status tk = Block)"
proof -
  have i: "i < length (processers s)" using assms(1) by (simp add: call_ready_def)
  obtain s1 q p' qi where s1: "on_thread i (co_call small r f) s = Inr (True, s1)"
    "s1 = after_call i r t qi p' s" and left: "left_by t (processers s ! i) p'"
    and s2: "IOSubmit_round (run_io False f2) s1 =
      Inr (Ran, s1\<lparr>ioQueue := q, ioEngine := set_user_data r (of_nat t) (ioEngine s),
          hks := table_after f (ret (results (ioEngine s) r)) (hks s)\<rparr>)" "lfq_contents q = []"
    using call_and_submit [OF assms(1,2), of small r False f2] assms(3,4) by (auto simp: Exec_def)
  have "t \<notin> set (queue_after i s j)" if "j < length (processers s)" for j
  proof -
    have "set (queue_after i s j) \<subseteq> set (queue (processers s ! j))"
      by (cases "queue (processers s ! j)") (auto simp: queue_after_def)
    with assms(5) [OF nth_mem [OF that]] show ?thesis by blast
  qed
  with s1 s2 left queue_left [OF left i] i show ?thesis
    by (auto simp: after_call_def left_by_def)
qed

text \<open>C29: a timed out call puts its task into the run queues twice. The kernel cancels the operation
  and completes the linked timeout, in one order or the other; each of the two completions wakes
  the task. When the wait thread takes both before a processer takes the task, it is queued
  on two processers (twice on the same one if there is only one), which both will run it. The
  completion that comes second has overwritten the result: it is +11, \<open>EAGAIN\<close>, if the timeout
  comes last, and -ECANCELED if the operation does; in neither case the -EAGAIN that would
  tell of a timeout. The call suspends through \<open>Yield\<close> with the status read through \<open>cur_task\<close>.\<close>

theorem timed_out_task_queued_twice:
  fixes s :: "'f runtime"
  assumes ready: "call_ready i t s" and route: "route_of f (hks s) = Inr (Async req ts)"
    and ts: "0 <s tv_sec ts" "0 \<le>s tv_nsec ts"
    and procs: "procs_ok (processers s)" "length (processers s) < 2 ^ 64"
      "size (all_tasks (processers s)) + 1 < lfq_room" "idx_list s = of_nat k" "Suc k < 2 ^ 64"
    and evs: "n = next_data (ioEngine s)"
      "evs \<in> {[Cqe (- ECANCELED) n, Cqe (- ETIME) (Suc n)], [Cqe (- ETIME) (Suc n), Cqe (- ECANCELED) n]}"
  shows "\<exists>s1 s2 s3 s4. on_thread i (co_call small r f) s = Inr (True, s1) \<and>
    IOSubmit_round (run_io True True) s1 = Inr (Ran, s2) \<and>
    IOWait_round evs s2 = Inr (tl evs, s3) \<and> IOWait_round (tl evs) s3 = Inr ([], s4) \<and>
    ret (results (ioEngine s4) r) = (if last evs = Cqe (- ECANCELED) n then - ECANCELED else EAGAIN) \<and>
    (\<forall>j < length (processers s). queue (processers s4 ! j) = queue_after i s j @
      (if k mod length (processers s) = j then [t] else []) @
      (if Suc k mod length (processers s) = j then [t] else []))"
proof -
  let ?e1 = "set_user_data r (of_nat t) (ioEngine s)" and ?len = "length (processers s)"
  have i: "i < ?len" "t < 2 ^ 64" using ready by (simp_all add: call_ready_def)
  obtain e2 where e2: "Exec True True req r ts ?e1 = Inr (True, e2)"
    "rdata e2 = (rdata (ioEngine s))(n \<mapsto> \<lparr>rd_type = NORMAL, rd_res = r\<rparr>,
       Suc n \<mapsto> \<lparr>rd_type = TIMEOUT, rd_res = r\<rparr>)" "user_data (results e2 r) = of_nat t"
    using ts by (auto simp: Exec_def new_data_def Submit_def Let_def set_user_data_def evs(1)
        word_sless_alt word_sle_eq)
  obtain s1 s2 where s: "on_thread i (co_call small r f) s = Inr (True, s1)"
    "IOSubmit_round (run_io True True) s1 = Inr (Ran, s2)"
    and e: "ioEngine s2 = e2" and idx: "idx_list s2 = of_nat k" and ok: "procs_ok (processers s2)"
    and len: "length (processers s2) = ?len"
    and sz: "size (all_tasks (processers s2)) \<le> size (all_tasks (processers s))"
    and q: "\<forall>j. queue (processers s2 ! j) = queue_after i s j"
    using call_submitted [OF ready route e2(1) procs(1), of small] procs(4) by metis
  have ne: "- ETIME \<noteq> - ECANCELED" "- ECANCELED \<noteq> (0 :: i32)" by (simp_all add: ETIME_def ECANCELED_def)
  obtain e3 e4 where w: "WaitResult evs (ioEngine s2) = Inr (Some (of_nat t), tl evs, e3)"
    "WaitResult (tl evs) e3 = Inr (Some (of_nat t), [], e4)"
    "ret (results e4 r) = (if last evs = Cqe (- ECANCELED) n then - ECANCELED else EAGAIN)"
    using e2 evs(2) by (auto simp: e on_cqe_def finish_data_def)
  have "processers s2 \<noteq> []" "length (processers s2) < 2 ^ 64" "k < 2 ^ 64"
    "size (all_tasks (processers s2)) < lfq_room" using len sz i(1) procs by auto
  from IOWait_round_wakes [OF ok this(1,2) idx this(3,4) w(1)]
  obtain s3 where s3: "IOWait_round evs s2 = Inr (tl evs, s3)"
    "ioEngine s3 = e3" "procs_ok (processers s3)" "length (processers s3) = ?len"
    "idx_list s3 = of_nat (Suc k)" "size (all_tasks (processers s3)) = Suc (size (all_tasks (processers s2)))"
    "\<forall>j < ?len. queue (processers s3 ! j) = queue_after i s j @ (if k mod ?len = j then [t] else [])"
    unfolding len spec [OF q] unat_of_nat_u64 [OF i(2)] by blast
  have "processers s3 \<noteq> []" "length (processers s3) < 2 ^ 64" "size (all_tasks (processers s3)) < lfq_room"
    using s3(4,6) sz procs i(1) by auto
  from IOWait_round_wakes [OF s3(3) this(1,2) s3(5) procs(5) this(3) w(2) [folded s3(2)]]
  obtain s4 where "IOWait_round (tl evs) s3 = Inr ([], s4)" "ioEngine s4 = e4"
    "\<forall>j < ?len. queue (processers s4 ! j) = queue (processers s3 ! j) @ (if Suc k mod ?len = j then [t] else [])"
    unfolding s3(4) s3(2) unat_of_nat_u64 [OF i(2)] by blast
  then show ?thesis using s s3(1,7) w(3)
    by (intro exI [of _ s1] exI [of _ s2] exI [of _ s3] exI [of _ s4]) simp
qed

section \<open>Witnesses\<close>

text \<open>Two processers; task 10 runs on the first, and descriptor 3 is \<open>d\<close>.\<close>

definition sample_busy :: "tptr list \<Rightarrow> tptr option \<Rightarrow> (nat, io_call) proc" where
  "sample_busy ts r = \<lparr>stop = False, runningTask = r, runnableQueue = lfq_of ts,
     LastScheToDos = [], proc_id = 0, proc_status = Running,
     taskPool = sample_pool [] 0 100 (\<lambda>_. Runnable),
     cur = (case r of None \<Rightarrow> Main | Some t \<Rightarrow> Coroutine t)\<rparr>"

definition sample_runtime :: "fd_desc \<Rightarrow> nat runtime" where
  "sample_runtime d = \<lparr>stopped = False, processers = [sample_busy [11] (Some 10), sample_busy [20] None],
     tempTasks = [], idx_func = 0, idx_list = 1, ioWait = True, ioQueue = lfq_of [],
     ioEngine = sample_engine, sharedPool = sample_pool [] 0 100 (\<lambda>_. Runnable), hks = sample_hooks d\<rparr>"

lemma sample_busy_sel [simp]:
  "stop (sample_busy ts r) = False" "runningTask (sample_busy ts r) = r"
  "runnableQueue (sample_busy ts r) = lfq_of ts" "LastScheToDos (sample_busy ts r) = []"
  "taskPool (sample_busy ts r) = sample_pool [] 0 100 (\<lambda>_. Runnable)"
  "cur (sample_busy ts r) = (case r of None \<Rightarrow> Main | Some t \<Rightarrow> Coroutine t)"
  by (simp_all add: sample_busy_def)

lemma sample_runtime_sel [simp]:
  "processers (sample_runtime d) = [sample_busy [11] (Some 10), sample_busy [20] None]"
  "stopped (sample_runtime d) = False" "idx_list (sample_runtime d) = 1"
  "ioQueue (sample_runtime d) = lfq_of []" "ioEngine (sample_runtime d) = sample_engine"
  "hks (sample_runtime d) = sample_hooks d"
  "sharedPool (sample_runtime d) = sample_pool [] 0 100 (\<lambda>_. Runnable)"
  by (simp_all add: sample_runtime_def)

lemma sample_runtime_ready: "call_ready 0 10 (sample_runtime d)"
  by (simp add: call_ready_def in_coroutine_def)

lemma sample_runtime_procs:
  "procs_ok (processers (sample_runtime d))" "size (all_tasks (processers (sample_runtime d))) = 2"
  by (simp_all add: procs_ok_def all_tasks_def)

lemma sample_route:
  assumes "d = FdDesc_new 3 tOther False"
  shows "route_of (H_read 3 0x1000 512) (sample_hooks d) = Inr (Async (Prep_read 3 0x1000 512 0) no_timeout)"
  using assms by (simp add: hook_read_def FdDesc_new_def)

lemma sample_both:
  "\<forall>j < length (processers (sample_runtime d)). P j \<Longrightarrow> P 0 \<and> P 1"
  by simp

theorem blocking_call_roundtrip_witness:
  "\<exists>s1 s2 s3. on_thread 0 (co_call (\<lambda>_. True) 1 (H_read 3 0x1000 512))
      (sample_runtime (FdDesc_new 3 tOther False)) = Inr (True, s1) \<and>
    IOSubmit_round (run_io True True) s1 = Inr (Ran, s2) \<and>
    IOWait_round [Cqe 512 0] s2 = Inr ([], s3) \<and>
    queue (processers s3 ! 0) = [] \<and> queue (processers s3 ! 1) = [20, 10]"
proof -
  let ?s = "sample_runtime (FdDesc_new 3 tOther False)"
  have r: "route_of (H_read 3 0x1000 512) (hks ?s) = Inr (Async (Prep_read 3 0x1000 512 0) no_timeout)"
    using sample_route by simp
  have b: "length (processers ?s) < 2 ^ 64" "size (all_tasks (processers ?s)) < lfq_room"
    using sample_runtime_procs(2) [of "FdDesc_new 3 tOther False"] by (simp_all add: lfq_room_def)
  from blocking_call_roundtrip [OF sample_runtime_ready r sample_runtime_procs(1) b, of 1 "\<lambda>_. True" 1 512]
  obtain s1 s2 s3 where s: "on_thread 0 (co_call (\<lambda>_. True) 1 (H_read 3 0x1000 512)) ?s = Inr (True, s1)"
    "IOSubmit_round (run_io True True) s1 = Inr (Ran, s2)"
    "IOWait_round [Cqe 512 (next_data (ioEngine ?s))] s2 = Inr ([], s3)"
    and q: "\<forall>j < length (processers ?s). queue (processers s3 ! j) = queue_after 0 ?s j @
      (if 1 mod length (processers ?s) = j then [10] else [])"
    by auto
  from sample_both [OF q] s show ?thesis by (auto simp: queue_after_def)
qed

theorem full_ring_loses_task_witness:
  "\<exists>s1 s2. on_thread 0 (co_call (\<lambda>_. True) 1 (H_read 3 0x1000 512))
      (sample_runtime (FdDesc_new 3 tOther False)) = Inr (True, s1) \<and>
    IOSubmit_round (run_io False True) s1 = Inr (Ran, s2) \<and> lfq_contents (ioQueue s2) = [] \<and>
    rdata (ioEngine s2) = (\<lambda>_. None)"
proof -
  let ?s = "sample_runtime (FdDesc_new 3 tOther False)"
  have r: "route_of (H_read 3 0x1000 512) (hks ?s) = Inr (Async (Prep_read 3 0x1000 512 0) no_timeout)"
    using sample_route by simp
  have t: "0 \<le>s tv_sec no_timeout" "0 \<le>s tv_nsec no_timeout" by (simp_all add: no_timeout_def)
  have "10 \<notin> set (queue p)" if "p \<in> set (processers ?s)" for p using that by auto
  from full_ring_loses_task [OF sample_runtime_ready r t this, of "\<lambda>_. True" 1 True]
  show ?thesis by (fastforce simp: set_user_data_def)
qed

theorem deferred_is_direct_witness:
  "bindE (on_thread 0 (co_call (\<lambda>_. True) 1 (H_read 3 0x1000 512))
      (sample_runtime (FdDesc_new 3 tOther False))) (\<lambda>(b, s1).
      bindE (IOSubmit_round (run_io True True) s1) (\<lambda>(x, s2). Inr (kernel (ioEngine s2)))) =
    Inr [\<lparr>sq_op = Prep_read 3 0x1000 512 0, sq_link = False, sq_data = 0\<rparr>]"
proof -
  let ?s = "sample_runtime (FdDesc_new 3 tOther False)"
  have r: "route_of (H_read 3 0x1000 512) (hks ?s) = Inr (Async (Prep_read 3 0x1000 512 0) no_timeout)"
    using sample_route by simp
  from deferred_is_direct [OF sample_runtime_ready r, of "\<lambda>_. True" 1 True True]
  have "bindE (bindE (on_thread 0 (co_call (\<lambda>_. True) 1 (H_read 3 0x1000 512)) ?s) (\<lambda>(b, s1).
      bindE (IOSubmit_round (run_io True True) s1) (\<lambda>(x, s2). Inr (ioEngine s2, hks s2))))
      (\<lambda>(e, h). Inr (kernel e)) =
    Inr [\<lparr>sq_op = Prep_read 3 0x1000 512 0, sq_link = False, sq_data = 0\<rparr>]"
    by (simp add: Exec_plain submitted_def set_user_data_def)
  then show ?thesis by (simp add: bindE_assoc case_prod_unfold)
qed

lemma sample_recv_route:
  "route_of (H_recv 3 0x1000 64 0) (sample_hooks ((sample_socket False)\<lparr>recvTimeout := 5000000\<rparr>)) =
     Inr (Async (Prep_recv 3 0x1000 64 0) \<lparr>tv_sec = 5, tv_nsec = 0\<rparr>)"
  by (simp add: hook_recv_def socket_route_def sample_socket_def SetSocketAttr_def FdDesc_new_def
      split_timeout_def GetSocketTimeout_def)

theorem timed_out_task_queued_twice_witness:
  "\<exists>s1 s2 s3 s4. on_thread 0 (co_call (\<lambda>_. True) 1 (H_recv 3 0x1000 64 0))
      (sample_runtime ((sample_socket False)\<lparr>recvTimeout := 5000000\<rparr>)) = Inr (True, s1) \<and>
    IOSubmit_round (run_io True True) s1 = Inr (Ran, s2) \<and>
    IOWait_round [Cqe (- ECANCELED) 0, Cqe (- ETIME) 1] s2 = Inr ([Cqe (- ETIME) 1], s3) \<and>
    IOWait_round [Cqe (- ETIME) 1] s3 = Inr ([], s4) \<and>
    queue (processers s4 ! 0) = [10] \<and> queue (processers s4 ! 1) = [20, 10]"
proof -
  let ?s = "sample_runtime ((sample_socket False)\<lparr>recvTimeout := 5000000\<rparr>)"
  have r: "route_of (H_recv 3 0x1000 64 0) (hks ?s) =
      Inr (Async (Prep_recv 3 0x1000 64 0) \<lparr>tv_sec = 5, tv_nsec = 0\<rparr>)"
    using sample_recv_route by simp
  have t: "0 <s tv_sec \<lparr>tv_sec = 5, tv_nsec = 0\<rparr>" "0 \<le>s tv_nsec \<lparr>tv_sec = 5, tv_nsec = 0\<rparr>"
    by (simp_all add: word_sless_alt)
  have b: "length (processers ?s) < 2 ^ 64" "size (all_tasks (processers ?s)) + 1 < lfq_room"
    using sample_runtime_procs(2) [of "(sample_socket False)\<lparr>recvTimeout := 5000000\<rparr>"]
    by (simp_all add: lfq_room_def)
  have "0 = next_data (ioEngine ?s)" "[Cqe (- ECANCELED) 0, Cqe (- ETIME) 1] \<in>
      {[Cqe (- ECANCELED) 0, Cqe (- ETIME) (Suc 0)], [Cqe (- ETIME) (Suc 0), Cqe (- ECANCELED) 0]}" by simp_all
  from timed_out_task_queued_twice [OF sample_runtime_ready r t sample_runtime_procs(1) b _ _ this,
      of 1 "\<lambda>_. True" 1]
  obtain s1 s2 s3 s4 where s: "on_thread 0 (co_call (\<lambda>_. True) 1 (H_recv 3 0x1000 64 0)) ?s = Inr (True, s1)"
    "IOSubmit_round (run_io True True) s1 = Inr (Ran, s2)"
    "IOWait_round [Cqe (- ECANCELED) 0, Cqe (- ETIME) 1] s2 = Inr ([Cqe (- ETIME) 1], s3)"
    "IOWait_round [Cqe (- ETIME) 1] s3 = Inr ([], s4)"
    and q: "\<forall>j < length (processers ?s). queue (processers s4 ! j) = queue_after 0 ?s j @
      (if 1 mod length (processers ?s) = j then [10] else []) @
      (if Suc 1 mod length (processers ?s) = j then [10] else [])"
    by auto
  from sample_both [OF q] s show ?thesis by (auto simp: queue_after_def)
qed

text \<open>Two calls in the queue: their entries reach the kernel in the order of the calls.\<close>

theorem submit_thread_fifo_witness:
  "\<exists>s. submit_rounds [(True, True), (True, True)]
      ((sample_runtime (FdDesc_new 3 tOther False))\<lparr>ioQueue := lfq_of
        [\<lparr>io_fun = H_connect 3 0 16, io_fdPtr = 0, io_res = 1\<rparr>,
         \<lparr>io_fun = H_accept4 3 0 0 0, io_fdPtr = 0, io_res = 2\<rparr>]\<rparr>) = Inr s \<and>
    map sq_op (kernel (ioEngine s)) = [Prep_connect 3 0 16, Prep_accept 3 0 0 0] \<and>
    lfq_contents (ioQueue s) = []"
proof -
  let ?cs = "[\<lparr>io_fun = H_connect 3 0 16, io_fdPtr = 0, io_res = 1\<rparr>,
    \<lparr>io_fun = H_accept4 3 0 0 0, io_fdPtr = 0, io_res = 2\<rparr>]"
  let ?s = "(sample_runtime (FdDesc_new 3 tOther False))\<lparr>ioQueue := lfq_of ?cs\<rparr>"
  have q: "lfq_invar (lfq_of ?cs)" "lfq_contents (lfq_of ?cs) = ?cs" by (simp_all add: lfq_room_def)
  have "\<not> stopped ?s" "lfq_invar (ioQueue ?s)"
    "length [(True, True), (True, True)] \<le> length (lfq_contents (ioQueue ?s))"
    using q by simp_all
  from submit_thread_fifo [OF this] show ?thesis
    by (auto simp: q done_with_def Connect_def Accept_def Exec_plain submitted_def)
qed

end
