(* ===== verification/Runtime.thy ===== *)
theory Runtime
  imports Async_Io
begin

text \<open>
  The whole runtime as one system: the processers' loops, the coroutines they run, the submit
  thread, the wait thread, the kernel's completions and the load balancer, each one action of
  \<open>sys_step\<close>, built from the operations of the components. \<open>places\<close> is the multiset of tasks that
  are somewhere: in a run queue, on a processer, in the request queue or waited for by an
  operation in the kernel. Every action returns, keeps the invariant \<open>sys_ok\<close> and moves tasks from
  place to place (\<open>moves_on\<close>); only \<open>Add\<close> and \<open>Finish_by\<close> change their number.

  The actions leave out what other theories show to lose or double a task: a full ring
  (\<open>full_ring_loses_task\<close>), a timeout that expires (\<open>timed_out_task_queued_twice\<close>), a yield of a
  woken task, whose status is not runnable again (\<open>woken_task_lost_by_yield\<close>), and a stop. The
  queues' operations run one at a time (\<open>lost_push\<close> is what can happen otherwise) on nodes in
  memory that reads null (\<open>recycled_node_pops_junk\<close>), and a coroutine suspends by \<open>Yield_cur\<close> and
  ends with \<open>Release_checked\<close>, the repaired \<open>Yield\<close> and \<open>Release\<close>. The result
  object of a call is a local of the suspended coroutine: it is named by its task.
\<close>

section \<open>Where a task is\<close>

text \<open>The runtime and the data pointers of the entries the kernel has and has not completed.\<close>

type_synonym 'f system = "'f runtime \<times> nat set"

text \<open>What a processer holds: its queue and the coroutine its thread is in; and who waits for an
  entry. The entry of a linked timeout has no waiter of its own.\<close>

definition on_cpu :: "('f, 'c, 'z) proc_scheme \<Rightarrow> tptr multiset" where
  "on_cpu p = (case cur p of Main \<Rightarrow> {#} | Coroutine t \<Rightarrow> {#t#})"

definition held :: "('f, 'c, 'z) proc_scheme \<Rightarrow> tptr multiset" where
  "held p = mset (queue p) + on_cpu p"

definition waited_by :: "engine \<Rightarrow> nat \<Rightarrow> tptr multiset" where
  "waited_by e p = (case rdata e p of
       None \<Rightarrow> {#} | Some d \<Rightarrow> if rd_type d = NORMAL then {#rd_res d#} else {#})"

definition places :: "'f system \<Rightarrow> tptr multiset" where
  "places = (\<lambda>(s, pend). sum_list (map held (processers s)) +
     mset (map io_res (lfq_contents (ioQueue s))) + (\<Sum>p\<in>pend. waited_by (ioEngine s) p))"

section \<open>Steps of the system\<close>

text \<open>
  \<open>Run_loop i\<close> is a round of the loop of processer \<open>i\<close>; the next three are what its coroutine
  may do: yield, an intercepted call, the end of its function. \<open>Complete skips v p\<close> is a round of
  the wait thread: it first sees the completions \<open>skips\<close> of linked timeouts that were cancelled,
  and then the result \<open>v\<close> of the entry \<open>p\<close>. \<open>Add i t\<close> hands a task to a processer.
\<close>

datatype action =
    Run_loop nat
  | Yield_by nat
  | Call_by nat hooked
  | Finish_by nat
  | Submit_one
  | Complete "(i32 \<times> nat) list" i32 nat
  | Balance
  | Add nat tptr

definition running_on :: "nat \<Rightarrow> 'f runtime \<Rightarrow> tptr option" where
  "running_on i s = (case cur (processers s ! i) of Main \<Rightarrow> None | Coroutine t \<Rightarrow>
     if i < length (processers s) \<and> runningTask (processers s ! i) = Some t then Some t else None)"

text \<open>A task's address fits the 64 bits of \<open>user_data\<close>.\<close>

definition is_ptr :: "tptr \<Rightarrow> bool" where
  "is_ptr t \<longleftrightarrow> unat (of_nat t :: u64) = t"

definition act_ok :: "action \<Rightarrow> 'f system \<Rightarrow> bool" where
  "act_ok a = (\<lambda>(s, pend). case a of
       Run_loop i \<Rightarrow> i < length (processers s) \<and> cur (processers s ! i) = Main
     | Yield_by i \<Rightarrow> (case running_on i s of None \<Rightarrow> False
         | Some t \<Rightarrow> (case store (sharedPool s) t of None \<Rightarrow> False | Some tk \<Rightarrow> status tk = Runnable))
     | Call_by i f \<Rightarrow> running_on i s \<noteq> None \<and> \<not> isl (route_of f (hks s))
     | Finish_by i \<Rightarrow> running_on i s \<noteq> None
     | Submit_one \<Rightarrow> True
     | Complete skips v p \<Rightarrow> p \<in> pend \<and> waited_by (ioEngine s) p \<noteq> {#} \<and>
         (\<forall>(u, r) \<in> set skips. r \<in> pend \<and> waited_by (ioEngine s) r = {#} \<and>
            (u = - ECANCELED \<or> u = - ENOENT))
     | Balance \<Rightarrow> True
     | Add i t \<Rightarrow> i < length (processers s) \<and> store (sharedPool s) t \<noteq> None \<and>
         t \<notin> set (idle (sharedPool s)) \<and> t \<notin># places (s, pend) \<and> is_ptr t)"

definition with_task :: "nat \<Rightarrow> (tptr \<Rightarrow> 'f thread \<Rightarrow> fault + (bool \<times> 'f thread)) \<Rightarrow> 'f runtime \<Rightarrow> fault + 'f runtime" where
  "with_task i g s = (case running_on i s of
       None \<Rightarrow> Inl Null_deref
     | Some t \<Rightarrow> bindE (on_thread i (g t) s) (\<lambda>(b, s'). Inr s'))"

definition sys_step :: "(tptr \<Rightarrow> bool) \<Rightarrow> action \<Rightarrow> 'f system \<Rightarrow> fault + 'f system" where
  "sys_step small a = (\<lambda>(s, pend). case a of
       Run_loop i \<Rightarrow> bindE (on_thread i (Start_iter (io_calls small)) s) (\<lambda>(r, s'). Inr (s', pend))
     | Yield_by i \<Rightarrow> bindE (with_task i (\<lambda>t p. bindE (Yield_cur (io_calls small) p) (\<lambda>p'. Inr (True, p'))) s)
         (\<lambda>s'. Inr (s', pend))
     | Call_by i f \<Rightarrow> bindE (with_task i (\<lambda>t. co_call small t f) s) (\<lambda>s'. Inr (s', pend))
     | Finish_by i \<Rightarrow> bindE (with_task i (\<lambda>t p. bindE (TaskFunc_end (Yield_cur (io_calls small)) t p)
           (\<lambda>p'. Inr (True, p'))) s) (\<lambda>s'. Inr (s', pend))
     | Submit_one \<Rightarrow> bindE (IOSubmit_round (run_io True True) s) (\<lambda>(r, s').
         Inr (s', pend \<union> {next_data (ioEngine s)..<next_data (ioEngine s')}))
     | Complete skips v p \<Rightarrow> bindE (IOWait_round (map (\<lambda>(u, r). Cqe u r) (skips @ [(v, p)])) s)
         (\<lambda>(evs, s'). Inr (s', pend - snd ` set skips - {p}))
     | Balance \<Rightarrow> bindE (LoadBalance s) (\<lambda>s'. Inr (s', pend))
     | Add i t \<Rightarrow> bindE (on_processer i (AddTask_list [t]) s) (\<lambda>s'. Inr (s', pend)))"

text \<open>The tasks an action brings in and takes out.\<close>

definition added :: "action \<Rightarrow> tptr multiset" where
  "added a = (case a of Add i t \<Rightarrow> {#t#} | _ \<Rightarrow> {#})"

definition finished :: "action \<Rightarrow> 'f system \<Rightarrow> tptr multiset" where
  "finished a = (\<lambda>(s, pend). case a of
     Finish_by i \<Rightarrow> (case running_on i s of None \<Rightarrow> {#} | Some t \<Rightarrow> {#t#}) | _ \<Rightarrow> {#})"

section \<open>The invariant\<close>

text \<open>
  A processer that is not stopped and has no deferred work left; the tasks in one place each, live
  and not in the pool, with at most \<open>N\<close> tasks in all; requests whose results name their task, on a
  table whose timeouts are not negative.
\<close>

definition loop_ok :: "('f, 'c, 'z) proc_scheme \<Rightarrow> bool" where
  "loop_ok p \<longleftrightarrow> \<not> stop p \<and> LastScheToDos p = [] \<and> lfq_invar (runnableQueue p) \<and>
     (\<forall>t. cur p = Coroutine t \<longrightarrow> runningTask p = Some t \<or> runningTask p = None)"

definition tasks_ok :: "nat \<Rightarrow> 'f pool \<Rightarrow> tptr multiset \<Rightarrow> bool" where
  "tasks_ok N pl M \<longleftrightarrow> pool_inv pl \<and> (\<forall>t. count M t \<le> 1) \<and> set_mset M \<subseteq> dom (store pl) \<and>
     set_mset M \<inter> set (idle pl) = {} \<and> (\<forall>t \<in># M. is_ptr t) \<and>
     length (idle pl) + size M \<le> N \<and> N \<le> lfq_room"

definition patient :: "hooks \<Rightarrow> bool" where
  "patient h \<longleftrightarrow> (\<forall>q d. descs h q = Some d \<longrightarrow> 0 \<le> sint (recvTimeout d) \<and> 0 \<le> sint (sendTimeout d))"

definition names_task :: "engine \<Rightarrow> ref \<Rightarrow> bool" where
  "names_task e r \<longleftrightarrow> user_data (results e r) = of_nat r"

definition io_ok :: "'f system \<Rightarrow> bool" where
  "io_ok = (\<lambda>(s, pend). lfq_invar (ioQueue s) \<and> patient (hks s) \<and>
     (\<forall>c \<in> set (lfq_contents (ioQueue s)). descs (hks s) (io_fdPtr c) \<noteq> None \<and>
        names_task (ioEngine s) (io_res c)) \<and>
     finite pend \<and> (\<forall>p \<in> pend. p < next_data (ioEngine s) \<and> rdata (ioEngine s) p \<noteq> None \<and>
        (\<forall>r \<in># waited_by (ioEngine s) p. names_task (ioEngine s) r)))"

definition sys_ok :: "nat \<Rightarrow> 'f system \<Rightarrow> bool" where
  "sys_ok N x \<longleftrightarrow> (case x of (s, pend) \<Rightarrow> processers s \<noteq> [] \<and> length (processers s) < 2 ^ 64 \<and>
     \<not> stopped s \<and> (\<forall>p \<in> set (processers s). loop_ok p) \<and> tasks_ok N (sharedPool s) (places (s, pend)) \<and>
     io_ok (s, pend))"

text \<open>One action: it returns, keeps the invariant, and moves tasks without losing or doubling one.\<close>

definition moves_on :: "nat \<Rightarrow> (tptr \<Rightarrow> bool) \<Rightarrow> action \<Rightarrow> 'f system \<Rightarrow> bool" where
  "moves_on N small a x \<longleftrightarrow> (\<exists>y. sys_step small a x = Inr y \<and> sys_ok (N + size (added a)) y \<and>
     places y + finished a x = places x + added a)"


section \<open>The code of one thread\<close>

lemma on_cpu_simps [simp]: "cur p = Main \<Longrightarrow> on_cpu p = {#}" "cur p = Coroutine t \<Longrightarrow> on_cpu p = {#t#}"
  by (simp_all add: on_cpu_def)

lemma held_views [simp]:
  "held (proc.truncate p) = held p" "loop_ok (proc.truncate p) = loop_ok p"
  "held (enter i s) = held (processers s ! i)" "loop_ok (enter i s) = loop_ok (processers s ! i)"
  by (simp_all add: held_def on_cpu_def loop_ok_def)

lemma loop_runs:
  fixes p :: "'f thread"
  assumes "loop_ok p" "cur p = Main"
  shows "\<exists>r p'. Start_iter cs p = Inr (r, p') \<and> loop_ok p' \<and> held p' = held p \<and>
    taskPool p' = taskPool p \<and> getScheduler p' = getScheduler p \<and>
    queue p' = tl (queue p) \<and> cur p' = next_ctl (queue p)"
proof (cases "queue p")
  case Nil
  have p: "lfq_invar (runnableQueue p)" "\<not> stop p" "LastScheToDos p = []"
    using assms(1) by (simp_all add: loop_ok_def)
  obtain q where q: "pop_runnable p = Inr (None, p\<lparr>runnableQueue := q\<rparr>)" "lfq_invar q" "lfq_contents q = []"
    using pop_runnable_Nil [OF p(1) Nil] by blast
  let ?p1 = "p\<lparr>runnableQueue := q, proc_status := Waiting\<rparr>"
  obtain q' where q': "pop_runnable ?p1 = Inr (None, ?p1\<lparr>runnableQueue := q'\<rparr>)" "lfq_invar q'"
    "lfq_contents q' = []"
    using pop_runnable_Nil [of ?p1] q by auto
  have "Start_iter cs p = Inr (Parked, ?p1\<lparr>runnableQueue := q', runningTask := None\<rparr>)"
    using p(2) q(1) q'(1) by (simp add: Start_iter_def Wait_enter_def)
  then show ?thesis using assms(2) Nil p q'(2,3) by (simp add: loop_ok_def held_def next_ctl_def)
next
  case (Cons u us)
  have p: "lfq_invar (runnableQueue p)" "\<not> stop p" "LastScheToDos p = []"
    using assms(1) by (simp_all add: loop_ok_def)
  obtain q where q: "pop_runnable p = Inr (Some u, p\<lparr>runnableQueue := q\<rparr>)" "lfq_invar q" "lfq_contents q = us"
    using pop_runnable_Cons [OF p(1) Cons] by blast
  have "Start_iter cs p = Inr (Ran, p\<lparr>runnableQueue := q, runningTask := Some u, cur := Coroutine u\<rparr>)"
    using p q(1) by (cases p) (simp add: Start_iter_def Swap_to_def AfterLastSche_def)
  then show ?thesis using assms(2) Cons p q(2,3) by (simp add: loop_ok_def held_def next_ctl_def)
qed

lemma yield_moves:
  fixes p :: "'f thread"
  assumes "loop_ok p" "cur p = Coroutine t" "runningTask p = Some t"
    and "store (taskPool p) t = Some tk" "status tk = Runnable" "size (held p) \<le> lfq_room"
  shows "\<exists>p'. Yield_cur cs p = Inr p' \<and> loop_ok p' \<and> held p' = held p \<and>
    taskPool p' = taskPool p \<and> getScheduler p' = getScheduler p \<and>
    (\<forall>u us. queue p = u # us \<longrightarrow> queue p' = us @ [t] \<and> cur p' = Coroutine u)"
proof -
  have p: "lfq_invar (runnableQueue p)" "\<not> stop p" "LastScheToDos p = []"
    using assms(1) by (simp_all add: loop_ok_def)
  have room: "length (queue p) < lfq_room" using assms(2,6) by (simp add: held_def)
  let ?p1 = "p\<lparr>runningTask := None\<rparr>"
  show ?thesis
  proof (cases "queue p")
    case Nil
    with Yield_runnable_alone [of ?p1 t tk cs] p assms(4,5) obtain q where
      "Yield_body cs Runnable t ?p1 = Inr (?p1\<lparr>runnableQueue := q, runningTask := None\<rparr>)"
      "lfq_invar q" "lfq_contents q = []" by auto
    with Yield_cur_running [OF assms(3,4), of cs] assms(2,5) p Nil show ?thesis
      by (simp add: loop_ok_def held_def)
  next
    case (Cons u us)
    with Yield_runnable_switch [of ?p1 u us cs t] p room obtain q where
      "Yield_body cs Runnable t ?p1 = Inr (?p1\<lparr>runnableQueue := q, runningTask := Some u,
         cur := Coroutine u\<rparr>)" "lfq_invar q" "lfq_contents q = us @ [t]" by auto
    with Yield_cur_running [OF assms(3,4), of cs] assms(2,5) p Cons show ?thesis
      by (simp add: loop_ok_def held_def)
  qed
qed

lemma held_next:
  assumes "lfq_contents (runnableQueue p') = tl (queue p)" "cur p' = next_ctl (queue p)" "cur p = Coroutine t"
  shows "held p' + {#t#} = held p"
  using assms by (cases "queue p") (simp_all add: held_def next_ctl_def)

lemma release_tasks:
  assumes "tasks_ok N pl M" "t \<in># M" "store pl t = Some tk"
  shows "\<exists>pl'. Release_checked small t (put_task t (tk\<lparr>status := Done\<rparr>) pl) = Inr pl' \<and>
    tasks_ok N pl' (M - {#t#})"
proof -
  let ?pl = "put_task t (tk\<lparr>status := Done\<rparr>) pl"
  have M: "pool_inv pl" "count M t \<le> 1" "set_mset M \<subseteq> dom (store pl)" "set_mset M \<inter> set (idle pl) = {}"
    "length (idle pl) + size M \<le> N" "N \<le> lfq_room"
    using assms(1) by (auto simp: tasks_ok_def)
  have sz: "size M = Suc (size (M - {#t#}))" using assms(2) by (metis insert_DiffM size_add_mset)
  have "pool_inv ?pl" "t \<notin> set (idle ?pl)" "store ?pl t \<noteq> None" "length (idle ?pl) < lfq_room"
    using M assms(2) sz pool_inv_put_task by (auto simp: put_task_def idle_def)
  from Release_checked_inv [OF this, of small] obtain pl' where
    r: "Release_checked small t ?pl = Inr pl'" "pool_inv pl'" "set (idle pl') \<subseteq> insert t (set (idle pl))"
      "dom (store ?pl) - {t} \<subseteq> dom (store pl')" by auto
  have t: "t \<notin># M - {#t#}" using M(2) by (simp add: not_in_iff)
  have sub: "u \<in># M \<and> u \<noteq> t" if "u \<in># M - {#t#}" for u using that t by (metis in_diffD)
  have "length (idle pl') = card (set (idle pl'))" using r(2) by (simp add: pool_inv_def idle_def distinct_card)
  also have "\<dots> \<le> card (insert t (set (idle pl)))" by (rule card_mono) (use r(3) in simp_all)
  also have "\<dots> \<le> Suc (length (idle pl))"
    by (metis card_insert_le_m1 card_length diff_Suc_1 le_SucI card_insert_if finite_set Suc_le_mono order_trans)
  finally have len: "length (idle pl') \<le> Suc (length (idle pl))" .
  have "tasks_ok N pl' (M - {#t#})" unfolding tasks_ok_def
  proof (intro conjI allI ballI)
    show "count (M - {#t#}) u \<le> 1" for u using assms(1) by (auto simp: tasks_ok_def intro: le_trans [OF diff_le_self])
    show "set_mset (M - {#t#}) \<subseteq> dom (store pl')"
      using sub M(3) r(4) by (fastforce simp: put_task_def)
    show "set_mset (M - {#t#}) \<inter> set (idle pl') = {}" using sub M(4) r(3) by blast
    show "is_ptr u" if "u \<in># M - {#t#}" for u using sub [OF that] assms(1) by (auto simp: tasks_ok_def)
    show "length (idle pl') + size (M - {#t#}) \<le> N" using len sz M(5) by linarith
  qed (rule r(2) M(6))+
  with r(1) show ?thesis by blast
qed

lemma finish_moves:
  fixes p :: "'f thread"
  assumes "loop_ok p" "cur p = Coroutine t" "runningTask p = Some t"
    and M: "tasks_ok N (taskPool p) M" "t \<in># M"
  shows "\<exists>p'. TaskFunc_end (Yield_cur (io_calls small)) t p = Inr p' \<and> loop_ok p' \<and>
    held p' + {#t#} = held p \<and> tasks_ok N (taskPool p') (M - {#t#}) \<and> getScheduler p' = getScheduler p \<and>
    queue p' = tl (queue p) \<and> cur p' = next_ctl (queue p)"
proof -
  have p: "lfq_invar (runnableQueue p)" "\<not> stop p" "LastScheToDos p = []"
    using assms(1) by (simp_all add: loop_ok_def)
  obtain tk where tk: "store (taskPool p) t = Some tk" using M by (auto simp: tasks_ok_def)
  let ?d = "tk\<lparr>status := Done\<rparr>"
  let ?p1 = "p\<lparr>taskPool := put_task t ?d (taskPool p)\<rparr>"
  obtain pl where pl: "Release_checked (small t) t (put_task t ?d (taskPool p)) = Inr pl"
    "tasks_ok N pl (M - {#t#})" using release_tasks [OF M tk] by blast
  have st: "store (taskPool ?p1) t = Some ?d" by (simp add: put_task_def)
  have "\<exists>q. Yield_body (io_calls small) Done t (?p1\<lparr>runningTask := None\<rparr>) =
      Inr ((?p1\<lparr>runningTask := None\<rparr>)\<lparr>runnableQueue := q, taskPool := pl,
        runningTask := next_running (queue p), cur := next_ctl (queue p)\<rparr>) \<and>
    lfq_invar q \<and> lfq_contents q = tl (queue p)"
    using Yield_done [of "?p1\<lparr>runningTask := None\<rparr>" t ?d "io_calls small" pl] p st pl(1)
    by (simp add: io_calls_def)
  then obtain q where "Yield_body (io_calls small) Done t (?p1\<lparr>runningTask := None\<rparr>) =
      Inr ((?p1\<lparr>runningTask := None\<rparr>)\<lparr>runnableQueue := q, taskPool := pl,
        runningTask := next_running (queue p), cur := next_ctl (queue p)\<rparr>)"
    "lfq_invar q" "lfq_contents q = tl (queue p)" by blast
  moreover have "TaskFunc_end (Yield_cur (io_calls small)) t p =
      Yield_body (io_calls small) Done t (?p1\<lparr>runningTask := None\<rparr>)"
    using Yield_cur_running [of ?p1 t ?d "io_calls small"] assms(3) tk st
    by (simp add: TaskFunc_end_def set_status_def get_task_def)
  ultimately show ?thesis using p pl(2) assms(2)
    by (auto simp: loop_ok_def held_def next_ctl_def next_running_def split: list.splits)
qed


section \<open>Actions of a processer\<close>

lemma sys_okD:
  assumes "sys_ok N (s, pend)"
  shows "processers s \<noteq> []" "length (processers s) < 2 ^ 64" "\<not> stopped s"
    "p \<in> set (processers s) \<Longrightarrow> loop_ok p" "i < length (processers s) \<Longrightarrow> loop_ok (processers s ! i)"
    "tasks_ok N (sharedPool s) (places (s, pend))" "io_ok (s, pend)"
  using assms by (auto simp: sys_ok_def)

lemma nth_subset_sum: "i < length xs \<Longrightarrow> f (xs ! i) \<subseteq># sum_list (map f xs)"
proof (induction xs arbitrary: i)
  case (Cons x xs)
  then show ?case by (cases i) (auto intro: subset_mset.order_trans [OF _ mset_subset_eq_add_right])
qed simp

lemma held_le_places: "i < length (processers s) \<Longrightarrow> held (processers s ! i) \<subseteq># places (s, pend)"
  unfolding places_def prod.case
  by (rule subset_mset.order_trans [OF nth_subset_sum]) (simp_all add: add.assoc)

lemma held_update:
  "i < length ps \<Longrightarrow> sum_list (map held (ps[i := p])) + held (ps ! i) = sum_list (map held ps) + held p"
  by (rule sum_list_update_add)

lemma running_onD:
  assumes "running_on i s = Some t"
  shows "i < length (processers s)" "cur (processers s ! i) = Coroutine t"
    "runningTask (processers s ! i) = Some t"
  using assms by (auto simp: running_on_def split: ctl.splits if_splits)

lemma running_held: "running_on i s = Some t \<Longrightarrow> t \<in># held (processers s ! i)"
  using running_onD [of i s t] by (simp add: held_def)

lemma running_in_places: "running_on i s = Some t \<Longrightarrow> t \<in># places (s, pend)"
  using running_held [of i s t] held_le_places [of i s pend] running_onD(1) [of i s t]
  by (meson mset_subset_eqD)

text \<open>Code that changes its processer and the pool only.\<close>

lemma thread_moves:
  assumes ok: "sys_ok N (s, pend)" and i: "i < length (processers s)"
    and p: "getScheduler p = s" "loop_ok p" "held p + F = held (processers s ! i)"
    and M: "tasks_ok N (taskPool p) (places (s, pend) - F)"
  shows "sys_ok N (leave i p, pend) \<and> places (leave i p, pend) + F = places (s, pend)"
proof -
  let ?s = "leave i p"
  have sel: "processers ?s = (processers s)[i := proc.truncate p]" "sharedPool ?s = taskPool p"
    "stopped ?s = stopped s" "ioQueue ?s = ioQueue s" "ioEngine ?s = ioEngine s" "hks ?s = hks s"
    by (simp_all add: leave_def p(1))
  have "sum_list (map held (processers ?s)) + F + held (processers s ! i) =
      sum_list (map held (processers s)) + held (processers s ! i)"
    using held_update [OF i, of "proc.truncate p"] p(3) by (simp add: sel add.commute add.left_commute)
  then have pl: "places (?s, pend) + F = places (s, pend)"
    by (simp add: places_def sel add.commute add.left_commute)
  then have "places (?s, pend) = places (s, pend) - F" by (metis add_diff_cancel_right')
  then have "tasks_ok N (sharedPool ?s) (places (?s, pend))" using M by (simp add: sel)
  moreover have "io_ok (?s, pend)" using sys_okD(7) [OF ok] by (simp add: io_ok_def sel)
  moreover have "\<forall>x \<in> set (processers ?s). loop_ok x"
    using sys_okD(4) [OF ok] p(2) by (auto simp: sel dest!: subsetD [OF set_update_subset_insert])
  ultimately have "sys_ok N (?s, pend)" using sys_okD(1-3) [OF ok] by (simp add: sys_ok_def sel)
  with pl show ?thesis by blast
qed

lemma run_loop_moves_on:
  assumes ok: "sys_ok N (s, pend)" and a: "act_ok (Run_loop i) (s, pend)"
  shows "moves_on N small (Run_loop i) (s, pend)"
proof -
  have i: "i < length (processers s)" "cur (processers s ! i) = Main" using a by (simp_all add: act_ok_def)
  have "loop_ok (enter i s)" "cur (enter i s) = Main" using sys_okD(5) [OF ok i(1)] i(2) by simp_all
  from loop_runs [OF this, of "io_calls small"] obtain r p where
    p: "Start_iter (io_calls small) (enter i s) = Inr (r, p)" "loop_ok p" "held p = held (processers s ! i)"
      "taskPool p = sharedPool s" "getScheduler p = s" by auto
  have "sys_ok N (leave i p, pend) \<and> places (leave i p, pend) + {#} = places (s, pend)"
    by (rule thread_moves [OF ok i(1) p(5,2)]) (use p sys_okD(6) [OF ok] in simp_all)
  with p(1) show ?thesis
    by (simp add: moves_on_def sys_step_def on_thread_def finished_def added_def)
qed

lemma yield_moves_on:
  assumes ok: "sys_ok N (s, pend)" and a: "act_ok (Yield_by i) (s, pend)"
  shows "moves_on N small (Yield_by i) (s, pend)"
proof -
  obtain t tk where r: "running_on i s = Some t" and tk: "store (sharedPool s) t = Some tk" "status tk = Runnable"
    using a by (auto simp: act_ok_def split: option.splits)
  note i = running_onD [OF r]
  have "size (held (processers s ! i)) \<le> lfq_room"
    using size_mset_mono [OF held_le_places [OF i(1), of pend]] sys_okD(6) [OF ok] by (simp add: tasks_ok_def)
  then have "\<exists>p. Yield_cur (io_calls small) (enter i s) = Inr p \<and> loop_ok p \<and> held p = held (enter i s) \<and>
      taskPool p = taskPool (enter i s) \<and> getScheduler p = getScheduler (enter i s) \<and>
      (\<forall>u us. queue (enter i s) = u # us \<longrightarrow> queue p = us @ [t] \<and> cur p = Coroutine u)"
    using sys_okD(5) [OF ok i(1)] i tk by (intro yield_moves [where t = t and tk = tk]) simp_all
  then obtain p where p: "Yield_cur (io_calls small) (enter i s) = Inr p" "loop_ok p"
    "held p = held (processers s ! i)" "taskPool p = sharedPool s" "getScheduler p = s" by auto
  have "sys_ok N (leave i p, pend) \<and> places (leave i p, pend) + {#} = places (s, pend)"
    by (rule thread_moves [OF ok i(1) p(5,2)]) (use p sys_okD(6) [OF ok] in simp_all)
  with p(1) r show ?thesis
    by (simp add: moves_on_def sys_step_def with_task_def on_thread_def finished_def added_def)
qed

lemma finish_moves_on:
  assumes ok: "sys_ok N (s, pend)" and a: "act_ok (Finish_by i) (s, pend)"
  shows "moves_on N small (Finish_by i) (s, pend)"
proof -
  obtain t where r: "running_on i s = Some t" using a by (auto simp: act_ok_def)
  note i = running_onD [OF r]
  have "\<exists>p. TaskFunc_end (Yield_cur (io_calls small)) t (enter i s) = Inr p \<and> loop_ok p \<and>
      held p + {#t#} = held (enter i s) \<and> tasks_ok N (taskPool p) (places (s, pend) - {#t#}) \<and>
      getScheduler p = getScheduler (enter i s) \<and> queue p = tl (queue (enter i s)) \<and>
      cur p = next_ctl (queue (enter i s))"
    using sys_okD(5,6) [OF ok] i running_in_places [OF r] by (intro finish_moves) simp_all
  then obtain p where p: "TaskFunc_end (Yield_cur (io_calls small)) t (enter i s) = Inr p" "loop_ok p"
    "held p + {#t#} = held (processers s ! i)" "tasks_ok N (taskPool p) (places (s, pend) - {#t#})"
    "getScheduler p = s" by auto
  from thread_moves [OF ok i(1) p(5,2,3,4)] p(1) r show ?thesis
    by (simp add: moves_on_def sys_step_def with_task_def on_thread_def finished_def added_def)
qed


section \<open>A blocking call\<close>

lemma names_task_set [simp]:
  "names_task (set_user_data r (of_nat r) e) r' \<longleftrightarrow> r' = r \<or> names_task e r'"
  "waited_by (set_user_data r v e) = waited_by e" "rdata (set_user_data r v e) = rdata e"
  "next_data (set_user_data r v e) = next_data e"
  by (auto simp: names_task_def set_user_data_def waited_by_def fun_eq_iff)

lemma tasks_ok_status:
  assumes "tasks_ok N pl M" "store pl t = Some tk"
  shows "tasks_ok N (put_task t (tk\<lparr>status := st\<rparr>) pl) M"
  using assms pool_inv_put_task [of pl] by (auto simp: tasks_ok_def put_task_def idle_def)

lemma queue_room:
  assumes ok: "sys_ok N (s, pend)" and r: "running_on i s = Some t"
  shows "length (lfq_contents (ioQueue s)) < lfq_room"
proof -
  note i = running_onD [OF r]
  have "1 \<le> size (held (processers s ! i))" using i by (simp add: held_def)
  also have "\<dots> \<le> size (sum_list (map held (processers s)))"
    by (rule size_mset_mono [OF nth_subset_sum [OF i(1)]])
  finally have "Suc (length (lfq_contents (ioQueue s))) \<le> size (places (s, pend))"
    by (simp add: places_def)
  then show ?thesis using sys_okD(6) [OF ok] by (simp add: tasks_ok_def)
qed

lemma call_moves_on:
  assumes ok: "sys_ok N (s, pend)" and a: "act_ok (Call_by i f) (s, pend)"
  shows "moves_on N small (Call_by i f) (s, pend)"
proof -
  obtain t where r: "running_on i s = Some t" using a by (auto simp: act_ok_def)
  obtain ro where ro: "route_of f (hks s) = Inr ro" using a by (cases "route_of f (hks s)") (auto simp: act_ok_def)
  note i = running_onD [OF r]
  let ?p = "enter i s"
  show ?thesis
  proof (cases ro)
    case Direct
    have "sys_ok N (leave i ?p, pend) \<and> places (leave i ?p, pend) + {#} = places (s, pend)"
      by (rule thread_moves [OF ok i(1)]) (use sys_okD(5,6) [OF ok] i(1) in simp_all)
    with r ro Direct show ?thesis
      by (simp add: moves_on_def sys_step_def with_task_def on_thread_def co_call_def finished_def added_def)
  next
    case (Async req ts)
    obtain tk where tk: "store (sharedPool s) t = Some tk"
      using sys_okD(6) [OF ok] running_in_places [OF r, of pend] by (auto simp: tasks_ok_def)
    have lp: "loop_ok (processers s ! i)" using sys_okD(5) [OF ok i(1)] .
    have io: "lfq_invar (ioQueue s)" "patient (hks s)"
      "c \<in> set (lfq_contents (ioQueue s)) \<Longrightarrow> descs (hks s) (io_fdPtr c) \<noteq> None \<and> names_task (ioEngine s) (io_res c)"
      "finite pend" "x \<in> pend \<Longrightarrow> x < next_data (ioEngine s) \<and> rdata (ioEngine s) x \<noteq> None \<and>
        (\<forall>r \<in># waited_by (ioEngine s) x. names_task (ioEngine s) r)" for c x
      using sys_okD(7) [OF ok] by (auto simp: io_ok_def)
    have co: "in_coroutine ?p" using lp i by (simp add: in_coroutine_def loop_ok_def)
    from co_call_suspends [OF co, of t tk f req ts small t] i tk io(1) queue_room [OF ok r] ro Async
    obtain q qi b where c: "co_call small t f ?p = Inr (True, suspended t tk t q qi ?p)"
      "get_fd (fd_of f) (hks s) = Inr (Some b)" "lfq_invar q" "lfq_contents q = tl (queue (processers s ! i))"
      "lfq_invar qi" "lfq_contents qi = lfq_contents (ioQueue s) @ [\<lparr>io_fun = f, io_fdPtr = b, io_res = t\<rparr>]"
      by auto
    have b: "descs (hks s) b \<noteq> None"
      using route_desc [of f "hks s" req ts] ro Async c(2) by (auto simp: get_desc_def split: option.splits)
    let ?p' = "suspended t tk t q qi ?p" and ?e = "set_user_data t (of_nat t) (ioEngine s)"
    let ?s = "leave i ?p'"
    have sel: "processers ?s = (processers s)[i := proc.truncate ?p']" "stopped ?s = stopped s"
      "sharedPool ?s = put_task t (tk\<lparr>status := Block\<rparr>) (sharedPool s)" "ioQueue ?s = qi"
      "ioEngine ?s = ?e" "hks ?s = hks s"
      by (simp_all add: leave_def suspended_def)
    have h: "held ?p' + {#t#} = held (processers s ! i)" "loop_ok ?p'"
      using c(3,4) i lp by (auto simp: held_def suspended_def next_ctl_def next_running_def loop_ok_def
        split: list.splits)
    have "sum_list (map held (processers ?s)) + {#t#} + held (processers s ! i) =
        sum_list (map held (processers s)) + held (processers s ! i)"
      using held_update [OF i(1), of "proc.truncate ?p'"] h(1) by (simp add: sel add.commute add.left_commute)
    then have "sum_list (map held (processers ?s)) + {#t#} = sum_list (map held (processers s))"
      by (rule add_right_imp_eq)
    then have pl: "places (?s, pend) = places (s, pend)"
      by (simp add: places_def sel c(6) flip: add.assoc)
    have "tasks_ok N (sharedPool ?s) (places (?s, pend))"
      unfolding pl sel by (rule tasks_ok_status [OF sys_okD(6) [OF ok] tk])
    moreover have "io_ok (?s, pend)"
      using io b c(5,6) by (auto simp: io_ok_def sel)
    moreover have "\<forall>x \<in> set (processers ?s). loop_ok x"
      using sys_okD(4) [OF ok] h(2) by (auto simp: sel dest!: subsetD [OF set_update_subset_insert])
    ultimately have "sys_ok N (?s, pend)" using sys_okD(1-3) [OF ok] by (simp add: sys_ok_def sel)
    with pl c(1) r show ?thesis
      by (simp add: moves_on_def sys_step_def with_task_def on_thread_def finished_def added_def)
  qed
qed


section \<open>The I/O threads\<close>

lemma split_timeout_nonneg:
  assumes "0 \<le> sint us"
  shows "0 \<le>s tv_sec (split_timeout us)" "0 \<le>s tv_nsec (split_timeout us)"
proof -
  have up: "sint us < 2 ^ 63" using sint_lt [of us] by simp
  have d: "sint us sdiv 1000000 = sint us div 1000000" "sint us smod 1000000 = sint us mod 1000000"
    using sdiv_smod_nonneg [OF assms] by simp_all
  have "0 \<le> sint us div 1000000" "sint us div 1000000 \<le> sint us"
    using assms zdiv_mono2 [of "sint us" 1 1000000] by (simp_all add: pos_imp_zdiv_nonneg_iff)
  moreover have m: "0 \<le> sint us mod 1000000" "sint us mod 1000000 < 1000000" by simp_all
  ultimately have "sint (word_of_int (sint us div 1000000) :: i64) = sint us div 1000000"
    "sint (word_of_int (sint us mod 1000000 * 1000) :: i64) = sint us mod 1000000 * 1000"
    using up by (intro sint_i64; simp)+
  then show "0 \<le>s tv_sec (split_timeout us)" "0 \<le>s tv_nsec (split_timeout us)"
    using \<open>0 \<le> sint us div 1000000\<close> m(1)
    by (simp_all only: split_timeout_def timespec.select_convs d word_sle_eq sint_0)
qed

lemma Exec_free:
  assumes "0 \<le>s tv_sec ts" "0 \<le>s tv_nsec ts"
  shows "\<exists>e'. Exec True True req r ts e = Inr (True, e') \<and> results e' = results e \<and>
    next_data e < next_data e' \<and> (\<forall>p < next_data e. rdata e' p = rdata e p) \<and>
    (\<forall>p \<in> {next_data e..<next_data e'}. rdata e' p \<noteq> None) \<and>
    (\<Sum>p\<in>{next_data e..<next_data e'}. waited_by e' p) = {#r#}"
proof (cases "0 <s tv_sec ts \<or> 0 <s tv_nsec ts")
  case True
  with assms show ?thesis
    by (auto simp: Exec_def new_data_def Submit_def Let_def waited_by_def atLeastLessThanSuc)
next
  case False
  with assms show ?thesis
    by (auto simp: Exec_def new_data_def Submit_def Let_def waited_by_def atLeastLessThanSuc)
qed

lemma patient_timeout:
  assumes "patient h" "descs h q = Some d"
  shows "0 \<le>s tv_sec (split_timeout (GetSocketTimeout w d)) \<and>
    0 \<le>s tv_nsec (split_timeout (GetSocketTimeout w d))"
  using assms split_timeout_nonneg by (auto simp: patient_def GetSocketTimeout_def)

text \<open>What a queued request does when it is taken: it submits one operation, and at most the offset of
  its descriptor moves.\<close>

definition submits :: "nat \<Rightarrow> ref \<Rightarrow> hooked \<Rightarrow> engine \<Rightarrow> hooks \<Rightarrow> bool" where
  "submits q r f e h \<longleftrightarrow> (\<exists>e' h' req ts. run_hooked True True q r f e h = Inr (e', h') \<and>
     0 \<le>s tv_sec ts \<and> 0 \<le>s tv_nsec ts \<and> Exec True True req r ts e = Inr (True, e') \<and>
     patient h' \<and> dom (descs h') = dom (descs h))"

lemma submits_done:
  assumes "run_hooked True True q r f e h = done_with h (Exec True True req r ts e)"
    and "0 \<le>s tv_sec ts \<and> 0 \<le>s tv_nsec ts" "patient h"
  shows "submits q r f e h"
proof -
  obtain e' where "Exec True True req r ts e = Inr (True, e')" using Exec_free assms(2) by blast
  moreover from this have "run_hooked True True q r f e h = Inr (e', h)"
    using assms(1) by (simp add: done_with_def)
  ultimately show ?thesis using assms(2,3) unfolding submits_def by blast
qed

lemma submits_advance:
  assumes "run_hooked True True q r f e h = bindE (Exec True True req r no_timeout e) (\<lambda>(b, e').
      Inr (e', put_desc q (advance (ret (results e' r)) d) h))"
    and "patient h" "descs h q = Some d"
  shows "submits q r f e h"
proof -
  have nt: "0 \<le>s tv_sec no_timeout" "0 \<le>s tv_nsec no_timeout" by (simp_all add: no_timeout_def)
  obtain e' where "Exec True True req r no_timeout e = Inr (True, e')" using Exec_free nt by blast
  moreover from this have "run_hooked True True q r f e h =
      Inr (e', put_desc q (advance (ret (results e' r)) d) h)" using assms(1) by simp
  moreover have "patient (put_desc q (advance v d) h)"
    "dom (descs (put_desc q (advance v d) h)) = dom (descs h)" for v
    using assms(2,3) by (auto simp: patient_def put_desc_def advance_def)
  ultimately show ?thesis using nt unfolding submits_def by blast
qed

lemma run_hooked_free:
  assumes p: "patient h" and d: "descs h q = Some d"
  shows "submits q r f e h"
proof -
  have nt: "0 \<le>s tv_sec no_timeout \<and> 0 \<le>s tv_nsec no_timeout" by (simp add: no_timeout_def)
  note tm = patient_timeout [OF p d]
  have gd: "get_desc q h = Inr d" using d by (simp add: get_desc_def)
  show ?thesis
  proof (cases f)
    case (H_connect fd addr len)
    then show ?thesis by (intro submits_done [OF _ nt p]) (simp add: Connect_def)
  next
    case (H_accept4 fd addr lenp flags)
    then show ?thesis by (intro submits_done [OF _ nt p]) (simp add: Accept_def)
  next
    case (H_read fd buf n)
    then show ?thesis using gd
      by (cases "fdType d") (auto simp: Read_def Recv_def intro: submits_advance [OF _ p d] submits_done [OF _ tm p])
  next
    case (H_write fd buf n)
    then show ?thesis using gd
      by (cases "fdType d") (auto simp: Write_def Send_def intro: submits_advance [OF _ p d] submits_done [OF _ tm p])
  next
    case (H_recv fd buf len flags)
    then show ?thesis using gd by (intro submits_done [OF _ tm p]) (simp add: Recv_def)
  next
    case (H_send fd buf len flags)
    then show ?thesis using gd by (intro submits_done [OF _ tm p]) (simp add: Send_def)
  next
    case (H_recvmsg fd msg flags)
    then show ?thesis using gd by (intro submits_done [OF _ tm p]) (simp add: Recvmsg_def)
  next
    case (H_sendmsg fd msg flags)
    then show ?thesis using gd by (intro submits_done [OF _ tm p]) (simp add: Sendmsg_def)
  qed
qed

lemma pending_after:
  assumes "finite pend" "\<And>p. p \<in> pend \<Longrightarrow> p < n" "\<And>p. p < n \<Longrightarrow> rdata e' p = rdata e p"
    and "(\<Sum>p\<in>{n..<m}. waited_by e' p) = W"
  shows "(\<Sum>p\<in>pend \<union> {n..<m}. waited_by e' p) = (\<Sum>p\<in>pend. waited_by e p) + W"
proof -
  have "pend \<inter> {n..<m} = {}" using assms(2) by fastforce
  then have "(\<Sum>p\<in>pend \<union> {n..<m}. waited_by e' p) = (\<Sum>p\<in>pend. waited_by e' p) + W"
    using assms(1,4) by (simp add: sum.union_disjoint)
  moreover have "(\<Sum>p\<in>pend. waited_by e' p) = (\<Sum>p\<in>pend. waited_by e p)"
    by (rule sum.cong) (use assms(2,3) in \<open>auto simp: waited_by_def\<close>)
  ultimately show ?thesis by simp
qed

lemma submit_moves_on:
  assumes ok: "sys_ok N (s, pend)"
  shows "moves_on N small Submit_one (s, pend)"
proof -
  have io: "lfq_invar (ioQueue s)" "patient (hks s)"
      "c \<in> set (lfq_contents (ioQueue s)) \<Longrightarrow> descs (hks s) (io_fdPtr c) \<noteq> None \<and> names_task (ioEngine s) (io_res c)"
      "finite pend" "x \<in> pend \<Longrightarrow> x < next_data (ioEngine s) \<and> rdata (ioEngine s) x \<noteq> None \<and>
        (\<forall>r \<in># waited_by (ioEngine s) x. names_task (ioEngine s) r)" for c x
    using sys_okD(7) [OF ok] by (auto simp: io_ok_def)
  show ?thesis
  proof (cases "lfq_contents (ioQueue s)")
    case Nil
    from lfq.pop_Nil_law [OF io(1) Nil] obtain q where
      q: "lfq_pop (ioQueue s) = Inr (None, q)" "lfq_invar q" "lfq_contents q = []" by auto
    from lfq.pop_Nil_law [OF q(2,3)] obtain q' where
      q': "lfq_pop q = Inr (None, q')" "lfq_invar q'" "lfq_contents q' = []" by auto
    let ?s = "s\<lparr>ioWait := True, ioQueue := q'\<rparr>"
    have "IOSubmit_round (run_io True True) s = Inr (Parked, ?s)"
      using sys_okD(3) [OF ok] q(1) q'(1) by (simp add: IOSubmit_round_def)
    moreover have "places (?s, pend) = places (s, pend)" using Nil q'(3) by (simp add: places_def)
    moreover from this have "sys_ok N (?s, pend)" using ok io q' by (simp add: sys_ok_def io_ok_def)
    ultimately show ?thesis by (simp add: moves_on_def sys_step_def finished_def added_def)
  next
    case (Cons c cs)
    from IOSubmit_round_runs [OF sys_okD(3) [OF ok] io(1) Cons, where run = "run_io True True"]
    obtain q where q: "IOSubmit_round (run_io True True) s =
        bindE (run_io True True c (s\<lparr>ioQueue := q\<rparr>)) (\<lambda>s'. Inr (Ran, s'))" "lfq_invar q" "lfq_contents q = cs"
      by blast
    obtain d where d: "descs (hks s) (io_fdPtr c) = Some d" using io(3) [of c] Cons by auto
    obtain e' h' req ts where
      e: "run_hooked True True (io_fdPtr c) (io_res c) (io_fun c) (ioEngine s) (hks s) = Inr (e', h')"
      "0 \<le>s tv_sec ts" "0 \<le>s tv_nsec ts" "Exec True True req (io_res c) ts (ioEngine s) = Inr (True, e')"
      "patient h'" "dom (descs h') = dom (descs (hks s))"
      using run_hooked_free [OF io(2) d, of "io_res c" "io_fun c" "ioEngine s"] unfolding submits_def by blast
    let ?n = "next_data (ioEngine s)" and ?r = "io_res c"
    from Exec_free [OF e(2,3), of req ?r "ioEngine s"] e(4) have ex: "results e' = results (ioEngine s)"
      "?n < next_data e'" "\<And>p. p < ?n \<Longrightarrow> rdata e' p = rdata (ioEngine s) p"
      "\<And>p. p \<in> {?n..<next_data e'} \<Longrightarrow> rdata e' p \<noteq> None"
      "(\<Sum>p\<in>{?n..<next_data e'}. waited_by e' p) = {#?r#}" by auto
    let ?s = "s\<lparr>ioQueue := q, ioEngine := e', hks := h'\<rparr>" and ?pend = "pend \<union> {?n..<next_data e'}"
    have step: "IOSubmit_round (run_io True True) s = Inr (Ran, ?s)"
      using q(1) e(1) by (simp add: run_io_def)
    have "(\<Sum>p\<in>?pend. waited_by e' p) = (\<Sum>p\<in>pend. waited_by (ioEngine s) p) + {#?r#}"
      by (rule pending_after) (use io(4,5) ex in auto)
    then have pl: "places (?s, ?pend) = places (s, pend)" using Cons q(3) by (simp add: places_def)
    have nt: "names_task e' r = names_task (ioEngine s) r" for r using ex(1) by (simp add: names_task_def)
    have new: "names_task (ioEngine s) x" if "p \<in> {?n..<next_data e'}" "x \<in># waited_by e' p" for p x
    proof -
      have "x \<in># (\<Sum>p\<in>{?n..<next_data e'}. waited_by e' p)" using that by (auto simp: set_mset_sum)
      then show ?thesis using ex(5) io(3) [of c] Cons by simp
    qed
    have old: "waited_by e' p = waited_by (ioEngine s) p" if "p \<in> pend" for p
      using ex(3) io(5) [OF that] by (simp add: waited_by_def)
    have "io_ok (?s, ?pend)" unfolding io_ok_def prod.case
    proof (intro conjI ballI)
      show "p < next_data (ioEngine ?s)" if "p \<in> ?pend" for p using that io(5) ex(2) by fastforce
      show "rdata (ioEngine ?s) p \<noteq> None" if "p \<in> ?pend" for p using that io(5) [of p] ex(3,4) [of p] by auto
      show "names_task (ioEngine ?s) r" if "p \<in> ?pend" "r \<in># waited_by (ioEngine ?s) p" for p r
        using that io(5) [of p] new old [of p] nt by auto
      show "descs (hks ?s) (io_fdPtr x) \<noteq> None" if "x \<in> set (lfq_contents (ioQueue ?s))" for x
        using that io(3) [of x] Cons q(3) e(6) by auto
      show "names_task (ioEngine ?s) (io_res x)" if "x \<in> set (lfq_contents (ioQueue ?s))" for x
        using that io(3) [of x] Cons q(3) nt by auto
    qed (use q(2) e(5) io(4) in simp_all)
    then have "sys_ok N (?s, ?pend)" using ok pl by (simp add: sys_ok_def)
    with pl step show ?thesis by (simp add: moves_on_def sys_step_def finished_def added_def)
  qed
qed


section \<open>Completions, balancing, new tasks\<close>

lemma AddTask_one:
  assumes "loop_ok p" "length (queue p) < lfq_room"
  shows "\<exists>q st. AddTask_list [t] p = Inr (p\<lparr>runnableQueue := q, proc_status := st\<rparr>) \<and>
    lfq_invar q \<and> lfq_contents q = queue p @ [t]"
proof -
  have "lfq_invar (runnableQueue p)" using assms(1) by (simp add: loop_ok_def)
  from lfq.push_law [OF this assms(2), of t] obtain q where
    "lfq_push t (runnableQueue p) = Inr q" "lfq_invar q" "lfq_contents q = queue p @ [t]" by blast
  then show ?thesis
    by (intro exI [of _ q] exI [of _ Running] exI [of _ "proc_status p"])
      (cases "proc_status p"; cases p; simp add: AddTask_list_def WakeUp_def Let_def)
qed

text \<open>A task that enters the queue of processer \<open>i\<close>.\<close>

lemma enqueue_moves:
  assumes ok: "\<And>p. p \<in> set (processers s) \<Longrightarrow> loop_ok p" and i: "i < length (processers s)"
    and room: "size (sum_list (map held (processers s))) < lfq_room"
  shows "\<exists>s'. on_processer i (AddTask_list [t]) s = Inr s' \<and>
    (\<exists>ps. s' = s\<lparr>processers := ps\<rparr> \<and> length ps = length (processers s) \<and> (\<forall>p \<in> set ps. loop_ok p) \<and>
      sum_list (map held ps) = sum_list (map held (processers s)) + {#t#})"
proof -
  let ?p = "processers s ! i"
  have lp: "loop_ok ?p" using ok i by simp
  have "length (queue ?p) \<le> size (held ?p)" by (simp add: held_def)
  also have "\<dots> < lfq_room" using size_mset_mono [OF nth_subset_sum [OF i, of held]] room by simp
  finally obtain q st where q: "AddTask_list [t] ?p = Inr (?p\<lparr>runnableQueue := q, proc_status := st\<rparr>)"
    "lfq_invar q" "lfq_contents q = queue ?p @ [t]" using AddTask_one [OF lp, of t] by blast
  let ?p' = "?p\<lparr>runnableQueue := q, proc_status := st\<rparr>"
  let ?ps = "(processers s)[i := ?p']"
  have h: "held ?p' = held ?p + {#t#}" using q(3) by (simp add: held_def on_cpu_def)
  have "sum_list (map held ?ps) + held ?p = (sum_list (map held (processers s)) + {#t#}) + held ?p"
    unfolding held_update [OF i, of ?p'] h by (simp only: ac_simps)
  then have "sum_list (map held ?ps) = sum_list (map held (processers s)) + {#t#}"
    by (rule add_right_imp_eq)
  moreover have "loop_ok ?p'" using lp q(2) by (simp add: loop_ok_def)
  then have "\<forall>p \<in> set ?ps. loop_ok p" using ok by (auto dest!: subsetD [OF set_update_subset_insert])
  ultimately show ?thesis using q(1)
    by (intro exI [of _ "s\<lparr>processers := ?ps\<rparr>"] conjI exI [of _ ?ps]) (simp_all add: on_processer_def)
qed

lemma held_room:
  assumes "sys_ok N (s, pend)"
  shows "size (sum_list (map held (processers s))) + length (lfq_contents (ioQueue s)) +
    size (\<Sum>p\<in>pend. waited_by (ioEngine s) p) \<le> lfq_room"
  using sys_okD(6) [OF assms] by (simp add: tasks_ok_def places_def)

lemma add_moves_on:
  assumes ok: "sys_ok N (s, pend)" and a: "act_ok (Add i t) (s, pend)" and N: "N < lfq_room"
  shows "moves_on N small (Add i t) (s, pend)"
proof -
  have g: "i < length (processers s)" "store (sharedPool s) t \<noteq> None" "t \<notin> set (idle (sharedPool s))"
    "t \<notin># places (s, pend)" "is_ptr t"
    using a by (simp_all add: act_ok_def)
  have "size (sum_list (map held (processers s))) < lfq_room"
    using sys_okD(6) [OF ok] N by (simp add: tasks_ok_def places_def)
  from enqueue_moves [OF sys_okD(4) [OF ok] g(1) this, of t] obtain ps where
    ps: "on_processer i (AddTask_list [t]) s = Inr (s\<lparr>processers := ps\<rparr>)" "length ps = length (processers s)"
      "\<forall>p \<in> set ps. loop_ok p" "sum_list (map held ps) = sum_list (map held (processers s)) + {#t#}" by blast
  let ?s = "s\<lparr>processers := ps\<rparr>"
  have pl: "places (?s, pend) = places (s, pend) + {#t#}" by (simp add: places_def ps(4))
  have "tasks_ok (Suc N) (sharedPool s) (places (s, pend) + {#t#})"
    using sys_okD(6) [OF ok] g N count_inI [of "places (s, pend)" t] by (auto simp: tasks_ok_def)
  moreover have "io_ok (?s, pend)" using sys_okD(7) [OF ok] by (simp add: io_ok_def)
  moreover have "ps \<noteq> []" using sys_okD(1) [OF ok] ps(2) by auto
  ultimately have "sys_ok (Suc N) (?s, pend)" using sys_okD(2,3) [OF ok] ps(2,3) pl by (simp add: sys_ok_def)
  with ps(1) pl show ?thesis by (simp add: moves_on_def sys_step_def finished_def added_def)
qed

lemma wait_skips:
  assumes "\<forall>(u, r) \<in> set skips. (u = - ECANCELED \<or> u = - ENOENT) \<and>
      (\<exists>d. rdata e r = Some d \<and> rd_type d = TIMEOUT)"
  shows "WaitResult (map (\<lambda>(u, r). Cqe u r) skips @ evs) e = WaitResult evs e"
  using assms by (induction skips) (auto simp: on_cqe_def ETIME_def ECANCELED_def ENOENT_def)

lemma waited_by_cases:
  "rdata e p = Some d \<Longrightarrow> waited_by e p \<noteq> {#} \<longleftrightarrow> rd_type d = NORMAL"
  "rdata e p = Some d \<Longrightarrow> rd_type d = NORMAL \<Longrightarrow> waited_by e p = {#rd_res d#}"
  by (simp_all add: waited_by_def)

text \<open>What a round of the wait thread finds: the task that waits for the entry \<open>p\<close>, and its result.\<close>

lemma complete_answers:
  assumes ok: "sys_ok N (s, pend)" and a: "act_ok (Complete skips v p) (s, pend)"
  shows "\<exists>r. waited_by (ioEngine s) p = {#r#} \<and> names_task (ioEngine s) r \<and>
    unat (of_nat r :: 64 word) = r \<and>
    (\<forall>x \<in> snd ` set skips. rdata (ioEngine s) x \<noteq> None \<and> waited_by (ioEngine s) x = {#}) \<and>
    WaitResult (map (\<lambda>(u, r). Cqe u r) (skips @ [(v, p)])) (ioEngine s) =
      Inr (Some (of_nat r), [], snd (finish_data p r v (ioEngine s)))"
proof -
  let ?e = "ioEngine s"
  have g: "p \<in> pend" "waited_by ?e p \<noteq> {#}" "\<And>u r. (u, r) \<in> set skips \<Longrightarrow> r \<in> pend \<and> waited_by ?e r = {#} \<and>
      (u = - ECANCELED \<or> u = - ENOENT)"
    using a by (auto simp: act_ok_def)
  have io: "finite pend" "x \<in> pend \<Longrightarrow> rdata ?e x \<noteq> None \<and> (\<forall>r \<in># waited_by ?e x. names_task ?e r)" for x
    using sys_okD(7) [OF ok] by (auto simp: io_ok_def)
  obtain d where d: "rdata ?e p = Some d" using io(2) [OF g(1)] by blast
  have wp: "rd_type d = NORMAL" "waited_by ?e p = {#rd_res d#}" using waited_by_cases [OF d] g(2) by auto
  have nm: "names_task ?e (rd_res d)" using io(2) [OF g(1)] wp(2) by simp
  have sk: "rdata ?e x \<noteq> None" "waited_by ?e x = {#}" if "x \<in> snd ` set skips" for x
    using that g(3) io(2) by auto
  have "\<exists>d. rdata ?e x = Some d \<and> rd_type d = TIMEOUT" if "x \<in> snd ` set skips" for x
    using sk [OF that] by (auto simp: waited_by_def split: if_splits) (metis op_type.exhaust)
  then have "WaitResult (map (\<lambda>(u, r). Cqe u r) (skips @ [(v, p)])) ?e = WaitResult [Cqe v p] ?e"
    using wait_skips [of skips ?e "[Cqe v p]"] g(3) by fastforce
  also have "\<dots> = Inr (Some (of_nat (rd_res d)), [], snd (finish_data p (rd_res d) v ?e))"
    using d wp(1) nm by (simp add: on_cqe_def finish_data_def names_task_def)
  finally have "WaitResult (map (\<lambda>(u, r). Cqe u r) (skips @ [(v, p)])) ?e = \<dots>" .
  moreover have "(\<Sum>x\<in>pend. waited_by ?e x) = waited_by ?e p + (\<Sum>x\<in>pend - {p}. waited_by ?e x)"
    by (rule sum.remove [OF io(1) g(1)])
  then have "rd_res d \<in># places (s, pend)" using wp(2) by (simp add: places_def)
  then have "unat (of_nat (rd_res d) :: 64 word) = rd_res d"
    using sys_okD(6) [OF ok] by (simp add: tasks_ok_def is_ptr_def)
  ultimately show ?thesis using wp(2) nm sk by (intro exI [of _ "rd_res d"]) auto
qed

lemma complete_moves_on:
  assumes ok: "sys_ok N (s, pend)" and a: "act_ok (Complete skips v p) (s, pend)"
  shows "moves_on N small (Complete skips v p) (s, pend)"
proof -
  let ?e = "ioEngine s" and ?skip = "snd ` set skips"
  have g: "p \<in> pend" using a by (simp add: act_ok_def)
  have io: "lfq_invar (ioQueue s)" "patient (hks s)"
      "c \<in> set (lfq_contents (ioQueue s)) \<Longrightarrow> descs (hks s) (io_fdPtr c) \<noteq> None \<and> names_task ?e (io_res c)"
      "finite pend" "x \<in> pend \<Longrightarrow> x < next_data ?e \<and> rdata ?e x \<noteq> None \<and>
        (\<forall>r \<in># waited_by ?e x. names_task ?e r)" for c x
    using sys_okD(7) [OF ok] by (auto simp: io_ok_def)
  obtain r where r: "waited_by ?e p = {#r#}" "unat (of_nat r :: 64 word) = r"
    "\<And>x. x \<in> ?skip \<Longrightarrow> waited_by ?e x = {#}"
    "WaitResult (map (\<lambda>(u, r). Cqe u r) (skips @ [(v, p)])) ?e = Inr (Some (of_nat r), [], snd (finish_data p r v ?e))"
    using complete_answers [OF ok a] by blast
  let ?e' = "snd (finish_data p r v ?e)"
  let ?pend = "pend - ?skip - {p}"
  have e': "waited_by ?e' x = waited_by ?e x" "rdata ?e' x = rdata ?e x" if "x \<noteq> p" for x
    using that by (simp_all add: waited_by_def finish_data_def)
  have nt: "names_task ?e' x = names_task ?e x" for x by (simp add: names_task_def finish_data_def)
  have nd: "next_data ?e' = next_data ?e" by (simp add: finish_data_def)
  have sum: "(\<Sum>x\<in>pend. waited_by ?e x) = (\<Sum>x\<in>?pend. waited_by ?e' x) + {#r#}"
  proof -
    have "(\<Sum>x\<in>pend. waited_by ?e x) = waited_by ?e p + (\<Sum>x\<in>pend - {p}. waited_by ?e x)"
      by (rule sum.remove [OF io(4) g])
    also have "(\<Sum>x\<in>pend - {p}. waited_by ?e x) = (\<Sum>x\<in>?pend. waited_by ?e x)"
      by (rule sum.mono_neutral_right) (use io(4) r(3) in auto)
    also have "\<dots> = (\<Sum>x\<in>?pend. waited_by ?e' x)" by (rule sum.cong) (use e' in auto)
    finally show ?thesis using r(1) by simp
  qed
  let ?s1 = "s\<lparr>ioEngine := ?e', idx_list := idx_list s + 1\<rparr>"
  let ?i = "unat (idx_list s mod of_nat (length (processers s)))"
  have i: "?i < length (processers ?s1)"
    using sys_okD(1,2) [OF ok] by (simp add: unat_mod unat_of_nat_u64)
  have room: "size (sum_list (map held (processers ?s1))) < lfq_room"
    using held_room [OF ok] sum by simp
  from enqueue_moves [of ?s1, OF _ i room, of r] sys_okD(4) [OF ok] obtain ps where
    ps: "on_processer ?i (AddTask_list [r]) ?s1 = Inr (?s1\<lparr>processers := ps\<rparr>)"
      "length ps = length (processers s)" "\<forall>p \<in> set ps. loop_ok p"
      "sum_list (map held ps) = sum_list (map held (processers s)) + {#r#}" by auto
  let ?s = "?s1\<lparr>processers := ps\<rparr>"
  have pl: "places (?s, ?pend) = places (s, pend)" by (simp add: places_def ps(4) sum)
  have "IOWait_round (map (\<lambda>(u, r). Cqe u r) (skips @ [(v, p)])) s = Inr ([], ?s)"
    using ps(1) sys_okD(1) [OF ok] unfolding IOWait_round_def r(4) by (simp add: sched_AddTask_list_def r(2))
  moreover have "io_ok (?s, ?pend)"
    using io e' nt nd by (auto simp: io_ok_def)
  moreover have "ps \<noteq> []" using sys_okD(1) [OF ok] ps(2) by auto
  ultimately have "sys_ok N (?s, ?pend)" "IOWait_round (map (\<lambda>(u, r). Cqe u r) (skips @ [(v, p)])) s = Inr ([], ?s)"
    using sys_okD(2,3,6) [OF ok] ps(2,3) pl by (simp_all add: sys_ok_def)
  with pl show ?thesis by (simp add: moves_on_def sys_step_def finished_def added_def)
qed


text \<open>Balancing changes the queues of the processers and nothing else that their loops depend on.\<close>

definition loop_view :: "('f, 'c, 'z) proc_scheme \<Rightarrow> bool \<times> tptr option \<times> 'c todo list \<times> ctl" where
  "loop_view p = (stop p, runningTask p, LastScheToDos p, cur p)"

lemma map_view_update: "f p = f (ps ! i) \<Longrightarrow> map f (ps[i := p]) = map f ps"
  by (cases "i < length ps") (simp_all add: map_update list_update_same_conv list_update_beyond)

lemma Steal_view: "Steal n p = Inr (ts, p') \<Longrightarrow> loop_view p' = loop_view p"
  by (auto simp: Steal_def loop_view_def bindE_eq_Inr)

lemma AddTask_view: "AddTask_list ts p = Inr p' \<Longrightarrow> loop_view p' = loop_view p"
  by (auto simp: AddTask_list_def WakeUp_def loop_view_def bindE_eq_Inr Let_def split: if_splits)

lemma balance_dst_view:
  "balance_dst avg d srcs ps = Inr ps' \<Longrightarrow> map loop_view ps' = map loop_view ps"
proof (induction srcs arbitrary: ps)
  case (Cons src srcs)
  let ?n = "stealNum avg (task_size (ps ! src))"
  show ?case
  proof (cases "f32 (of_int (task_size (ps ! src))) \<le> high avg \<or>
      low avg \<le> f32 (of_int (task_size (ps ! d))) \<or> \<not> 0 < ?n")
    case True
    with Cons.prems have "ps' = ps \<or> balance_dst avg d srcs ps = Inr ps'"
      by (simp add: Let_def split: if_splits)
    then show ?thesis using Cons.IH by blast
  next
    case False
    with Cons.prems obtain ts p where st: "Steal (nat ?n) (ps ! src) = Inr (ts, p)"
      and r: "(if ts \<noteq> [] then bindE (AddTask_list ts (ps[src := p] ! d)) (\<lambda>p'.
          balance_dst avg d srcs (ps[src := p, d := p'])) else balance_dst avg d srcs (ps[src := p])) = Inr ps'"
      by (cases "Steal (nat ?n) (ps ! src)") (simp_all add: Let_def split: if_splits prod.splits)
    have v: "map loop_view (ps[src := p]) = map loop_view ps"
      by (rule map_view_update [OF Steal_view [OF st]])
    show ?thesis
    proof (cases "ts = []")
      case True
      with r have "balance_dst avg d srcs (ps[src := p]) = Inr ps'" by simp
      from Cons.IH [OF this] v show ?thesis by simp
    next
      case False
      with r obtain p' where p': "AddTask_list ts (ps[src := p] ! d) = Inr p'"
        "balance_dst avg d srcs (ps[src := p, d := p']) = Inr ps'" by (auto simp: bindE_eq_Inr)
      from Cons.IH [OF p'(2)] map_view_update [OF AddTask_view [OF p'(1)]] v show ?thesis by simp
    qed
  qed
qed simp

lemma balance_fold_view:
  "foldE (\<lambda>d. balance_dst avg d srcs) ds ps = Inr ps' \<Longrightarrow> map loop_view ps' = map loop_view ps"
  by (induction ds arbitrary: ps) (auto simp: bindE_eq_Inr dest!: balance_dst_view)

lemma balance_view: "balance ps = Inr ps' \<Longrightarrow> map loop_view ps' = map loop_view ps"
  unfolding balance_def Let_def by (rule balance_fold_view)

lemma sum_held: "sum_list (map held ps) = all_tasks ps + sum_list (map on_cpu ps)"
  by (induction ps) (simp_all add: all_tasks_def held_def ac_simps)

lemma view_on_cpu:
  fixes ps ps' :: "('f, 'c, 'z) proc_scheme list"
  assumes v: "map loop_view ps' = map loop_view ps"
  shows "map on_cpu ps' = map on_cpu ps"
proof -
  let ?g = "\<lambda>(_, _, _, k). case k of Main \<Rightarrow> {#} | Coroutine t \<Rightarrow> {#t#}"
  have e: "map on_cpu xs = map ?g (map loop_view xs)" for xs :: "('f, 'c, 'z) proc_scheme list"
    by (simp add: on_cpu_def loop_view_def)
  show ?thesis unfolding e v ..
qed

lemma loop_ok_view: "loop_view p' = loop_view p \<Longrightarrow> loop_ok p \<Longrightarrow> lfq_invar (runnableQueue p') \<Longrightarrow> loop_ok p'"
  by (simp add: loop_view_def loop_ok_def)

lemma balance_moves_on:
  assumes ok: "sys_ok N (s, pend)"
  shows "moves_on N small Balance (s, pend)"
proof -
  have po: "procs_ok (processers s)"
    using sys_okD(4) [OF ok] held_room [OF ok] by (simp add: procs_ok_def loop_ok_def sum_held)
  from balance_moved [OF po] obtain ps where ps: "balance (processers s) = Inr ps" "procs_ok ps"
    "length ps = length (processers s)" "all_tasks ps = all_tasks (processers s)" by (auto simp: moved_def)
  note v = balance_view [OF ps(1)]
  let ?s = "s\<lparr>processers := ps\<rparr>"
  have "loop_ok (ps ! i)" if "i < length ps" for i
  proof (rule loop_ok_view)
    show "loop_view (ps ! i) = loop_view (processers s ! i)"
      using arg_cong [OF v, of "\<lambda>xs. xs ! i"] that ps(3) by simp
    show "loop_ok (processers s ! i)" using sys_okD(5) [OF ok] that ps(3) by simp
    show "lfq_invar (runnableQueue (ps ! i))" using ps(2) that by (simp add: procs_ok_def)
  qed
  then have l: "\<forall>p \<in> set ps. loop_ok p" by (auto simp: in_set_conv_nth)
  have pl: "places (?s, pend) = places (s, pend)"
    by (simp add: places_def sum_held ps(4) view_on_cpu [OF v])
  have "ps \<noteq> []" using sys_okD(1) [OF ok] ps(3) by auto
  moreover have "io_ok (?s, pend)" using sys_okD(7) [OF ok] by (simp add: io_ok_def)
  ultimately have "sys_ok N (?s, pend)"
    using sys_okD(2,3,6) [OF ok] l ps(3) pl by (simp add: sys_ok_def)
  moreover have "LoadBalance s = Inr ?s" using sys_okD(1) [OF ok] ps(1) by (simp add: LoadBalance_def)
  ultimately show ?thesis using pl by (simp add: moves_on_def sys_step_def finished_def added_def)
qed

lemma step_moves_on:
  assumes "sys_ok N x" "act_ok a x" "N + size (added a) \<le> lfq_room"
  shows "moves_on N small a x"
proof -
  obtain s pend where x: "x = (s, pend)" by force
  show ?thesis
  proof (cases a)
    case (Add i t)
    with assms show ?thesis unfolding x by (simp add: add_moves_on added_def)
  qed (use assms in \<open>auto simp: x intro: run_loop_moves_on yield_moves_on call_moves_on
      finish_moves_on submit_moves_on complete_moves_on balance_moves_on\<close>)
qed

section \<open>Runs\<close>

definition sys_run :: "(tptr \<Rightarrow> bool) \<Rightarrow> action list \<Rightarrow> 'f system \<Rightarrow> fault + 'f system" where
  "sys_run small = foldE (sys_step small)"

fun acts_ok :: "(tptr \<Rightarrow> bool) \<Rightarrow> action list \<Rightarrow> 'f system \<Rightarrow> bool" where
  "acts_ok small [] x = True"
| "acts_ok small (a # as) x \<longleftrightarrow> act_ok a x \<and>
     (case sys_step small a x of Inl e \<Rightarrow> True | Inr y \<Rightarrow> acts_ok small as y)"

text \<open>The tasks that are added and that finish in a run.\<close>

fun added_in :: "action list \<Rightarrow> tptr multiset" where
  "added_in [] = {#}"
| "added_in (a # as) = added a + added_in as"

fun finished_in :: "(tptr \<Rightarrow> bool) \<Rightarrow> action list \<Rightarrow> 'f system \<Rightarrow> tptr multiset" where
  "finished_in small [] x = {#}"
| "finished_in small (a # as) x = finished a x +
     (case sys_step small a x of Inl e \<Rightarrow> {#} | Inr y \<Rightarrow> finished_in small as y)"

lemma run_moves_on:
  assumes "sys_ok N x" "acts_ok small as x" "N + size (added_in as) \<le> lfq_room"
  shows "\<exists>y. sys_run small as x = Inr y \<and> sys_ok (N + size (added_in as)) y \<and>
    places y + finished_in small as x = places x + added_in as"
  using assms
proof (induction as arbitrary: N x)
  case Nil
  then show ?case by (simp add: sys_run_def)
next
  case (Cons a as)
  then obtain y where y: "sys_step small a x = Inr y" "sys_ok (N + size (added a)) y"
    "places y + finished a x = places x + added a"
    using step_moves_on [of N x a small] by (auto simp: moves_on_def)
  with Cons obtain z where z: "sys_run small as y = Inr z" "sys_ok (N + size (added a) + size (added_in as)) z"
    "places z + finished_in small as y = places y + added_in as" by fastforce
  have "places z + (finished a x + finished_in small as y) =
      finished a x + (places z + finished_in small as y)" by (simp only: ac_simps)
  also have "\<dots> = (places y + finished a x) + added_in as" by (simp only: z(3) ac_simps)
  also have "\<dots> = places x + (added a + added_in as)" by (simp only: y(3) ac_simps)
  finally have "places z + (finished a x + finished_in small as y) = places x + (added a + added_in as)" .
  with y(1) z(1,2) show ?case by (simp add: sys_run_def add.assoc)
qed

text \<open>A system before its first task: \<open>n\<close> processers that share the pool \<open>pl\<close>, nothing queued and nothing
  submitted.\<close>

definition sys_new ::
  "nat \<Rightarrow> tptr choice \<Rightarrow> io_call choice \<Rightarrow> 'f pool \<Rightarrow> hooks \<Rightarrow> (ref \<Rightarrow> result) \<Rightarrow> fault + 'f system" where
  "sys_new n ch chi pl h mem =
     bindE (Processer_new ch 0 pl) (\<lambda>p. bindE (lfq_new chi) (\<lambda>q.
       Inr (\<lparr>stopped = False, processers = map (\<lambda>i. p\<lparr>proc_id := of_nat i\<rparr>) [0..<n], tempTasks = [],
            idx_func = 0, idx_list = 0, ioWait = False, ioQueue = q,
            ioEngine = snd (engine_new (\<lambda>_ _. 0) 1024 None mem), sharedPool = pl, hks = h\<rparr>, {})))"

lemma lfq_new_law:
  fixes q :: "'a lfq"
  assumes q: "lfq_new ch = Inr q" "ch_data ch = None"
  shows "lfq_invar q \<and> lfq_contents q = []"
proof -
  from q(1) have "alloc_ok [] (ch_addr ch)"
    by (auto simp: lfq_new_def alloc_node_def alloc_ok_def Let_def split: if_splits)
  from lfq_new_rep [OF this q(2)] obtain q' :: "'a lfq" where "lfq_new ch = Inr q'" "lf_rep q' [ch_addr ch] []"
    by blast
  with q(1) have "lf_rep q [ch_addr ch] []" by simp
  then show ?thesis using rep_invar rep_contents by blast
qed

lemma sys_new_ok:
  fixes x :: "'f system"
  assumes x: "sys_new n ch chi pl h mem = Inr x" and n: "0 < n" "n < 2 ^ 64"
    and z: "ch_data ch = None" "ch_data chi = None"
    and pl: "pool_inv pl" "length (idle pl) \<le> lfq_room" "patient h"
  shows "sys_ok (length (idle pl)) x \<and> places x = {#}"
proof -
  obtain q :: "tptr lfq" where q: "lfq_new ch = Inr q"
    using x by (auto simp: sys_new_def Processer_new_def bindE_eq_Inr)
  obtain qi :: "io_call lfq" where qi: "lfq_new chi = Inr qi"
    using x by (auto simp: sys_new_def bindE_eq_Inr)
  have iq: "lfq_invar q" "lfq_contents q = []" "lfq_invar qi" "lfq_contents qi = []"
    using lfq_new_law [OF q z(1)] lfq_new_law [OF qi z(2)] by auto
  let ?p = "\<lambda>i. \<lparr>stop = False, runningTask = None, runnableQueue = q, LastScheToDos = [],
      proc_id = of_nat i, proc_status = Waiting, taskPool = pl, cur = Main\<rparr> :: ('f, io_call) proc"
  let ?s = "\<lparr>stopped = False, processers = map ?p [0..<n], tempTasks = [],
            idx_func = 0, idx_list = 0, ioWait = False, ioQueue = qi,
            ioEngine = snd (engine_new (\<lambda>_ _. 0) 1024 None mem), sharedPool = pl, hks = h\<rparr>"
  have x': "x = (?s, {})" using x q qi by (simp add: sys_new_def Processer_new_def)
  have hp: "held (?p i) = {#}" "loop_ok (?p i)" for i :: nat
    using iq by (simp_all add: held_def loop_ok_def)
  have "map held (map ?p [0..<n]) = map (\<lambda>_. {#}) [0..<n]" using hp(1) by simp
  then have "sum_list (map held (map ?p [0..<n])) = {#}" by (simp only: sum_list_0)
  then have "places x = {#}" using iq by (simp add: x' places_def)
  moreover from this have "sys_ok (length (idle pl)) x" using n pl iq hp(2) by (auto simp: x' sys_ok_def tasks_ok_def io_ok_def)
  ultimately show ?thesis by blast
qed

section \<open>Properties\<close>


definition sample_acts :: "action list" where
  "sample_acts = [Add 0 10, Run_loop 0, Call_by 0 (H_read 3 0x1000 512), Submit_one, Complete [] 512 0,
     Run_loop 0]"

definition sample_sys :: "fault + nat system" where
  "sample_sys = sys_new 1 \<lparr>ch_addr = 1, ch_data = None, ch_junk = 0, ch_spurious = False\<rparr>
     \<lparr>ch_addr = 1, ch_data = None, ch_junk = 0, ch_spurious = False\<rparr>
     (sample_pool [] 0 100 (\<lambda>_. Runnable)) (sample_hooks (FdDesc_new 3 tOther False))
     (\<lambda>_. \<lparr>user_data = 0, ret = 0\<rparr>)"

lemma sample_acts_ok:
  "case sample_sys of Inr x \<Rightarrow> acts_ok (\<lambda>_. True) sample_acts x | Inl _ \<Rightarrow> False"
  by code_simp


end
