(* ===== verification/Runtime_Fair.thy ===== *)
theory Runtime_Fair
  imports Runtime
begin

text \<open>
  Progress of the composed system: how each action changes the run queue of a processer. The actions
  by which a processer switches (\<open>dispatches\<close>) take the first task of its queue and run it; every other
  action but \<open>Balance\<close>, which may move a task to another processer, at most appends. So the position
  of a queued task only decreases, by one with each switch of its processer, and the result that a completed
  call has left for it stays as it is until the task runs.
\<close>

section \<open>Queues under actions\<close>

definition queue_of :: "nat \<Rightarrow> 'f system \<Rightarrow> tptr list" where
  "queue_of i x = queue (processers (fst x) ! i)"

definition control_of :: "nat \<Rightarrow> 'f system \<Rightarrow> ctl" where
  "control_of i x = cur (processers (fst x) ! i)"

definition result_of :: "tptr \<Rightarrow> 'f system \<Rightarrow> i32" where
  "result_of t x = ret (results (ioEngine (fst x)) t)"

definition procs_of :: "'f system \<Rightarrow> nat" where
  "procs_of x = length (processers (fst x))"

text \<open>The actions in which processer \<open>i\<close> turns to the next task.\<close>

definition dispatches :: "nat \<Rightarrow> action \<Rightarrow> 'f system \<Rightarrow> bool" where
  "dispatches i a x = (case a of
       Run_loop j \<Rightarrow> j = i | Yield_by j \<Rightarrow> j = i | Finish_by j \<Rightarrow> j = i
     | Call_by j f \<Rightarrow> j = i \<and> (case route_of f (hks (fst x)) of Inr (Async req ts) \<Rightarrow> True | _ \<Rightarrow> False)
     | _ \<Rightarrow> False)"

definition takes_first :: "nat \<Rightarrow> 'f system \<Rightarrow> 'f system \<Rightarrow> bool" where
  "takes_first i x y \<longleftrightarrow> (\<forall>u us. queue_of i x = u # us \<longrightarrow>
     control_of i y = Coroutine u \<and> (\<exists>new. queue_of i y = us @ new))"

definition appends :: "nat \<Rightarrow> 'f system \<Rightarrow> 'f system \<Rightarrow> bool" where
  "appends i x y \<longleftrightarrow> (\<exists>new. queue_of i y = queue_of i x @ new)"

definition flows :: "nat \<Rightarrow> action \<Rightarrow> 'f system \<Rightarrow> 'f system \<Rightarrow> bool" where
  "flows i a x y \<longleftrightarrow> procs_of y = procs_of x \<and>
     (if dispatches i a x then takes_first i x y else appends i x y)"

lemma appends_refl: "queue_of i y = queue_of i x \<Longrightarrow> appends i x y"
  by (simp add: appends_def)

lemmas view_defs = queue_of_def control_of_def result_of_def procs_of_def

text \<open>The thread of processer \<open>j\<close> runs code that leaves the other processers alone.\<close>

lemma thread_flows:
  assumes "i < length (processers s)" "processers (getScheduler p) = processers s"
    and "dispatches i a (s, pend) \<longleftrightarrow> j = i"
    and "\<And>u us. queue (processers s ! j) = u # us \<Longrightarrow> cur p = Coroutine u \<and> (\<exists>new. queue p = us @ new)"
  shows "flows i a (s, pend) (leave j p, pend')"
  using assms by (auto simp: flows_def takes_first_def appends_def view_defs leave_def nth_list_update)

lemma run_loop_flows:
  assumes ok: "sys_ok N (s, pend)" and a: "act_ok (Run_loop j) (s, pend)"
    and i: "i < length (processers s)" and y: "sys_step small (Run_loop j) (s, pend) = Inr y"
  shows "flows i (Run_loop j) (s, pend) y \<and> ioEngine (fst y) = ioEngine s"
proof -
  have j: "j < length (processers s)" "cur (processers s ! j) = Main" using a by (simp_all add: act_ok_def)
  have "loop_ok (enter j s)" "cur (enter j s) = Main" using sys_okD(5) [OF ok j(1)] j(2) by simp_all
  from loop_runs [OF this, of "io_calls small"] obtain r p where
    p: "Start_iter (io_calls small) (enter j s) = Inr (r, p)" "getScheduler p = s"
      "queue p = tl (queue (processers s ! j))" "cur p = next_ctl (queue (processers s ! j))" by auto
  have "flows i (Run_loop j) (s, pend) (leave j p, pend)"
    by (rule thread_flows [OF i])
      (use p(2-4) in \<open>auto simp: dispatches_def next_ctl_def\<close>)
  moreover have "y = (leave j p, pend)" using y p(1) by (simp add: sys_step_def on_thread_def)
  ultimately show ?thesis by (simp add: leave_def p(2))
qed

lemma yield_flows:
  assumes ok: "sys_ok N (s, pend)" and a: "act_ok (Yield_by j) (s, pend)"
    and i: "i < length (processers s)" and y: "sys_step small (Yield_by j) (s, pend) = Inr y"
  shows "flows i (Yield_by j) (s, pend) y \<and> ioEngine (fst y) = ioEngine s"
proof -
  obtain t tk where r: "running_on j s = Some t" and tk: "store (sharedPool s) t = Some tk" "status tk = Runnable"
    using a by (auto simp: act_ok_def split: option.splits)
  note j = running_onD [OF r]
  have "size (held (processers s ! j)) \<le> lfq_room"
    using size_mset_mono [OF held_le_places [OF j(1), of pend]] sys_okD(6) [OF ok] by (simp add: tasks_ok_def)
  then have "\<exists>p. Yield_cur (io_calls small) (enter j s) = Inr p \<and> loop_ok p \<and> held p = held (enter j s) \<and>
      taskPool p = taskPool (enter j s) \<and> getScheduler p = getScheduler (enter j s) \<and>
      (\<forall>u us. queue (enter j s) = u # us \<longrightarrow> queue p = us @ [t] \<and> cur p = Coroutine u)"
    using sys_okD(5) [OF ok j(1)] j tk by (intro yield_moves [where t = t and tk = tk]) simp_all
  then obtain p where p: "Yield_cur (io_calls small) (enter j s) = Inr p" "getScheduler p = s"
    "\<And>u us. queue (processers s ! j) = u # us \<Longrightarrow> queue p = us @ [t] \<and> cur p = Coroutine u" by auto
  have "flows i (Yield_by j) (s, pend) (leave j p, pend)"
    by (rule thread_flows [OF i]) (use p(2,3) in \<open>auto simp: dispatches_def\<close>)
  moreover have "y = (leave j p, pend)"
    using y p(1) r by (simp add: sys_step_def with_task_def on_thread_def)
  ultimately show ?thesis by (simp add: leave_def p(2))
qed

lemma finish_flows:
  assumes ok: "sys_ok N (s, pend)" and a: "act_ok (Finish_by j) (s, pend)"
    and i: "i < length (processers s)" and y: "sys_step small (Finish_by j) (s, pend) = Inr y"
  shows "flows i (Finish_by j) (s, pend) y \<and> ioEngine (fst y) = ioEngine s"
proof -
  obtain t where r: "running_on j s = Some t" using a by (auto simp: act_ok_def)
  note j = running_onD [OF r]
  have "\<exists>p. TaskFunc_end (Yield_cur (io_calls small)) t (enter j s) = Inr p \<and> loop_ok p \<and>
      held p + {#t#} = held (enter j s) \<and> tasks_ok N (taskPool p) (places (s, pend) - {#t#}) \<and>
      getScheduler p = getScheduler (enter j s) \<and> queue p = tl (queue (enter j s)) \<and>
      cur p = next_ctl (queue (enter j s))"
    using sys_okD(5,6) [OF ok] j running_in_places [OF r] by (intro finish_moves) simp_all
  then obtain p where p: "TaskFunc_end (Yield_cur (io_calls small)) t (enter j s) = Inr p" "getScheduler p = s"
    "queue p = tl (queue (processers s ! j))" "cur p = next_ctl (queue (processers s ! j))" by auto
  have "flows i (Finish_by j) (s, pend) (leave j p, pend)"
    by (rule thread_flows [OF i]) (use p(2-4) in \<open>auto simp: dispatches_def next_ctl_def\<close>)
  moreover have "y = (leave j p, pend)"
    using y p(1) r by (simp add: sys_step_def with_task_def on_thread_def)
  ultimately show ?thesis by (simp add: leave_def p(2))
qed

lemma call_flows:
  assumes ok: "sys_ok N (s, pend)" and a: "act_ok (Call_by j f) (s, pend)"
    and i: "i < length (processers s)" and y: "sys_step small (Call_by j f) (s, pend) = Inr y"
  shows "flows i (Call_by j f) (s, pend) y \<and> result_of t' y = result_of t' (s, pend)"
proof -
  obtain t where r: "running_on j s = Some t" using a by (auto simp: act_ok_def)
  obtain ro where ro: "route_of f (hks s) = Inr ro" using a by (cases "route_of f (hks s)") (auto simp: act_ok_def)
  note j = running_onD [OF r]
  let ?p = "enter j s"
  show ?thesis
  proof (cases ro)
    case Direct
    have "y = (leave j ?p, pend)" using y r ro Direct
      by (simp add: sys_step_def with_task_def on_thread_def co_call_def)
    then show ?thesis using ro Direct i
      by (cases "j = i") (auto simp: flows_def dispatches_def appends_def view_defs leave_def nth_list_update)
  next
    case (Async req ts)
    obtain tk where tk: "store (sharedPool s) t = Some tk"
      using sys_okD(6) [OF ok] running_in_places [OF r, of pend] by (auto simp: tasks_ok_def)
    have "in_coroutine ?p" using sys_okD(5) [OF ok j(1)] j by (simp add: in_coroutine_def loop_ok_def)
    moreover have "lfq_invar (ioQueue s)" using sys_okD(7) [OF ok] by (simp add: io_ok_def)
    ultimately obtain q qi where c: "co_call small t f ?p = Inr (True, suspended t tk t q qi ?p)"
      "lfq_contents q = tl (queue (processers s ! j))"
      using co_call_suspends [of ?p t tk f req ts small t] j tk queue_room [OF ok r] ro Async by auto
    let ?p' = "suspended t tk t q qi ?p"
    have "flows i (Call_by j f) (s, pend) (leave j ?p', pend)"
      by (rule thread_flows [OF i])
        (use c(2) ro Async in \<open>auto simp: suspended_def dispatches_def next_ctl_def\<close>)
    moreover have "y = (leave j ?p', pend)"
      using y c(1) r by (simp add: sys_step_def with_task_def on_thread_def)
    ultimately show ?thesis by (simp add: result_of_def leave_def suspended_def set_user_data_def)
  qed
qed

lemma submit_flows:
  assumes ok: "sys_ok N (s, pend)" and i: "i < length (processers s)"
    and y: "sys_step small Submit_one (s, pend) = Inr y"
  shows "flows i Submit_one (s, pend) y \<and> result_of t y = result_of t (s, pend)"
proof -
  have io: "lfq_invar (ioQueue s)" "patient (hks s)"
      "c \<in> set (lfq_contents (ioQueue s)) \<Longrightarrow> descs (hks s) (io_fdPtr c) \<noteq> None" for c
    using sys_okD(7) [OF ok] by (auto simp: io_ok_def)
  have "\<exists>r s'. IOSubmit_round (run_io True True) s = Inr (r, s') \<and> processers s' = processers s \<and>
    results (ioEngine s') = results (ioEngine s)"
  proof (cases "lfq_contents (ioQueue s)")
    case Nil
    from lfq.pop_Nil_law [OF io(1) Nil] obtain q where
      q: "lfq_pop (ioQueue s) = Inr (None, q)" "lfq_invar q" "lfq_contents q = []" by auto
    from lfq.pop_Nil_law [OF q(2,3)] show ?thesis
      using sys_okD(3) [OF ok] q(1) by (auto simp: IOSubmit_round_def)
  next
    case (Cons c cs)
    obtain d where d: "descs (hks s) (io_fdPtr c) = Some d" using io(3) [of c] Cons by auto
    obtain e' h' req ts where
      e: "run_hooked True True (io_fdPtr c) (io_res c) (io_fun c) (ioEngine s) (hks s) = Inr (e', h')"
      "0 \<le>s tv_sec ts" "0 \<le>s tv_nsec ts" "Exec True True req (io_res c) ts (ioEngine s) = Inr (True, e')"
      using run_hooked_free [OF io(2) d, of "io_res c" "io_fun c" "ioEngine s"] unfolding submits_def by blast
    have "results e' = results (ioEngine s)"
      using Exec_free [OF e(2,3), of req "io_res c" "ioEngine s"] e(4) by auto
    with IOSubmit_round_runs [OF sys_okD(3) [OF ok] io(1) Cons, where run = "run_io True True"] e(1)
    show ?thesis by (auto simp: run_io_def)
  qed
  with y show ?thesis
    by (auto simp: sys_step_def flows_def dispatches_def appends_def view_defs)
qed

text \<open>A task that enters a queue enters it at the end.\<close>

lemma AddTask_queue:
  assumes "loop_ok p" "length (queue p) < lfq_room" "AddTask_list [t] p = Inr p'"
  shows "queue p' = queue p @ [t]"
  using AddTask_one [OF assms(1,2), of t] assms(3) by auto

lemma queue_short:
  assumes "sys_ok N (s, pend)" "i < length (processers s)"
  shows "length (queue (processers s ! i)) \<le> size (places (s, pend))"
  using size_mset_mono [OF held_le_places [OF assms(2), of pend]] by (simp add: held_def)

lemma enqueue_flows:
  assumes "loop_ok (processers s ! j)" "length (queue (processers s ! j)) < lfq_room"
    and "on_processer j (AddTask_list [t]) s = Inr s'" "i < length (processers s)"
  shows "length (processers s') = length (processers s) \<and>
    (\<exists>new. queue (processers s' ! i) = queue (processers s ! i) @ new) \<and> ioEngine s' = ioEngine s"
  using assms AddTask_queue [OF assms(1,2)]
  by (cases "j = i") (auto simp: on_processer_def bindE_eq_Inr nth_list_update)

lemma add_flows:
  assumes ok: "sys_ok N (s, pend)" and a: "act_ok (Add j t) (s, pend)" and N: "N < lfq_room"
    and i: "i < length (processers s)" and y: "sys_step small (Add j t) (s, pend) = Inr y"
  shows "flows i (Add j t) (s, pend) y \<and> ioEngine (fst y) = ioEngine s"
proof -
  have j: "j < length (processers s)" using a by (simp add: act_ok_def)
  obtain s' where s': "on_processer j (AddTask_list [t]) s = Inr s'" "y = (s', pend)"
    using y by (auto simp: sys_step_def bindE_eq_Inr)
  have "length (queue (processers s ! j)) < lfq_room"
    using queue_short [OF ok j] sys_okD(6) [OF ok] N by (simp add: tasks_ok_def)
  from enqueue_flows [OF sys_okD(5) [OF ok j] this s'(1) i] show ?thesis
    by (simp add: s'(2) flows_def dispatches_def appends_def view_defs)
qed

text \<open>The processer whose turn it is for the next completion.\<close>

definition next_target :: "'f system \<Rightarrow> nat" where
  "next_target x = unat (idx_list (fst x) mod of_nat (procs_of x))"

lemma completed_waits:
  assumes "sys_ok N (s, pend)" "act_ok (Complete skips v p) (s, pend)"
  shows "(\<Sum>x\<in>pend. waited_by (ioEngine s) x) =
    waited_by (ioEngine s) p + (\<Sum>x\<in>pend - {p}. waited_by (ioEngine s) x)"
proof -
  have "p \<in> pend" "finite pend" using assms(2) sys_okD(7) [OF assms(1)] by (simp_all add: act_ok_def io_ok_def)
  then show ?thesis by (intro sum.remove)
qed

lemma complete_flows:
  assumes ok: "sys_ok N (s, pend)" and a: "act_ok (Complete skips v p) (s, pend)"
    and y: "sys_step small (Complete skips v p) (s, pend) = Inr y"
  shows "\<exists>r. waited_by (ioEngine s) p = {#r#} \<and> procs_of y = procs_of (s, pend) \<and>
    next_target (s, pend) < procs_of (s, pend) \<and>
    (\<forall>i < procs_of y. queue_of i y = queue_of i (s, pend) @ (if i = next_target (s, pend) then [r] else [])) \<and>
    (\<forall>t. result_of t y = (if t = r then v else result_of t (s, pend)))"
proof -
  let ?e = "ioEngine s" and ?k = "next_target (s, pend)"
  obtain r where r: "waited_by ?e p = {#r#}" "unat (of_nat r :: 64 word) = r"
    "WaitResult (map (\<lambda>(u, r). Cqe u r) (skips @ [(v, p)])) ?e = Inr (Some (of_nat r), [], snd (finish_data p r v ?e))"
    using complete_answers [OF ok a] by blast
  let ?s1 = "s\<lparr>ioEngine := snd (finish_data p r v ?e), idx_list := idx_list s + 1\<rparr>"
  have k: "?k < length (processers s)"
    using sys_okD(1,2) [OF ok] by (simp add: next_target_def procs_of_def unat_mod unat_of_nat_u64)
  obtain s' pend' where y': "on_processer ?k (AddTask_list [r]) ?s1 = Inr s'" "y = (s', pend')"
    using y sys_okD(1) [OF ok] r(2,3)
    by (auto simp: sys_step_def IOWait_round_def sched_AddTask_list_def next_target_def procs_of_def bindE_eq_Inr)
  have "size (sum_list (map held (processers s))) < lfq_room"
    using held_room [OF ok] completed_waits [OF ok a] r(1) by simp
  moreover have "length (queue (processers s ! ?k)) \<le> size (sum_list (map held (processers s)))"
    using size_mset_mono [OF nth_subset_sum [OF k, of held]] by (simp add: held_def)
  ultimately have room: "length (queue (processers ?s1 ! ?k)) < lfq_room" by simp
  obtain q where q: "AddTask_list [r] (processers s ! ?k) = Inr q" "processers s' = (processers s)[?k := q]"
    "ioEngine s' = ioEngine ?s1" using y'(1) by (auto simp: on_processer_def bindE_eq_Inr)
  have "queue q = queue (processers s ! ?k) @ [r]"
    using AddTask_queue [OF sys_okD(5) [OF ok k] _ q(1)] room by simp
  then have "\<forall>i < procs_of y. queue_of i y = queue_of i (s, pend) @ (if i = ?k then [r] else [])"
    using k q(2) by (auto simp: y'(2) queue_of_def procs_of_def nth_list_update)
  moreover have "\<forall>t. result_of t y = (if t = r then v else result_of t (s, pend))"
    by (auto simp: y'(2) q(3) result_of_def finish_data_def)
  ultimately show ?thesis using r(1) k q(2) by (intro exI [of _ r]) (simp add: y'(2) procs_of_def)
qed

text \<open>Every action but balancing: the queue of each processer, and the results of queued tasks.\<close>

lemma step_flows:
  assumes ok: "sys_ok N x" and a: "act_ok a x" "a \<noteq> Balance" "N + size (added a) \<le> lfq_room"
    and i: "i < procs_of x" and y: "sys_step small a x = Inr y"
  shows "flows i a x y \<and> (t \<in> set (queue_of i x) \<longrightarrow> result_of t y = result_of t x)"
proof -
  obtain s pend where x: "x = (s, pend)" by force
  have i': "i < length (processers s)" using i by (simp add: x procs_of_def)
  have eng: "result_of t y = result_of t x" if "ioEngine (fst y) = ioEngine s"
    using that by (simp add: result_of_def x)
  show ?thesis
  proof (cases a)
    case (Complete skips v p)
    obtain r where r: "waited_by (ioEngine s) p = {#r#}" "procs_of y = procs_of x"
      "\<forall>i < procs_of y. queue_of i y = queue_of i x @ (if i = next_target x then [r] else [])"
      "\<forall>t. result_of t y = (if t = r then v else result_of t x)"
      using complete_flows [OF ok [unfolded x]] a(1) y unfolding x Complete by blast
    have "count (places (s, pend)) r \<le> 1" using sys_okD(6) [OF ok [unfolded x]] by (simp add: tasks_ok_def)
    then have "r \<notin># sum_list (map held (processers s))"
      using completed_waits [OF ok [unfolded x] a(1) [unfolded x Complete]] r(1)
      unfolding not_in_iff by (simp add: places_def)
    moreover have "t \<in># sum_list (map held (processers s))" if "t \<in> set (queue_of i x)"
      using mset_subset_eqD [OF nth_subset_sum [OF i', of held]] that by (simp add: x queue_of_def held_def)
    ultimately have "t \<in> set (queue_of i x) \<longrightarrow> t \<noteq> r" by blast
    moreover have "flows i a x y"
      using r(2,3) i by (auto simp: flows_def appends_def Complete dispatches_def)
    ultimately show ?thesis using r(4) by simp
  next
    case Balance
    with a(2) show ?thesis by simp
  next
    case (Add j u)
    then have "N < lfq_room" using a(3) by (simp add: added_def)
    with Add show ?thesis using add_flows [OF ok [unfolded x] _ _ i'] a(1) y eng unfolding x by blast
  next
    case (Run_loop j)
    then show ?thesis using run_loop_flows [OF ok [unfolded x] _ i'] a(1) y eng unfolding x by blast
  next
    case (Yield_by j)
    then show ?thesis using yield_flows [OF ok [unfolded x] _ i'] a(1) y eng unfolding x by blast
  next
    case (Finish_by j)
    then show ?thesis using finish_flows [OF ok [unfolded x] _ i'] a(1) y eng unfolding x by blast
  next
    case (Call_by j f)
    then show ?thesis using call_flows [OF ok [unfolded x] _ i'] a(1) y unfolding x by blast
  next
    case Submit_one
    then show ?thesis using submit_flows [OF ok [unfolded x] i'] y unfolding x by blast
  qed
qed

lemma run_procs:
  assumes "sys_ok N x" "acts_ok small as x" "Balance \<notin> set as" "N + size (added_in as) \<le> lfq_room"
    and "0 < procs_of x" "sys_run small as x = Inr y"
  shows "procs_of y = procs_of x"
  using assms
proof (induction as arbitrary: N x)
  case Nil
  then show ?case by (simp add: sys_run_def)
next
  case (Cons a as)
  have ao: "act_ok a x" "a \<noteq> Balance" "N + size (added a) \<le> lfq_room" using Cons.prems by auto
  obtain z where z: "sys_step small a x = Inr z" "sys_ok (N + size (added a)) z"
    using step_moves_on [OF Cons.prems(1) ao(1,3), of small] by (auto simp: moves_on_def)
  have "procs_of z = procs_of x" using step_flows [OF Cons.prems(1) ao Cons.prems(5) z(1)] by (simp add: flows_def)
  moreover from this have "procs_of y = procs_of z"
    using Cons.prems z(1) by (intro Cons.IH [OF z(2)]) (simp_all add: sys_run_def)
  ultimately show ?case by simp
qed

section \<open>Progress\<close>

text \<open>How often processer \<open>i\<close> turns to its next task in a run.\<close>

fun turns :: "(tptr \<Rightarrow> bool) \<Rightarrow> nat \<Rightarrow> action list \<Rightarrow> 'f system \<Rightarrow> nat" where
  "turns small i [] x = 0"
| "turns small i (a # as) x = (if dispatches i a x then 1 else 0) +
     (case sys_step small a x of Inl e \<Rightarrow> 0 | Inr y \<Rightarrow> turns small i as y)"

lemma run_Cons: "sys_run small (a # as) x = bindE (sys_step small a x) (sys_run small as)"
  by (auto simp: sys_run_def bindE_def split: sum.splits)

lemma queued_runs:
  assumes "sys_ok N x" "acts_ok small as x" "Balance \<notin> set as" "N + size (added_in as) \<le> lfq_room"
    and "i < procs_of x" "queue_of i x = us @ t # vs" "length us < turns small i as x"
  shows "\<exists>pre post y. as = pre @ post \<and> sys_run small pre x = Inr y \<and> control_of i y = Coroutine t \<and>
    result_of t y = result_of t x"
  using assms
proof (induction as arbitrary: N x us vs)
  case Nil
  then show ?case by simp
next
  case (Cons a as)
  have ao: "act_ok a x" "a \<noteq> Balance" "N + size (added a) \<le> lfq_room" using Cons.prems by auto
  obtain y where y: "sys_step small a x = Inr y" "sys_ok (N + size (added a)) y"
    using step_moves_on [OF Cons.prems(1) ao(1,3), of small] by (auto simp: moves_on_def)
  have fl: "flows i a x y" "result_of t y = result_of t x"
    using step_flows [OF Cons.prems(1) ao Cons.prems(5) y(1), of t] Cons.prems(6) by simp_all
  have rest: "acts_ok small as y" "Balance \<notin> set as" "N + size (added a) + size (added_in as) \<le> lfq_room"
    "i < procs_of y" using Cons.prems y(1) fl(1) by (simp_all add: flows_def)
  have later: ?case if q: "queue_of i y = us' @ t # vs'" "length us' < turns small i as y" for us' vs'
  proof -
    from Cons.IH [OF y(2) rest q] obtain pre post z where
      "as = pre @ post" "sys_run small pre y = Inr z" "control_of i z = Coroutine t" "result_of t z = result_of t y"
      by blast
    then show ?thesis using y(1) fl(2) by (intro exI [of _ "a # pre"] exI [of _ post] exI [of _ z]) (simp add: run_Cons)
  qed
  show ?case
  proof (cases "dispatches i a x")
    case True
    then have tf: "takes_first i x y" using fl(1) by (simp add: flows_def)
    show ?thesis
    proof (cases us)
      case Nil
      then have "control_of i y = Coroutine t" using tf Cons.prems(6) by (simp add: takes_first_def)
      then show ?thesis using y(1) fl(2)
        by (intro exI [of _ "[a]"] exI [of _ as] exI [of _ y]) (simp add: run_Cons sys_run_def)
    next
      case (Cons u us')
      then obtain new where "queue_of i y = us' @ t # vs @ new"
        using tf Cons.prems(6) by (auto simp: takes_first_def)
      then show ?thesis using Cons Cons.prems(7) True y(1) by (intro later [of us' "vs @ new"]) simp_all
    qed
  next
    case False
    then obtain new where "queue_of i y = us @ t # vs @ new"
      using fl(1) Cons.prems(6) by (auto simp: flows_def appends_def)
    then show ?thesis using Cons.prems(7) False y(1) by (intro later [of us "vs @ new"]) simp_all
  qed
qed

lemma acts_ok_append:
  "acts_ok small (as @ bs) x \<longleftrightarrow> acts_ok small as x \<and>
     (case sys_run small as x of Inl e \<Rightarrow> True | Inr y \<Rightarrow> acts_ok small bs y)"
  by (induction as arbitrary: x) (auto simp: run_Cons sys_run_def bindE_def split: sum.splits)

lemma added_in_append [simp]: "added_in (as @ bs) = added_in as + added_in bs"
  by (induction as) (simp_all add: add.assoc)

section \<open>Properties\<close>

text \<open>C6: a completed call returns, in the runtime with the repaired \<open>Yield\<close> and \<open>Release\<close>
  (\<open>Yield_cur\<close>, \<open>Release_checked\<close>). After any actions since its start, when the wait thread takes
  the completion of an entry, the task that waits for it gets its result and enters the queue of
  one processer, and runs there with this result as soon as the processer has turned to its next
  task once more often than there were tasks in the queue, whichever of the runtime's actions but
  balancing, which may move the task to another processer, happen in between. The actions, before and
  after, are those of \<open>acts_ok\<close>: a full submission ring, a timeout that expires, a stop and a yield
  of a woken task are not among them, and the nodes of the queues are in memory that reads null.\<close>

theorem completed_call_returns:
  assumes "sys_new n ch chi pl h mem = Inr x\<^sub>0" "0 < n" "n < 2 ^ 64" "ch_data ch = None" "ch_data chi = None"
    and "pool_inv pl" "patient h"
    and "length (idle pl) + size (added_in (before @ as)) \<le> lfq_room"
    and "acts_ok small (before @ Complete skips v p # as) x\<^sub>0" "Balance \<notin> set as"
    and "sys_run small before x\<^sub>0 = Inr x" "sys_step small (Complete skips v p) x = Inr y"
    and "length (queue_of (next_target x) x) < turns small (next_target x) as y"
  shows "\<exists>t pre post z. waited_by (ioEngine (fst x)) p = {#t#} \<and> as = pre @ post \<and>
    sys_run small pre y = Inr z \<and> control_of (next_target x) z = Coroutine t \<and> result_of t z = v"
proof -
  have "sys_ok (length (idle pl)) x\<^sub>0" using sys_new_ok [OF assms(1-6) _ assms(7)] assms(8) by simp
  moreover have ao: "acts_ok small before x\<^sub>0" "act_ok (Complete skips v p) x" "acts_ok small as y"
    using assms(9,11,12) by (simp_all add: acts_ok_append)
  ultimately have x: "sys_ok (length (idle pl) + size (added_in before)) x"
    using run_moves_on [of _ x\<^sub>0 small before] assms(8,11) by fastforce
  have y: "sys_ok (length (idle pl) + size (added_in before)) y"
    using step_moves_on [OF x ao(2), of small] assms(8,12) by (simp add: moves_on_def added_def)
  obtain s pend where sp: "x = (s, pend)" by force
  from complete_flows [OF x [unfolded sp] ao(2) [unfolded sp] assms(12) [unfolded sp]] obtain t where
    t: "waited_by (ioEngine s) p = {#t#}" "next_target x < procs_of y"
      "queue_of (next_target x) y = queue_of (next_target x) x @ t # []" "result_of t y = v"
    unfolding sp by auto
  from queued_runs [OF y ao(3) assms(10) _ t(2,3) assms(13)] assms(8) t(1,4) sp show ?thesis by auto
qed

theorem completed_call_returns_witness:
  "\<exists>x\<^sub>0 x y pre z t. sample_sys = Inr x\<^sub>0 \<and> sys_run (\<lambda>_. True) (take 4 sample_acts) x\<^sub>0 = Inr x \<and>
    sys_step (\<lambda>_. True) (Complete [] 512 0) x = Inr y \<and> sys_run (\<lambda>_. True) pre y = Inr z \<and>
    control_of (next_target x) z = Coroutine t \<and> result_of t z = 512"
proof -
  let ?pl = "sample_pool [] 0 100 (\<lambda>_. Runnable)" and ?b = "take 4 sample_acts" and ?small = "\<lambda>_ :: tptr. True"
  have sa: "sample_acts = ?b @ Complete [] 512 0 # [Run_loop 0]" by (simp add: sample_acts_def)
  obtain x\<^sub>0 where x0: "sample_sys = Inr x\<^sub>0" "acts_ok ?small sample_acts x\<^sub>0"
    using sample_acts_ok by (auto split: sum.splits)
  have pl: "pool_inv ?pl" "idle ?pl = []" by (simp_all add: sample_pool_inv)
  have h: "patient (sample_hooks (FdDesc_new 3 tOther False))"
    by (simp add: patient_def sample_hooks_def FdDesc_new_def)
  have ad: "added_in ?b = {#10#}" "added_in [Run_loop 0] = {#}" by (simp_all add: sample_acts_def added_def)
  have n: "(0 :: nat) < 1" "(1 :: nat) < 2 ^ 64" "length (idle ?pl) + size (added_in (?b @ [Run_loop 0])) \<le> lfq_room"
    using pl(2) by (simp_all only: added_in_append ad) (simp_all add: lfq_room_def)
  have ok: "sys_ok 0 x\<^sub>0" "places x\<^sub>0 = {#}" "procs_of x\<^sub>0 = 1"
    using sys_new_ok [OF x0(1) [unfolded sample_sys_def] n(1,2) _ _ pl(1) _ h] pl(2) x0(1)
    by (auto simp: sample_sys_def sys_new_def procs_of_def bindE_eq_Inr)
  have b: "acts_ok ?small ?b x\<^sub>0" using x0(2) sa by (metis acts_ok_append)
  obtain x where x: "sys_run ?small ?b x\<^sub>0 = Inr x" "sys_ok 1 x" "places x + finished_in ?small ?b x\<^sub>0 = {#10#}"
    using run_moves_on [OF ok(1) b] by (auto simp: ad ok(2) lfq_room_def)
  have all: "acts_ok ?small (?b @ Complete [] 512 0 # [Run_loop 0]) x\<^sub>0" using x0(2) sa by simp
  then have c: "act_ok (Complete [] 512 0) x" using x(1) by (simp add: acts_ok_append)
  obtain y where y: "sys_step ?small (Complete [] 512 0) x = Inr y"
    using step_moves_on [OF x(2) c, of ?small] by (auto simp: moves_on_def added_def lfq_room_def)
  obtain s pend where sp: "x = (s, pend)" by force
  have "Balance \<notin> set ?b" "0 + size (added_in ?b) \<le> lfq_room"
    by (simp add: sample_acts_def) (simp add: ad lfq_room_def)
  then have p1: "procs_of x = 1" using run_procs [OF ok(1) b _ _ _ x(1)] ok(3) by simp
  from complete_flows [OF x(2) [unfolded sp] c [unfolded sp] y [unfolded sp]] obtain t where
    t: "waited_by (ioEngine s) 0 = {#t#}" "next_target x < procs_of x" by (auto simp: sp)
  have "size (places x) \<le> 1" using x(3) by (metis size_single size_union le_add1)
  moreover have "size (places x) = size (sum_list (map held (processers s))) + length (lfq_contents (ioQueue s)) +
      (1 + size (\<Sum>x\<in>pend - {0}. waited_by (ioEngine s) x))"
    using completed_waits [OF x(2) [unfolded sp] c [unfolded sp]] t(1) by (simp add: sp places_def)
  moreover have "length (queue_of (next_target x) x) \<le> size (sum_list (map held (processers s)))"
    using size_mset_mono [OF nth_subset_sum [of "next_target x" "processers s" held]] t(2)
    by (simp add: sp queue_of_def procs_of_def held_def)
  ultimately have q: "length (queue_of (next_target x) x) < turns ?small (next_target x) [Run_loop 0] y"
    using p1 t(2) by (simp add: dispatches_def)
  have nb: "Balance \<notin> set [Run_loop 0]" by simp
  note x0(1) x(1) y
  moreover note completed_call_returns [OF x0(1) [unfolded sample_sys_def] n(1,2) choice.select_convs(2)
      choice.select_convs(2) pl(1) h n(3) all nb x(1) y q]
  ultimately show ?thesis by blast
qed

end
