(* ===== verification/Malloc_Hook.thy ===== *)
theory Malloc_Hook
  imports Prelude
begin

text \<open>
  The replacement of \<open>malloc\<close> in \<open>hook/malloc.cpp\<close>. \<open>sys_malloc\<close> is the pointer that
  \<open>dlsym\<close> has found: null, here \<open>None\<close>, as long as the static initialisers of the file have
  not run, which includes calls that \<open>dlsym\<close> itself makes. The standard output is a list of
  characters.
\<close>

text \<open>The literal has 19 characters; the 20 bytes written include its terminator.\<close>

definition malloc_banner :: string where
  "malloc_banner = ''malloc hook success'' @ [CHR 0x00]"

definition malloc_hook :: "(u64 \<Rightarrow> u64) option \<Rightarrow> u64 \<Rightarrow> string \<Rightarrow> u64 \<times> string" where
  "malloc_hook sys_malloc sz out =
     (let out = out @ take 20 malloc_banner
      in case sys_malloc of
           Some f \<Rightarrow> (f sz, out)
         | None \<Rightarrow> (0, out))"

lemma malloc_hook_transparent:
  "fst (malloc_hook (Some f) sz out) = f sz \<and> fst (malloc_hook None sz out) = 0 \<and>
   length (snd (malloc_hook m sz out)) = length out + 20"
  by (cases m) (simp_all add: malloc_hook_def malloc_banner_def)

end
