(* ===== verification/Spec2Isabelle.thy ===== *)
theory Spec2Isabelle
  imports Uring_Cat_Correct LFQueue_Linear Parking Co_Chan Fd_Hook Scheduler Switching Runtime_Fair Malloc_Hook
begin

text \<open>
  A verification development for UringFiber, an N:M coroutine runtime on io_uring: coroutines
  (tasks) run on processer threads, blocking system calls are intercepted and turned into
  io_uring requests, and a scheduler connects the two.

  \<^bold>\<open>Parts and theories\<close>

  \<^item> \<open>Prelude\<close>: machine types, faults, the error monad, transition systems with the locale
    \<open>inductive_invariant\<close>, word lemmas. \<open>Fifo\<close>: the locales \<open>fifo\<close> and \<open>sized_fifo\<close>, the
    contract that every client of the queue relies on.
  \<^item> \<open>thread_safe/lockfree_queue.hpp\<close>: \<open>Counted_Ptr\<close> has the macros on packed pointers;
    \<open>LFQueue\<close> the queue as a machine, one constructor of \<open>pc\<close> per atomic access of \<open>push\<close> and
    \<open>pop\<close> and of the helpers \<open>set_new_tail\<close>, \<open>free_external_counter\<close>, \<open>release_ref\<close>,
    \<open>increase_external_count\<close>, and \<open>lf_trace\<close> for any interleaving of any number of threads;
    \<open>LFQueue_Solo\<close> proves that one operation at a time implements \<open>sized_fifo\<close> and
    interprets the locale; \<open>LFQueue_Races\<close> gives an interleaving that loses an element,
    one in which a pop takes a queue for empty that never is, and what happens in recycled memory;
    \<open>LFQueue_Inv\<close> states the reference-counting invariant of all interleavings and
    \<open>LFQueue_Safety\<close> proves that every atomic step keeps it; \<open>LFQueue_Progress\<close> bounds the
    steps of a thread that runs alone; \<open>LFQueue_Linear\<close> follows the elements of one pusher at a
    time through any number of concurrent pops.
  \<^item> \<open>context/\<close>: \<open>Stack_Mem\<close> (\<open>Stack\<close> and \<open>Context\<close>; mmap, mprotect, mincore are arguments).
    \<open>processer/task*.hpp\<close>: \<open>Task_Pool\<close>.
  \<^item> \<open>processer/processer.cpp\<close>: \<open>Processer\<close> (run queue, deferred closures, \<open>Yield\<close>,
    \<open>SuspendTask\<close>, stealing, the scheduling loop). \<open>Parking\<close>: the protocol by which a consumer
    sleeps and is woken, written once for \<open>Processer::Wait\<close>/\<open>WakeUp\<close> and the scheduler's I/O
    submit thread, as a step relation with any number of callers. \<open>Switching\<close>: the loops and
    coroutines of any number of threads with each half of \<open>swapcontext\<close> a step of its own
    (\<open>swap_save\<close>, \<open>swap_load\<close>), refined to \<open>Yield_cur\<close> of \<open>Processer\<close>.
  \<^item> \<open>sync/\<close>: \<open>Co_Mutex\<close> (the coroutine mutex, one step per atomic access, any number of tasks)
    \<open>Channel\<close> (the channel's critical sections on a current processer, and the mutex around
    them) and \<open>Co_Chan\<close> (its copyable handles with their use count).
  \<^item> \<open>io_uring/io_uring_engine.cpp\<close>: \<open>Io_Engine\<close>. \<open>hook/\<close>: \<open>Fd_Hook\<close> (descriptor table, and
    for each intercepted call whether it goes to the C library or which request it submits).
  \<^item> \<open>scheduler/scheduler.cpp\<close>: \<open>Scheduler\<close> (routing, load balancing in binary32, start, stop,
    the I/O submit and wait threads). \<open>Async_Io\<close> composes processer, scheduler, engine and hooks:
    a blocking call of a coroutine from the hook through its suspension, the deferred closure, the
    submit thread and the completion back to a run queue. \<open>Runtime\<close> lets all of these - rounds of
    the loops and of the I/O threads, yields, blocking calls, ends, completions, balancing - follow
    each other in any order over any number of processers, and \<open>Runtime_Fair\<close> follows one call
    through it.
  \<^item> \<open>iouring_cat.c\<close>, the stand-alone program: \<open>Uring_Cat\<close> (the rings and the heap as memory
    by address, the kernel and the C library as the record \<open>cat_os\<close>) and \<open>Uring_Cat_Correct\<close>.
    \<open>hook/malloc.cpp\<close>: \<open>Malloc_Hook\<close>.

  \<^bold>\<open>How state and operations correspond\<close>

  A class is a record with the fields of the source; an operation is a function of the record
  with the result \<open>fault + state\<close>, where each undefined behaviour, failed assertion or
  exception of the source is a \<open>fault\<close>. Machine integers are words. Pointers are addresses
  into stores (\<open>heap\<close> of the queue, \<open>store\<close> of the pool, \<open>descs\<close> of the hooks, \<open>rdata\<close> of
  the engine), so that sharing and dangling are visible. What the source leaves to the operating
  system, liburing or the allocator is an argument.

  The queue's operations inside other components run by themselves (\<open>lfq_push\<close>, \<open>lfq_pop\<close>);
  their clients use them only through the locale's laws. What can happen when they interleave
  is the subject of \<open>LFQueue_Races\<close>, \<open>LFQueue_Safety\<close> and \<open>LFQueue_Linear\<close>.
  The current processer of a thread, the thread-local pointer behind \<open>GetCurProcesser\<close>, is a
  map from threads in \<open>Processer\<close>; elsewhere it is the processer that an operation is given.

  \<^bold>\<open>What is repaired or assumed\<close>

  Three places of the source are fatal on every path through them, and what depends on them is proved
  of a repaired version, which the statements name; the versions as written are modelled too, with
  the theorems that they fail.

  \<^item> \<open>Yield\<close> reads the status of the yielding task through a pointer it has just cleared
    (\<open>yield_null_deref\<close>). \<open>Yield_cur\<close> reads it through \<open>cur_task\<close>. Everything about suspension rests on
    it: the yields of \<open>Processer\<close>, the blocking calls of \<open>Async_Io\<close>, \<open>Switching\<close>, \<open>Runtime\<close>.
  \<^item> \<open>Release\<close> asks \<open>Context::Check_stack_used\<close>, which has no \<open>return\<close> (\<open>release_never_returns\<close>).
    \<open>Release_checked\<close> is given an answer.
  \<^item> The constructor of a queue node leaves \<open>data\<close> as the memory is. \<open>new_node\<close> is given what the memory
    holds (\<open>ch_data\<close>); that it is null is a premise of the theorems on the order and the progress of
    the queue and, through \<open>solo_choice\<close>, built into \<open>lfq_push\<close>, which the other components
    use. \<open>recycled_node_pops_junk\<close> is what happens otherwise. Memory safety needs no such premise.

  \<open>Runtime\<close> also leaves out what other theorems show to lose or double a task: a full submission ring,
  a timeout that expires, a stop, a yield of a woken task, overlapping queue operations. The engine's
  safety assumes that the completion ring does not fill (\<open>full_ring_dangles\<close>), that of switching that every
  wake-up is expected (\<open>unexpected_wakeup_tears\<close>), the order of a channel that its bodies do not
  overlap (\<open>lock_excludes_nobody\<close>), the mutual exclusion of \<open>try_lock\<close> that nobody has called it
  in vain yet, the descriptor table that sockets are not created with SOCK_NONBLOCK and F_SETFL does
  not fail.

  \<^bold>\<open>What the lemmas show\<close>

  The queue refines a FIFO list and owns exactly its nodes; with one push at a time and concurrent
  pops its elements leave once and in order, but because a freed address is reused a pop can miss the
  elements of a queue that is never empty, and with concurrent pushes it can lose an element; it never touches
  a freed node, reclaims every node once its threads have
  returned, and lets a thread that runs alone return from every reachable state; the wake-up protocol loses no
  wake-up for queued work but can lose a stop; a thread loads only contexts that have been saved
  and no coroutine runs on two threads, provided that tasks are woken only once they are suspended, and once,
  which the channel and timed-out calls do not respect; yields are round robin and keep queues and pool
  disjoint; stealing and balancing conserve tasks; channel histories are FIFO and bounded, and without waiting a channel is a bounded queue;
  destroying its last handle hangs while a call waits;
  \<open>try_lock\<close> excludes while \<open>lock\<close> does not; ring data are live as long as completions are
  pending; the descriptor table follows the kernel's sharing; a blocking
  call suspends its coroutine, is submitted once, in the order of the calls and as if at once, and
  its completion queues the task again, but a full ring loses it, a timeout queues it twice with a
  wrong result, and after it its status is never runnable again; the runtime as a whole, within its limits, never faults nor loses
  a task, and a call that has completed returns the kernel's result within as many turns of a
  processer as its queue is long; stopping queues a wild pointer; timeouts survive their conversions
  below 2^31 microseconds; \<open>iouring_cat\<close> prints the concatenation of its files, up to 1 MiB
  each, behind the banner it prints when the kernel has fast poll. The counterexamples are proved as theorems on the same definitions.

  \<^bold>\<open>Bounds and fuel\<close>

  \<open>lfq_push\<close> and \<open>lfq_pop\<close> run at most 16 steps, and \<open>LFQueue_Solo\<close> proves that an undisturbed
  operation needs fewer; \<open>drain\<close> pops at most as often as there are nodes, which is enough by
  \<open>drain_rep\<close>. \<open>cm_exec\<close>, \<open>Start_alone\<close> and \<open>main_loop\<close> take fuel; statements that they
  diverge hold for every fuel. \<open>lfq_room\<close> = 2^31 - 1 bounds a queue by its \<open>int\<close> size.
  \<open>max_threads\<close> = 2^30 - 1 threads and no wrap of a 16-bit external count (\<open>no_wrap\<close>) are the
  premises of memory safety: the internal count has 30 bits. \<open>rank_le\<close> proves that 31 steps are
  enough for a thread that runs alone. The loops of \<open>iouring_cat\<close> are
  \<open>function\<close>s with termination proofs; 1 MiB is what 1024 iovecs of 1 KiB hold, the most that a
  vectored read accepts.

  \<^bold>\<open>What is not modelled\<close>

  Memory orders (accesses are sequentially consistent); the contents of the registers behind
  \<open>swapcontext\<close>, of which only what a context resumes with is kept; the tests and demos; what the
  headers only declare; \<open>getsockopt\<close>, which only forwards; the set-up and tear-down of the ring,
  which is liburing's. Places that do
  not compile as written are read as intended: \<open>make_unique<Task>(Task*)\<close> takes ownership of the
  pointer, \<open>processers_.emplace_back(taskPool_)\<close> creates a processer, a brace list of one
  \<open>unique_ptr\<close> is a list of one task.
\<close>

section \<open>Properties across components\<close>

text \<open>
  C33: a receive that times out is misreported. A socket gets a receive timeout through
  \<open>setsockopt\<close>; a coroutine's \<open>recv\<close> submits its request with that timeout; the kernel cancels
  the operation and completes the linked timeout, in one order or the other. Each of the two completions
  wakes the task, and the hook returns what it finds in the result when the task runs: after the
  completion of the timeout it is 11 with \<open>errno\<close> untouched, after that of the operation -1 with
  ECANCELED (125), whether the task runs between the two or after both. The documented answer, -1 with
  EAGAIN (11), which a stored -11 would have given, never comes.
\<close>

theorem recv_timeout_misreported:
  assumes "find_desc fd h = Inr (Some (p, d))" "fdType d = tSocket" "\<not> isNonBlocking d"
    and "0 < sec" "sec < 2147"
    and "n = next_data e" "evs \<in> {[Cqe (- ECANCELED) n, Cqe (- ETIME) (Suc n)], [Cqe (- ETIME) (Suc n), Cqe (- ECANCELED) n]}"
  shows "\<exists>h' ts e1 e2 e3.
    hook_setsockopt 0 fd SOL_SOCKET SO_RCVTIMEO (word_of_int sec) (word_of_int 0) h = Inr h' \<and>
    hook_recv True fd buf len 0 h' = Inr (Async (Prep_recv fd buf len 0) ts) \<and>
    Exec True True (Prep_recv fd buf len 0) r ts e = Inr (True, e1) \<and>
    WaitResult evs e1 = Inr (Some (user_data (results e r)), tl evs, e2) \<and>
    WaitResult (tl evs) e2 = Inr (Some (user_data (results e r)), [], e3) \<and>
    IOSubmit_result (ret (results e2 r)) = (if hd evs = Cqe (- ECANCELED) n then (- 1, Some 125) else (11, None)) \<and>
    IOSubmit_result (ret (results e3 r)) = (if last evs = Cqe (- ECANCELED) n then (- 1, Some 125) else (11, None)) \<and>
    IOSubmit_result (- 11) = (- 1, Some 11)"
proof -
  let ?ts = "\<lparr>tv_sec = word_of_int sec, tv_nsec = 0\<rparr>"
  have ts: "split_timeout (scast (microseconds sec 0)) = ?ts"
    using split_timeout_ok [of sec 0] assms(4,5) by simp
  have "sint (word_of_int sec :: i64) = sec" by (rule sint_i64) (use assms(4,5) in auto)
  then have pos: "0 <s tv_sec ?ts" "0 \<le>s tv_sec ?ts" "0 \<le>s tv_nsec ?ts"
    using assms(4) by (simp_all add: word_sless_alt word_sle_eq)
  obtain e1 where e1: "Exec True True (Prep_recv fd buf len 0) r ?ts e = Inr (True, e1)"
    "rdata e1 = (rdata e)(n \<mapsto> \<lparr>rd_type = NORMAL, rd_res = r\<rparr>, Suc n \<mapsto> \<lparr>rd_type = TIMEOUT, rd_res = r\<rparr>)"
    "results e1 = results e"
    using pos assms(6) by (auto simp: Exec_def new_data_def Submit_def Let_def)
  have "IOSubmit_result 11 = (11, None)" "IOSubmit_result (- 11) = (- 1, Some 11)"
    "IOSubmit_result (- 125) = (- 1, Some 125)" by (simp_all add: IOSubmit_result_def word_sless_alt)
  with e1 setsockopt_recv [OF assms(1-3), where sec = sec and usec = 0 and buf = buf and len = len] assms(7)
  show ?thesis
    by (auto simp: ts on_cqe_def finish_data_def EAGAIN_def ETIME_def ENOENT_def ECANCELED_def)
qed

theorem recv_timeout_misreported_witness:
  "\<exists>h' ts e1 e2 e3.
    hook_setsockopt 0 3 SOL_SOCKET SO_RCVTIMEO 5 0 (sample_hooks (sample_socket False)) = Inr h' \<and>
    hook_recv True 3 0x1000 64 0 h' = Inr (Async (Prep_recv 3 0x1000 64 0) ts) \<and>
    Exec True True (Prep_recv 3 0x1000 64 0) 1 ts sample_engine = Inr (True, e1) \<and>
    WaitResult [Cqe (- ECANCELED) 0, Cqe (- ETIME) 1] e1 = Inr (Some 77, [Cqe (- ETIME) 1], e2) \<and>
    WaitResult [Cqe (- ETIME) 1] e2 = Inr (Some 77, [], e3) \<and>
    IOSubmit_result (ret (results e2 1)) = (- 1, Some 125) \<and> IOSubmit_result (ret (results e3 1)) = (11, None)"
proof -
  have s: "fdType (sample_socket False) = tSocket" "\<not> isNonBlocking (sample_socket False)"
    by (simp_all add: sample_socket_def SetSocketAttr_def FdDesc_new_def)
  have n: "next_data sample_engine = 0" "user_data (results sample_engine 1) = 77"
    by (simp_all add: sample_engine_def engine_new_def)
  have l: "Cqe (- ETIME) 1 \<noteq> Cqe (- ECANCELED) 0" by simp
  from recv_timeout_misreported [OF sample_hooks_find [of "sample_socket False"] s, where sec = 5 and
      buf = "0x1000" and len = 64 and r = 1 and e = sample_engine and n = 0 and
      evs = "[Cqe (- ECANCELED) 0, Cqe (- ETIME) 1]"]
  show ?thesis using n l by fastforce
qed

end
